(* ===== verification/Prelude.thy ===== *)
theory Prelude
  imports Main "HOL-Library.Word" "HOL-Library.Monad_Syntax"
begin

text \<open>
  Shared vocabulary of the development: the C integer types as words of their width, the
  conversions C inserts between them, pointers into the shared fof pool, singly linked lists
  in memory, and the generic facts about them that the component theories use.

  A C function that may run forever, dereference a null pointer, index an array out of range
  or divide by zero has a result of type \<^typ>\<open>'a option\<close>: \<^const>\<open>None\<close> stands for every such
  execution, so a theorem that the result is \<^term>\<open>Some r\<close> says that the call returns and does
  nothing undefined.
\<close>

unbundle bit_operations_syntax


subsection \<open>C integer types and conversions\<close>

type_synonym u64 = "64 word"   \<comment> \<open>uint64_t, size_t\<close>
type_synonym u32 = "32 word"   \<comment> \<open>uint32_t, unsigned int\<close>
type_synonym c_int = "32 word" \<comment> \<open>int, read with sint\<close>
type_synonym c_float = "32 word" \<comment> \<open>the bit pattern of a float; the program copies it only\<close>

abbreviation u64_of_int :: "c_int \<Rightarrow> u64" where
  "u64_of_int x \<equiv> scast x"

abbreviation int_of_u64 :: "u64 \<Rightarrow> c_int" where
  "int_of_u64 x \<equiv> ucast x"

lemma uint_u64_of_int:
  assumes "0 \<le> sint x"
  shows "uint (u64_of_int x) = sint x"
proof -
  have "sint x < 2 ^ 31" using sint_lt [of x] by simp
  then have "take_bit LENGTH(64) (sint x) = sint x"
    using assms by (intro take_bit_int_eq_self) simp_all
  then show ?thesis
    unfolding scast_eq uint_word_of_int_eq .
qed

lemma unat_u64_of_int: "0 \<le> sint x \<Longrightarrow> unat (u64_of_int x) = nat (sint x)"
  by (simp only: unat_eq_nat_uint uint_u64_of_int)

lemma sint_nonneg_uint:
  assumes "0 \<le> sint (x :: c_int)"
  shows "sint x = uint x"
proof -
  have "sint x < 2 ^ 31" using sint_lt [of x] by simp
  then have "take_bit LENGTH(32) (sint x) = sint x"
    using assms by (intro take_bit_int_eq_self) simp_all
  then show ?thesis by (simp only: uint_sint)
qed

lemma sint_small:
  assumes "unat (x :: c_int) < 2 ^ 31"
  shows "sint x = int (unat x)"
proof -
  have "uint x = int (unat x)" by simp
  moreover have "int (unat x) < 2 ^ 31"
    using assms by (metis of_nat_less_iff of_nat_numeral of_nat_power)
  ultimately have u: "uint x < 2 ^ 31" by (simp only:)
  have l: "- (2 ^ 31) \<le> uint x" by (rule order_trans [of _ 0]) simp_all
  have "signed_take_bit 31 (uint x) = uint x"
    using l u by (rule signed_take_bit_int_eq_self)
  then have "sint x = uint x" by (simp add: sint_uint)
  then show ?thesis by simp
qed

lemma unat_int_of_u64: "unat (int_of_u64 x) = unat x mod 2 ^ 32"
proof -
  have "unat (int_of_u64 x) = take_bit 32 (unat x)" by (simp add: unsigned_ucast_eq)
  also have "\<dots> = unat x mod 2 ^ 32" by (rule take_bit_eq_mod)
  finally show ?thesis .
qed

lemma sint_int_of_u64:
  assumes "unat x < 2 ^ 31"
  shows "sint (int_of_u64 x) = int (unat x)"
proof -
  have "unat (int_of_u64 x) = unat x" using assms by (simp add: unat_int_of_u64)
  with assms show ?thesis by (simp add: sint_small)
qed

lemma unat_u64_of_u32: "unat (ucast (x :: u32) :: u64) = unat x"
proof -
  have "unat (ucast x :: u64) = take_bit 64 (unat x)" by (simp add: unsigned_ucast_eq)
  also have "\<dots> = unat x"
    using unsigned_less [of x, where ?'a = nat] by (intro take_bit_nat_eq_self) simp
  finally show ?thesis .
qed

lemma unat_pow2_minus_1:
  assumes "k < LENGTH('a)"
  shows "unat (2 ^ k - 1 :: 'a::len word) = 2 ^ k - 1"
proof -
  have "(2 ^ k - 1 :: 'a word) = of_nat (2 ^ k - 1)" by (simp add: of_nat_diff)
  moreover have "(2::nat) ^ k < 2 ^ LENGTH('a)" using assms by simp
  then have "(2::nat) ^ k - 1 < 2 ^ LENGTH('a)" by (rule le_less_trans [OF diff_le_self])
  ultimately show ?thesis by (simp only: unat_of_nat mod_less)
qed

lemma unat_pow2:
  assumes "k < LENGTH('a)"
  shows "unat (2 ^ k :: 'a::len word) = 2 ^ k"
proof -
  have "(2 ^ k :: 'a word) = of_nat (2 ^ k)" by simp
  moreover have "(2::nat) ^ k < 2 ^ LENGTH('a)" using assms by simp
  ultimately show ?thesis by (simp only: unat_of_nat mod_less)
qed

lemma sint_pow2:
  assumes "k < 31"
  shows "sint (2 ^ k :: c_int) = 2 ^ k"
proof -
  have u: "unat (2 ^ k :: c_int) = 2 ^ k" using assms by (intro unat_pow2) simp
  moreover have "(2::nat) ^ k < 2 ^ 31" using assms by (intro power_strict_increasing) simp_all
  ultimately show ?thesis by (subst sint_small) simp_all
qed

lemma u64_of_pow2_minus_1:
  assumes "k < 31"
  shows "u64_of_int (2 ^ k - 1) = 2 ^ k - 1"
proof -
  have u: "unat (2 ^ k - 1 :: c_int) = 2 ^ k - 1" using assms by (intro unat_pow2_minus_1) simp
  have "(2::nat) ^ k < 2 ^ 31" using assms by (intro power_strict_increasing) simp_all
  with u have "unat (2 ^ k - 1 :: c_int) < 2 ^ 31" by linarith
  then have s: "sint (2 ^ k - 1 :: c_int) = int (2 ^ k - 1)" by (simp only: sint_small u)
  have "uint (u64_of_int (2 ^ k - 1)) = int (2 ^ k - 1)"
    using s by (subst uint_u64_of_int) simp_all
  moreover have "unat (2 ^ k - 1 :: u64) = 2 ^ k - 1"
    using assms by (intro unat_pow2_minus_1) simp
  ultimately show ?thesis
    by (simp only: word_unat_eq_iff unat_eq_nat_uint nat_int)
qed

lemma unat_and_mask: "unat (x AND (2 ^ k - 1) :: u64) = unat x mod 2 ^ k"
proof -
  have "x AND (2 ^ k - 1) = take_bit k x"
    by (simp only: take_bit_eq_mask mask_eq_exp_minus_1)
  moreover have "unat (take_bit k x) = take_bit k (unat x)" by (rule unsigned_take_bit_eq)
  moreover have "take_bit k (unat x) = unat x mod 2 ^ k" by (rule take_bit_eq_mod)
  ultimately show ?thesis by (simp only:)
qed

lemma unat_minus: "y \<le> x \<Longrightarrow> unat (x - y :: 'a::len word) = unat x - unat y"
  by (rule unat_sub)

text \<open>C's \<open>%\<close> on \<open>int\<close>: the sign of the dividend, undefined for a zero divisor.\<close>

definition c_rem :: "c_int \<Rightarrow> c_int \<Rightarrow> c_int option" where
  "c_rem a b = (if b = 0 then None
     else Some (word_of_int (sgn (sint a) * (\<bar>sint a\<bar> mod \<bar>sint b\<bar>))))"

lemma sint_of_nat: "n < 2 ^ 31 \<Longrightarrow> sint (of_nat n :: c_int) = int n"
  by (subst sint_small) (simp_all add: unat_of_nat)

lemma of_nat_sint: "0 \<le> sint x \<Longrightarrow> of_nat (nat (sint x)) = (x :: c_int)"
  by (simp add: signed_word_eqI)

lemma c_rem_of_nat:
  assumes "m < 2 ^ 31" and "n < 2 ^ 31" and "0 < n"
  shows "c_rem (of_nat m) (of_nat n) = Some (of_nat (m mod n))"
proof -
  have s: "sint (of_nat m :: c_int) = int m" "sint (of_nat n :: c_int) = int n"
    using assms(1,2) by (simp_all add: sint_of_nat)
  then have "(of_nat n :: c_int) \<noteq> 0" using assms(3) by auto
  moreover have "sgn (int m) * (int m mod int n) = int (m mod n)"
    by (cases "m = 0") (simp_all add: of_nat_mod)
  ultimately show ?thesis using s by (simp add: c_rem_def)
qed

lemma replicate_update_same [simp]: "(replicate n x)[i := x] = replicate n x"
  by (cases "i < n") (simp_all add: list_update_same_conv list_update_beyond)

lemma mod_shift_inj:
  fixes j k n :: nat
  assumes "j < n" "k < n" and "(b + j) mod n = (b + k) mod n"
  shows "j = k"
proof -
  have *: "y = x" if "x \<le> y" "y < n" "(b + x) mod n = (b + y) mod n" for x y
  proof -
    have "(b + y) mod n = (b + x) mod n" using that(3) by simp
    then have "n dvd y - x" using that(1) mod_eq_dvd_iff_nat [of "b + x" "b + y" n] by simp
    then have "y - x = 0 \<or> n \<le> y - x" using dvd_imp_le [of n "y - x"] by blast
    then show ?thesis using that(1,2) by linarith
  qed
  show ?thesis
  proof (cases "j \<le> k")
    case True
    then show ?thesis using * [of j k] assms by simp
  next
    case False
    then show ?thesis using * [of k j] assms by simp
  qed
qed

lemma next_slot_differs:
  fixes b n :: nat
  assumes "2 \<le> n" shows "Suc b mod n \<noteq> b mod n"
  using mod_shift_inj [of 1 n 0 b] assms by auto

text \<open>What \<open>sprintf\<close> prints for \<open>%d\<close> and a non-negative number.\<close>

fun decimal :: "nat \<Rightarrow> string" where
  "decimal n = (if n < 10 then [char_of (48 + n)] else decimal (n div 10) @ [char_of (48 + n mod 10)])"

declare decimal.simps [simp del]

subsection \<open>Singly linked lists in memory\<close>

text \<open>
  A pointer into an array of cells is an index, or \<^const>\<open>None\<close> for \<open>NULL\<close>.
  \<open>chain h p xs\<close>: following the \<open>next\<close> fields \<open>h\<close> from \<open>p\<close> visits the cells \<open>xs\<close> and then
  reaches \<open>NULL\<close>.
\<close>

type_synonym cell_ptr = "nat option"

primrec chain :: "(nat \<Rightarrow> cell_ptr) \<Rightarrow> cell_ptr \<Rightarrow> nat list \<Rightarrow> bool" where
  "chain h p [] \<longleftrightarrow> p = None"
| "chain h p (a # as) \<longleftrightarrow> p = Some a \<and> chain h (h a) as"

lemma chain_None [simp]: "chain h None xs \<longleftrightarrow> xs = []"
  by (cases xs) auto

lemma chain_Some: "chain h (Some a) xs \<longleftrightarrow> (\<exists>ys. xs = a # ys \<and> chain h (h a) ys)"
  by (cases xs) auto

lemma chain_unique: "chain h p xs \<Longrightarrow> chain h p ys \<Longrightarrow> xs = ys"
  by (induction xs arbitrary: p ys) (auto simp: chain_Some)

lemma chain_cong:
  "(\<And>a. a \<in> set xs \<Longrightarrow> h a = g a) \<Longrightarrow> chain h p xs = chain g p xs"
  by (induction xs arbitrary: p) auto

lemma chain_upd [simp]: "a \<notin> set xs \<Longrightarrow> chain (h(a := v)) p xs = chain h p xs"
  by (rule chain_cong) auto

lemma chain_suffix: "chain h p (xs @ a # ys) \<Longrightarrow> chain h (h a) ys"
  by (induction xs arbitrary: p) auto

lemma chain_distinct: "chain h p xs \<Longrightarrow> distinct xs"
proof (induction xs arbitrary: p)
  case Nil
  then show ?case by simp
next
  case (Cons a as)
  have "a \<notin> set as"
  proof
    assume "a \<in> set as"
    then obtain us vs where as: "as = us @ a # vs" by (auto simp: in_set_conv_decomp)
    from Cons.prems have c: "chain h (h a) as" by simp
    then have "chain h (h a) vs" unfolding as by (rule chain_suffix)
    with c have "as = vs" by (rule chain_unique)
    then have "length as = length (us @ a # as)" using as by (simp only:)
    then show False by simp
  qed
  with Cons show ?case by auto
qed

text \<open>Linking the last cell of one list to the head of another concatenates them.\<close>

lemma chain_splice:
  assumes "chain h p (xs @ [t])" and "chain h r ys" and "t \<notin> set ys"
  shows "chain (h(t := r)) p (xs @ t # ys)"
proof -
  from assms(1) have "distinct (xs @ [t])" by (rule chain_distinct)
  with assms show ?thesis by (induction xs arbitrary: p) auto
qed

lemma chain_push: "chain h r ys \<Longrightarrow> a \<notin> set ys \<Longrightarrow> chain (h(a := r)) (Some a) (a # ys)"
  by simp

text \<open>The list that starts at a pointer, computed; at most \<open>n\<close> cells.\<close>

fun walk :: "nat \<Rightarrow> (nat \<Rightarrow> cell_ptr) \<Rightarrow> cell_ptr \<Rightarrow> nat list" where
  "walk 0 h p = []"
| "walk (Suc n) h p = (case p of None \<Rightarrow> [] | Some a \<Rightarrow> a # walk n h (h a))"

lemma walk_chain: "chain h p xs \<Longrightarrow> length xs \<le> n \<Longrightarrow> walk n h p = xs"
proof (induction xs arbitrary: p n)
  case Nil
  then show ?case by (cases n) auto
next
  case (Cons a xs)
  then show ?case by (cases n) auto
qed

end
