(* ===== verification/Clock.thy ===== *)
theory Clock
  imports Prelude
begin

text \<open>
  The public types and the clock arithmetic: \<^verbatim>\<open>jfofs_types.h\<close> (clock sources and status codes),
  \<^verbatim>\<open>setup.h\<close> (the setup record) and the inline helpers of \<^verbatim>\<open>jfofs_private.h\<close> (normalising a clock
  source, converting between microseconds and frames). \<open>jack_nframes_t\<close> is JACK's documented
  unsigned 32-bit type.
\<close>

type_synonym jack_nframes_t = u32
type_synonym jfofs_time_t = u64

subsection \<open>Enumerations and the setup record\<close>

datatype jfofs_clock_source =
  JFOFS_CLOCK_UNSPECIFIED
| JFOFS_CLOCK_JACK_FRAME_TIME
| JFOFS_CLOCK_JACK_TRANSPORT
| JFOFS_CLOCK_OFFLINE_FREE_RUNNING

primrec clock_code :: "jfofs_clock_source \<Rightarrow> c_int" where
  "clock_code JFOFS_CLOCK_UNSPECIFIED = 0"
| "clock_code JFOFS_CLOCK_JACK_FRAME_TIME = 1"
| "clock_code JFOFS_CLOCK_JACK_TRANSPORT = 2"
| "clock_code JFOFS_CLOCK_OFFLINE_FREE_RUNNING = 3"

datatype jfofs_status =
  JFOFS_SUCCESS
| JFOFS_FAILURE
| JFOFS_MEMORY_ERROR
| JFOFS_PORT_ERROR
| JFOFS_SHM_ERROR
| JFOFS_SHM_MAP_ERROR
| JFOFS_FOF_LIMIT_ERROR
| JFOFS_FOF_LATE_WARNING
| JFOFS_FOF_EXCESS_INFO
| JFOFS_JACK_ERROR_MASK
| JFOFS_SYSTEM_ERROR_MASK

primrec status_code :: "jfofs_status \<Rightarrow> c_int" where
  "status_code JFOFS_SUCCESS = 0x00"
| "status_code JFOFS_FAILURE = 0x01"
| "status_code JFOFS_MEMORY_ERROR = 0x02"
| "status_code JFOFS_PORT_ERROR = 0x03"
| "status_code JFOFS_SHM_ERROR = 0x04"
| "status_code JFOFS_SHM_MAP_ERROR = 0x05"
| "status_code JFOFS_FOF_LIMIT_ERROR = 0x06"
| "status_code JFOFS_FOF_LATE_WARNING = 0x07"
| "status_code JFOFS_FOF_EXCESS_INFO = 0x1007"
| "status_code JFOFS_JACK_ERROR_MASK = 0x10000"
| "status_code JFOFS_SYSTEM_ERROR_MASK = 0x100000"

record setup_t =
  s_clock_source :: c_int
  s_mode :: c_int
  s_fofs_trace_level :: c_int
  s_n_clients :: c_int
  s_n_preallocate_fofs :: c_int
  s_n_max_fofs :: c_int
  s_n_slots :: c_int
  s_sample_rate :: c_int
  s_max_buffer_size :: c_int
  s_xrun_limit :: c_int
  s_verbose :: c_int

lemma clock_code_inject [simp]: "clock_code a = clock_code b \<longleftrightarrow> a = b"
  by (cases a; cases b) simp_all

lemma status_code_inject [simp]: "status_code a = status_code b \<longleftrightarrow> a = b"
  by (cases a; cases b) simp_all

lemma status_code_zero [simp]: "status_code s = 0 \<longleftrightarrow> s = JFOFS_SUCCESS"
  by (cases s) simp_all

subsection \<open>Clock sources\<close>

definition jfofs_clock_source_normalize :: "c_int \<Rightarrow> jfofs_clock_source" where
  "jfofs_clock_source_normalize clock_source =
     (if clock_source = clock_code JFOFS_CLOCK_JACK_TRANSPORT then JFOFS_CLOCK_JACK_TRANSPORT
      else if clock_source = clock_code JFOFS_CLOCK_OFFLINE_FREE_RUNNING
      then JFOFS_CLOCK_OFFLINE_FREE_RUNNING
      else JFOFS_CLOCK_JACK_FRAME_TIME)"

definition jfofs_clock_uses_transport :: "c_int \<Rightarrow> bool" where
  "jfofs_clock_uses_transport clock_source \<longleftrightarrow>
     jfofs_clock_source_normalize clock_source = JFOFS_CLOCK_JACK_TRANSPORT"

lemma normalize_idem [simp]:
  "jfofs_clock_source_normalize (clock_code (jfofs_clock_source_normalize c))
     = jfofs_clock_source_normalize c"
  by (simp add: jfofs_clock_source_normalize_def)

lemma normalize_specified: "jfofs_clock_source_normalize c \<noteq> JFOFS_CLOCK_UNSPECIFIED"
  by (simp add: jfofs_clock_source_normalize_def)

lemma uses_transport_normalize [simp]:
  "jfofs_clock_uses_transport (clock_code (jfofs_clock_source_normalize c))
     = jfofs_clock_uses_transport c"
  by (simp add: jfofs_clock_uses_transport_def)

lemma uses_transport_iff [simp]: "jfofs_clock_uses_transport (clock_code s) \<longleftrightarrow> s = JFOFS_CLOCK_JACK_TRANSPORT"
  by (cases s) (simp_all add: jfofs_clock_uses_transport_def jfofs_clock_source_normalize_def)

subsection \<open>Microseconds and frames\<close>

text \<open>
  The product is an unsigned 64-bit one and the frame number is cut to \<open>jack_nframes_t\<close>. A
  zero sample rate makes \<open>jfofs_nframes_to_time\<close> divide by zero.
\<close>

definition jfofs_time_to_nframes :: "u64 \<Rightarrow> c_int \<Rightarrow> jack_nframes_t" where
  "jfofs_time_to_nframes t sample_rate = ucast (t * u64_of_int sample_rate div 1000000)"

definition jfofs_nframes_to_time :: "u64 \<Rightarrow> c_int \<Rightarrow> u64 option" where
  "jfofs_nframes_to_time n sample_rate =
     (if u64_of_int sample_rate = 0 then None
      else Some (n * 1000000 div u64_of_int sample_rate))"

text \<open>The same conversions on unbounded numbers, as the documentation states them.\<close>

definition frames_of_us :: "nat \<Rightarrow> nat \<Rightarrow> nat" where
  "frames_of_us t rate = t * rate div 1000000"

definition us_of_frames :: "nat \<Rightarrow> nat \<Rightarrow> nat" where
  "us_of_frames n rate = n * 1000000 div rate"

definition ceil_us_of_frames :: "nat \<Rightarrow> nat \<Rightarrow> nat" where
  "ceil_us_of_frames n rate = (n * 1000000 + rate - 1) div rate"

lemma unat_time_to_nframes:
  assumes "0 \<le> sint rate" and "unat t * nat (sint rate) < 2 ^ 64"
  shows "unat (jfofs_time_to_nframes t rate) = frames_of_us (unat t) (nat (sint rate)) mod 2 ^ 32"
proof -
  have "unat (t * u64_of_int rate) = unat t * nat (sint rate)"
    using assms by (simp add: unat_mult_lem [THEN iffD1] unat_u64_of_int)
  then show ?thesis
    by (simp add: jfofs_time_to_nframes_def unat_int_of_u64 unat_div frames_of_us_def)
qed

lemma unat_nframes_to_time:
  assumes "0 < sint rate" and "unat n * 1000000 < 2 ^ 64"
  shows "\<exists>t. jfofs_nframes_to_time n rate = Some t \<and> unat t = us_of_frames (unat n) (nat (sint rate))"
proof -
  have r: "unat (u64_of_int rate) = nat (sint rate)" using assms by (simp add: unat_u64_of_int)
  with assms(1) have "u64_of_int rate \<noteq> 0" by (metis nat_0 nat_eq_iff2 less_irrefl unat_0 zero_less_nat_eq)
  moreover have "unat (n * 1000000) = unat n * 1000000"
    using assms(2) by (simp add: unat_mult_lem [THEN iffD1])
  ultimately show ?thesis
    by (simp add: jfofs_nframes_to_time_def unat_div us_of_frames_def r)
qed

lemma frames_of_us_ge_iff:
  assumes "0 < rate"
  shows "n \<le> frames_of_us t rate \<longleftrightarrow> ceil_us_of_frames n rate \<le> t"
proof -
  have "n \<le> frames_of_us t rate \<longleftrightarrow> n * 1000000 \<le> t * rate"
    by (simp add: frames_of_us_def less_eq_div_iff_mult_less_eq)
  also have "\<dots> \<longleftrightarrow> n * 1000000 + rate - 1 < Suc t * rate"
    using assms by auto
  also have "\<dots> \<longleftrightarrow> ceil_us_of_frames n rate < Suc t"
    using assms by (simp only: ceil_us_of_frames_def div_less_iff_less_mult)
  finally show ?thesis by (simp only: less_Suc_eq_le)
qed

lemma frames_us_roundtrip:
  assumes "0 < rate" and "rate \<le> 1000000"
  shows "frames_of_us (us_of_frames n rate) rate \<le> n"
    and "n \<le> Suc (frames_of_us (us_of_frames n rate) rate)"
proof -
  let ?t = "us_of_frames n rate"
  have lo: "?t * rate \<le> n * 1000000"
    by (simp add: us_of_frames_def)
  have hi: "n * 1000000 < ?t * rate + rate"
    using dividend_less_times_div [OF assms(1), of "n * 1000000"]
    by (simp add: us_of_frames_def algebra_simps)
  show "frames_of_us ?t rate \<le> n"
    using lo by (simp add: frames_of_us_def div_le_mono [THEN order_trans])
  have "n * 1000000 < (frames_of_us ?t rate + 1) * 1000000 + 1000000"
    using hi assms(2) by (simp add: frames_of_us_def)
  then show "n \<le> Suc (frames_of_us ?t rate)" by simp
qed

end
