(* ===== verification/External.thy ===== *)
theory External
  imports Clock
begin

text \<open>
  The code the program calls but does not contain, as parameters of the model: the fofs
  synthesis library (\<open>fofs.h\<close>) and what a call to JACK or the operating system returns. Nothing
  is assumed about them here; a definition that calls them takes the record as an argument.
\<close>

text \<open>The fof bank functions of the library, over an abstract bank type.\<close>

record 'b fofs_lib =
  fof_add_v :: "'b \<Rightarrow> u64 \<Rightarrow> c_float list \<Rightarrow> 'b \<times> c_int"
  fof_set_timeI :: "'b \<Rightarrow> u64 \<Rightarrow> 'b"
  fof_timeI :: "'b \<Rightarrow> u64"
  fof_next_block :: "'b \<Rightarrow> u32 \<Rightarrow> c_float list list \<Rightarrow> 'b \<times> c_float list list"
  fof_newBank :: "c_int \<Rightarrow> c_int \<Rightarrow> c_int \<Rightarrow> c_int \<Rightarrow> 'b option"
  fof_ModeToChannels :: "c_int \<Rightarrow> c_int"

text \<open>JACK's transport states; the program distinguishes \<open>Stopped\<close> and \<open>Rolling\<close> only.\<close>

datatype jack_transport_state =
  JackTransportStopped
| JackTransportRolling
| JackTransportOther nat

text \<open>What the clocks of JACK show during one call.\<close>

record jack_clock =
  jack_frame_time :: jack_nframes_t
  jack_transport_query :: "jack_transport_state \<times> jack_nframes_t"
  jack_get_current_transport_frame :: jack_nframes_t

text \<open>
  What the allocation and the JACK calls of one client constructor return: the result of
  \<open>posix_memalign\<close>, the client handle with its status, the port registered under a name, the
  server's sample rate and buffer size.
\<close>

record jack_setup =
  env_memalign :: c_int
  env_client_open :: "nat option"
  env_jstatus :: c_int
  env_port :: "string \<Rightarrow> nat option"
  env_sample_rate :: jack_nframes_t
  env_buffer_size :: jack_nframes_t

text \<open>Resources a constructor holds; what is left of them when it fails has leaked.\<close>

datatype resource = Memory string | Channel_Buffer nat | Jack_Client | Fof_Bank | Sound_File | File_Descriptor

text \<open>The calls to JACK of a function that returns nothing, in order, by client handle.\<close>

datatype jack_call = Jack_Activate nat | Jack_Deactivate nat | Jack_Client_Close nat

text \<open>
  POSIX signals: what a process does on a signal, and the idiom of both programs, which installs the
  handler for each signal of a list unless the signal is ignored.
\<close>

datatype signal = SIGINT | SIGHUP | SIGTERM | SIGTSTP

datatype disposition = SIG_DFL | SIG_IGN | Handled

fun install_handlers :: "signal list \<Rightarrow> (signal \<Rightarrow> disposition) \<Rightarrow> signal \<Rightarrow> disposition" where
  "install_handlers [] d = d"
| "install_handlers (s # ss) d = install_handlers ss (if d s \<noteq> SIG_IGN then d(s := Handled) else d)"

lemma install_handlers_eq:
  "install_handlers ss d s = (if s \<in> set ss \<and> d s \<noteq> SIG_IGN then Handled else d s)"
  by (induction ss arbitrary: d) auto

end
