(* ===== verification/Fof_Queue.thy ===== *)
theory Fof_Queue
  imports Clock
begin

text \<open>
  The circular fof queue of \<^verbatim>\<open>fof_queue.c\<close> and \<^verbatim>\<open>fof_queue.h\<close>, as one thread executes it. The
  record holds the struct's fields, the slot array and the pool of \<open>fof_t\<close> cells that the
  pointers index. The fields of the \<open>DEBUG_ENABLE\<close> build are kept (no other build reads
  them). Every atomic operation of the source is a definition here; the retry loops are
  \<^theory_text>\<open>partial_function (option)\<close>, with \<^const>\<open>None\<close> for a call that does not return or does
  something undefined. The statistics macros are the events a call emits.
\<close>

subsection \<open>State\<close>

record fof =
  fof_next :: cell_ptr
  time_us :: u64
  argv :: "c_float list"

record fof_queue =
  q_next_frame :: u64
  q_next_frame_check :: u64
  q_frame_stamp :: u64
  q_current_slot :: u64
  q_clock_source :: c_int
  q_n_slots :: c_int
  q_sample_rate :: c_int
  q_buffer_size :: c_int
  q_max_fofs :: c_int
  q_free_cnt :: c_int
  q_active_cnt :: c_int
  q_free_fofs :: cell_ptr
  q_first_fof :: cell_ptr
  q_last_fof :: cell_ptr
  q_excess :: cell_ptr
  q_slot :: "cell_ptr list"
  q_mem :: "fof list" \<comment> \<open>the \<open>fof_t\<close> array in the shared memory\<close>

text \<open>
  The counting macros that \<open>fof_queue_add\<close> expands, in order. They touch the statistics in the shared
  segment and not the queue, and are empty in a build without statistics, so an addition lists them
  in its result; \<open>jfofs_add\<close> executes them (\<open>count_events\<close>), with the write outside the array of counters
  as an undefined result.
\<close>

datatype stat_event = Incr_Slot c_int | Incr_Late | Incr_Excess

subsection \<open>Loads, stores and compare-and-swap\<close>

definition load_next :: "cell_ptr \<Rightarrow> fof_queue \<Rightarrow> cell_ptr option" where
  "load_next p q = (case p of None \<Rightarrow> None
     | Some i \<Rightarrow> if i < length (q_mem q) then Some (fof_next (q_mem q ! i)) else None)"

definition store_next :: "cell_ptr \<Rightarrow> cell_ptr \<Rightarrow> fof_queue \<Rightarrow> fof_queue option" where
  "store_next p v q = (case p of None \<Rightarrow> None
     | Some i \<Rightarrow> if i < length (q_mem q)
         then Some (q\<lparr>q_mem := (q_mem q)[i := (q_mem q ! i)\<lparr>fof_next := v\<rparr>]\<rparr>) else None)"

definition cas_free_fofs :: "cell_ptr \<Rightarrow> cell_ptr \<Rightarrow> fof_queue \<Rightarrow> bool \<times> fof_queue" where
  "cas_free_fofs expected desired q =
     (if q_free_fofs q = expected then (True, q\<lparr>q_free_fofs := desired\<rparr>) else (False, q))"

text \<open>A slot index is an \<open>int\<close>; an access outside the slot array is undefined.\<close>

definition slot_at :: "c_int \<Rightarrow> fof_queue \<Rightarrow> nat option" where
  "slot_at slot q = (if 0 \<le> sint slot \<and> nat (sint slot) < length (q_slot q)
     then Some (nat (sint slot)) else None)"

definition load_slot :: "c_int \<Rightarrow> fof_queue \<Rightarrow> cell_ptr option" where
  "load_slot slot q = do { i \<leftarrow> slot_at slot q; Some (q_slot q ! i) }"

definition cas_slot :: "c_int \<Rightarrow> cell_ptr \<Rightarrow> cell_ptr \<Rightarrow> fof_queue \<Rightarrow> (bool \<times> fof_queue) option" where
  "cas_slot slot expected desired q = do { i \<leftarrow> slot_at slot q;
     Some (if q_slot q ! i = expected then (True, q\<lparr>q_slot := (q_slot q)[i := desired]\<rparr>)
           else (False, q)) }"

definition exchange_slot :: "c_int \<Rightarrow> fof_queue \<Rightarrow> (cell_ptr \<times> fof_queue) option" where
  "exchange_slot slot q = do { i \<leftarrow> slot_at slot q;
     Some (q_slot q ! i, q\<lparr>q_slot := (q_slot q)[i := None]\<rparr>) }"

subsection \<open>Initialisation\<close>

fun clear_slots :: "nat \<Rightarrow> c_int \<Rightarrow> fof_queue \<Rightarrow> fof_queue option" where
  "clear_slots 0 i q = Some q"
| "clear_slots (Suc n) i q =
     do { (p, q1) \<leftarrow> exchange_slot i q; clear_slots n (i + 1) q1 }"

fun link_free_fofs :: "nat \<Rightarrow> cell_ptr \<Rightarrow> fof_queue \<Rightarrow> (cell_ptr \<times> fof_queue) option" where
  "link_free_fofs 0 fof q = Some (fof, q)"
| "link_free_fofs (Suc n) fof q =
     (let next_fof = map_option Suc fof in
      do { q1 \<leftarrow> store_next fof next_fof q; link_free_fofs n next_fof q1 })"

definition fof_queue_init :: "fof_queue \<Rightarrow> setup_t \<Rightarrow> fof_queue option" where
  "fof_queue_init q setup =
     (let q1 = q\<lparr>q_next_frame := 0, q_next_frame_check := 0, q_current_slot := 0,
                 q_clock_source := clock_code (jfofs_clock_source_normalize (s_clock_source setup)),
                 q_n_slots := s_n_slots setup,
                 q_max_fofs := s_n_max_fofs setup, q_free_cnt := s_n_max_fofs setup,
                 q_sample_rate := s_sample_rate setup,
                 q_buffer_size := s_max_buffer_size setup,
                 q_last_fof := None, q_excess := None\<rparr>
      in do { q2 \<leftarrow> clear_slots (nat (sint (q_n_slots q1))) 0 q1;
              (fof, q3) \<leftarrow> link_free_fofs (nat (sint (s_n_max_fofs setup) - 1)) (q_free_fofs q2) q2;
              store_next fof None q3 })"

subsection \<open>The free list\<close>

partial_function (option) fof_queue_allocate_fof ::
  "fof_queue \<Rightarrow> (cell_ptr \<times> jfofs_status \<times> fof_queue) option" where
  [code]: "fof_queue_allocate_fof q =
     (let fof = q_free_fofs q in
      if fof = None then Some (None, JFOFS_MEMORY_ERROR, q)
      else do { nxt \<leftarrow> load_next fof q;
        (case cas_free_fofs fof nxt q of (ok, q1) \<Rightarrow>
           if ok
           then do { q2 \<leftarrow> store_next fof None (q1\<lparr>q_free_cnt := q_free_cnt q1 - 1\<rparr>);
                     Some (fof, JFOFS_SUCCESS, q2) }
           else fof_queue_allocate_fof q1) })"

text \<open>
  The loop that both free functions end with: link \<open>tail\<close> to the current free list and swap
  \<open>head\<close> in; a failed compare-and-swap stores the value it saw in \<open>tail->next\<close>.
\<close>

partial_function (option) push_free_fofs ::
  "cell_ptr \<Rightarrow> cell_ptr \<Rightarrow> fof_queue \<Rightarrow> fof_queue option" where
  [code]: "push_free_fofs head tail q =
     do { q1 \<leftarrow> store_next tail (q_free_fofs q) q;
          expected \<leftarrow> load_next tail q1;
          (case cas_free_fofs expected head q1 of (ok, q2) \<Rightarrow>
             if ok then Some q2
             else do { q3 \<leftarrow> store_next tail (q_free_fofs q2) q2; push_free_fofs head tail q3 }) }"

definition fof_queue_free_fof :: "fof_queue \<Rightarrow> cell_ptr \<Rightarrow> fof_queue option" where
  "fof_queue_free_fof q fof = push_free_fofs fof fof (q\<lparr>q_free_cnt := q_free_cnt q + 1\<rparr>)"

partial_function (option) count_freed ::
  "cell_ptr \<Rightarrow> cell_ptr \<Rightarrow> fof_queue \<Rightarrow> fof_queue option" where
  [code]: "count_freed fof tail q =
     (if fof = None then Some q
      else let q1 = q\<lparr>q_free_cnt := q_free_cnt q + 1\<rparr> in
        if fof = tail then Some q1
        else do { nxt \<leftarrow> load_next fof q1; count_freed nxt tail q1 })"

definition fof_queue_free_fofs :: "fof_queue \<Rightarrow> cell_ptr \<Rightarrow> cell_ptr \<Rightarrow> fof_queue option" where
  "fof_queue_free_fofs q head tail =
     do { q1 \<leftarrow> count_freed head tail q; push_free_fofs head tail q1 }"

partial_function (option) find_tail :: "cell_ptr \<Rightarrow> fof_queue \<Rightarrow> cell_ptr option" where
  [code]: "find_tail tail q =
     do { nxt \<leftarrow> load_next tail q; (if nxt = None then Some tail else find_tail nxt q) }"

definition fof_queue_release_list :: "fof_queue \<Rightarrow> cell_ptr \<Rightarrow> fof_queue option" where
  "fof_queue_release_list q head =
     (if head = None then Some q
      else do { tail \<leftarrow> find_tail head q; fof_queue_free_fofs q head tail })"

fun flush_slots :: "nat \<Rightarrow> c_int \<Rightarrow> fof_queue \<Rightarrow> fof_queue option" where
  "flush_slots 0 i q = Some q"
| "flush_slots (Suc n) i q =
     do { (head, q1) \<leftarrow> exchange_slot i q;
          q2 \<leftarrow> fof_queue_release_list q1 head;
          flush_slots n (i + 1) q2 }"

definition fof_queue_flush :: "fof_queue \<Rightarrow> fof_queue option" where
  "fof_queue_flush q =
     do { q1 \<leftarrow> flush_slots (nat (sint (q_n_slots q))) 0 q;
          q2 \<leftarrow> fof_queue_release_list (q1\<lparr>q_excess := None\<rparr>) (q_excess q1);
          Some (q2\<lparr>q_first_fof := None, q_last_fof := None,
                   q_current_slot := 0, q_next_frame_check := 0\<rparr>) }"

subsection \<open>Adding a fof\<close>

definition set_fof :: "cell_ptr \<Rightarrow> u64 \<Rightarrow> c_float list \<Rightarrow> fof_queue \<Rightarrow> fof_queue option" where
  "set_fof p t args q = (case p of None \<Rightarrow> None
     | Some i \<Rightarrow> if i < length (q_mem q)
         then Some (q\<lparr>q_mem := (q_mem q)[i := (q_mem q ! i)\<lparr>time_us := t, argv := args\<rparr>]\<rparr>)
         else None)"

text \<open>
  The fast lane: retry until the slot head is swapped, unless \<open>next_frame\<close> has moved; the
  first result is the new \<open>next_frame\<close> when the caller must recalculate.
\<close>

partial_function (option) add_fast_lane ::
  "cell_ptr \<Rightarrow> u64 \<Rightarrow> c_int \<Rightarrow> fof_queue \<Rightarrow> (u64 option \<times> fof_queue) option" where
  [code]: "add_fast_lane fof next_frame slot q =
     do { head \<leftarrow> load_slot slot q;
          q1 \<leftarrow> store_next fof head q;
          let next_frame_check = q_next_frame q1 in
          if next_frame_check \<noteq> next_frame then Some (Some next_frame_check, q1)
          else do { expected \<leftarrow> load_next fof q1;
                    (ok, q2) \<leftarrow> cas_slot slot expected fof q1;
                    if ok then Some (None, q2)
                    else do { seen \<leftarrow> load_slot slot q2;
                              q3 \<leftarrow> store_next fof seen q2;
                              add_fast_lane fof next_frame slot q3 } } }"

text \<open>The lane of the slot that is consumed next: one attempt, a failure is a late fof.\<close>

definition add_slow_lane ::
  "cell_ptr \<Rightarrow> u64 \<Rightarrow> c_int \<Rightarrow> c_int \<Rightarrow> fof_queue
     \<Rightarrow> (jfofs_status \<times> stat_event list \<times> fof_queue) option" where
  "add_slow_lane fof next_frame slot_idx slot q =
     do { head \<leftarrow> load_slot slot q;
          q1 \<leftarrow> store_next fof head q;
          if q_next_frame q1 \<noteq> next_frame
          then do { q2 \<leftarrow> fof_queue_free_fof q1 fof;
                    Some (JFOFS_FOF_LATE_WARNING, [Incr_Late], q2) }
          else do { (ok, q2) \<leftarrow> cas_slot slot head fof q1;
                    if ok then Some (JFOFS_SUCCESS, [Incr_Slot slot_idx], q2)
                    else do { q3 \<leftarrow> fof_queue_free_fof q2 fof;
                              Some (JFOFS_FOF_LATE_WARNING, [Incr_Late], q3) } } }"

definition cache_current_slot :: "u64 \<Rightarrow> fof_queue \<Rightarrow> fof_queue" where
  "cache_current_slot next_frame q =
     (if next_frame \<noteq> q_next_frame_check q
      then q\<lparr>q_current_slot := (next_frame div u64_of_int (q_buffer_size q))
                                 AND u64_of_int (q_n_slots q - 1),
             q_next_frame_check := next_frame\<rparr>
      else q)"

text \<open>From the label \<open>recalculate\<close> on.\<close>

partial_function (option) add_recalculate ::
  "cell_ptr \<Rightarrow> u64 \<Rightarrow> u64 \<Rightarrow> fof_queue
     \<Rightarrow> (jfofs_status \<times> stat_event list \<times> fof_queue) option" where
  [code]: "add_recalculate fof start_frame next_frame q =
     (if start_frame < next_frame
      then do { q1 \<leftarrow> fof_queue_free_fof q fof;
                Some (JFOFS_FOF_LATE_WARNING, [Incr_Late], q1) }
      else if u64_of_int (q_buffer_size q) = 0 then None
      else let frame_delta = start_frame - next_frame;
               slot_idx = int_of_u64 (frame_delta div u64_of_int (q_buffer_size q)) in
        if sint (q_n_slots q) \<le> sint slot_idx
        then do { q1 \<leftarrow> store_next fof (q_excess q) q;
                  Some (JFOFS_FOF_EXCESS_INFO, [Incr_Excess], q1\<lparr>q_excess := fof\<rparr>) }
        else let q1 = cache_current_slot next_frame q;
                 slot = int_of_u64 ((u64_of_int slot_idx + q_current_slot q1)
                                    AND u64_of_int (q_n_slots q1 - 1)) in
          if next_frame + u64_of_int (q_buffer_size q1) < start_frame
          then do { (moved, q2) \<leftarrow> add_fast_lane fof next_frame slot q1;
                    case moved of
                      Some next_frame' \<Rightarrow> add_recalculate fof start_frame next_frame' q2
                    | None \<Rightarrow> Some (JFOFS_SUCCESS, [Incr_Slot slot_idx], q2) }
          else add_slow_lane fof next_frame slot_idx slot q1)"

definition fof_queue_add ::
  "fof_queue \<Rightarrow> u64 \<Rightarrow> c_float list \<Rightarrow> (jfofs_status \<times> stat_event list \<times> fof_queue) option" where
  "fof_queue_add q t args =
     do { (fof, status, q1) \<leftarrow> fof_queue_allocate_fof q;
          if fof = None then Some (JFOFS_FOF_LIMIT_ERROR, [], q1)
          else let start_frame = ucast (jfofs_time_to_nframes t (q_sample_rate q1)) in
            do { q2 \<leftarrow> set_fof fof t args q1;
                 add_recalculate fof start_frame (q_next_frame q2) q2 } }"

definition fof_queue_take_slot :: "fof_queue \<Rightarrow> c_int \<Rightarrow> (cell_ptr \<times> fof_queue) option" where
  "fof_queue_take_slot q slot = exchange_slot slot q"

end
