(* ===== verification/Dsp_Client.thy ===== *)
theory Dsp_Client
  imports External Fof_Queue
begin

text \<open>
  The dsp client of \<^verbatim>\<open>dsp_client.c\<close> and \<^verbatim>\<open>dsp_client.h\<close>: a JACK client around one fof bank of the
  fofs library. Its constructor with every early return, the hand-over of a fof to the bank and
  the process callback.
\<close>

abbreviation MAX_CHANNELS :: nat where "MAX_CHANNELS \<equiv> 8"
abbreviation MAX_DSP_CLIENTS :: nat where "MAX_DSP_CLIENTS \<equiv> 8"
abbreviation MAX_FOFS_BUF_SIZE :: c_int where "MAX_FOFS_BUF_SIZE \<equiv> 1024"

record 'b dsp_client =
  d_n_fofs :: c_int
  d_fof_bank :: 'b
  d_n_chans :: c_int
  d_j_client :: nat
  d_in_port :: nat
  d_out_port :: "nat list"

definition dsp_client_add :: "'b fofs_lib \<Rightarrow> 'b dsp_client \<Rightarrow> fof \<Rightarrow> 'b dsp_client \<times> c_int" where
  "dsp_client_add lib dsp fof =
     (case fof_add_v lib (d_fof_bank dsp) (time_us fof) (argv fof) of
        (bank, r) \<Rightarrow> (dsp\<lparr>d_fof_bank := bank\<rparr>, r))"

definition dsp_get_next_frame :: "'b fofs_lib \<Rightarrow> 'b dsp_client \<Rightarrow> u64" where
  "dsp_get_next_frame lib dsp = fof_timeI lib (d_fof_bank dsp)"

definition dsp_set_next_frame :: "'b fofs_lib \<Rightarrow> 'b dsp_client \<Rightarrow> u64 \<Rightarrow> 'b dsp_client" where
  "dsp_set_next_frame lib dsp n = dsp\<lparr>d_fof_bank := fof_set_timeI lib (d_fof_bank dsp) n\<rparr>"

subsection \<open>Construction\<close>

text \<open>
  Registering the output ports: \<^const>\<open>None\<close> when \<open>out_port[i]\<close> is out of range, \<open>Some None\<close> when
  JACK refuses a port.
\<close>

fun register_ports ::
  "(string \<Rightarrow> nat option) \<Rightarrow> string \<Rightarrow> nat \<Rightarrow> nat \<Rightarrow> nat list option option" where
  "register_ports port name i 0 = Some (Some [])"
| "register_ports port name i (Suc k) =
     (case port (name @ decimal (i + 1)) of None \<Rightarrow> (if i < MAX_CHANNELS then Some None else None)
      | Some p \<Rightarrow> if i < MAX_CHANNELS
          then do { r \<leftarrow> register_ports port name (i + 1) k; Some (map_option ((#) p) r) }
          else None)"

text \<open>
  The client, the value of \<open>*status\<close> (that of the allocation on every later path) and the
  resources still held.
\<close>

definition dsp_client_new ::
  "'b fofs_lib \<Rightarrow> jack_setup \<Rightarrow> setup_t \<Rightarrow> ('b dsp_client option \<times> c_int \<times> resource list) option" where
  "dsp_client_new lib env setup =
     (let status = env_memalign env; n_chans = fof_ModeToChannels lib (s_mode setup) in
      if status \<noteq> 0 then Some (None, status, [])
      else case env_client_open env of
        None \<Rightarrow> Some (None, status, [])
      | Some j \<Rightarrow>
          (case fof_newBank lib (env_sample_rate env) (s_mode setup) (s_n_preallocate_fofs setup)
                  MAX_FOFS_BUF_SIZE of
             None \<Rightarrow> Some (None, status, [Jack_Client])
           | Some bank \<Rightarrow>
               (case env_port env ''in'' of
                  None \<Rightarrow> Some (None, status, [Memory ''dsp'', Jack_Client, Fof_Bank])
                | Some in_port \<Rightarrow>
                    do { ports \<leftarrow> register_ports (env_port env) ''out_'' 0 (nat (sint n_chans));
                         (case ports of
                            None \<Rightarrow> Some (None, status, [Memory ''dsp'', Jack_Client, Fof_Bank])
                          | Some ps \<Rightarrow>
                              Some (Some \<lparr>d_n_fofs = 0, d_fof_bank = bank, d_n_chans = n_chans,
                                          d_j_client = j, d_in_port = in_port, d_out_port = ps\<rparr>,
                                    status, [Memory ''dsp'', Jack_Client, Fof_Bank])) })))"

definition dsp_client_activate :: "(nat \<Rightarrow> c_int) \<Rightarrow> 'b dsp_client \<Rightarrow> c_int" where
  "dsp_client_activate jack_activate dsp = jack_activate (d_j_client dsp)"

definition dsp_client_deactivate :: "(nat \<Rightarrow> c_int) \<Rightarrow> 'b dsp_client \<Rightarrow> c_int" where
  "dsp_client_deactivate jack_deactivate dsp = jack_deactivate (d_j_client dsp)"

subsection \<open>The process callback\<close>

text \<open>The buffers of the channels, in order, until JACK has none for one.\<close>

fun get_buffers :: "(nat \<Rightarrow> c_float list option) \<Rightarrow> nat list \<Rightarrow> c_float list list option" where
  "get_buffers buffer [] = Some []"
| "get_buffers buffer (p # ps) =
     do { b \<leftarrow> buffer p; bs \<leftarrow> get_buffers buffer ps; Some (b # bs) }"

definition dsp_client_process ::
  "'b fofs_lib \<Rightarrow> (nat \<Rightarrow> c_float list option) \<Rightarrow> jack_nframes_t \<Rightarrow> 'b dsp_client
     \<Rightarrow> c_int \<times> 'b dsp_client \<times> c_float list list" where
  "dsp_client_process lib buffer nframes dsp =
     (case get_buffers buffer (take (nat (sint (d_n_chans dsp))) (d_out_port dsp)) of
        None \<Rightarrow> (1, dsp, [])
      | Some buf \<Rightarrow> (case fof_next_block lib (d_fof_bank dsp) nframes buf of
          (bank, out) \<Rightarrow> (0, dsp\<lparr>d_fof_bank := bank\<rparr>, out)))"

definition dsp_client_buffer_size_callback :: "jack_nframes_t \<Rightarrow> c_int" where
  "dsp_client_buffer_size_callback nframes = 0"

subsection \<open>What the constructor leaves behind\<close>

lemma register_ports_length:
  "register_ports port name i k = Some (Some ps) \<Longrightarrow> length ps = k"
proof (induction port name i k arbitrary: ps rule: register_ports.induct)
  case (1 port name i)
  then show ?case by simp
next
  case (2 port name i k)
  then show ?case by (auto split: option.splits if_splits bind_splits)
qed

lemma register_ports_ok:
  "i + k \<le> MAX_CHANNELS \<Longrightarrow> (\<And>name. port name \<noteq> None) \<Longrightarrow>
   \<exists>ps. register_ports port base i k = Some (Some ps) \<and> length ps = k"
proof (induction k arbitrary: i)
  case 0
  then show ?case by simp
next
  case (Suc k)
  obtain p where "port (base @ decimal (i + 1)) = Some p" using Suc.prems(2) by blast
  with Suc.IH [of "i + 1"] Suc.prems show ?case by auto
qed

lemma register_ports_defined:
  "i + k \<le> MAX_CHANNELS \<Longrightarrow> \<exists>r. register_ports port base i k = Some r"
proof (induction k arbitrary: i)
  case 0
  then show ?case by simp
next
  case (Suc k)
  then have "Suc i + k \<le> MAX_CHANNELS" by simp
  then obtain r where "register_ports port base (Suc i) k = Some r" using Suc.IH [of "Suc i"] by blast
  then show ?case using Suc.prems by (auto split: option.split)
qed

lemma dsp_client_new_ok:
  assumes "env_memalign env = 0" and "env_client_open env = Some j"
    and "fof_newBank lib (env_sample_rate env) (s_mode setup) (s_n_preallocate_fofs setup) MAX_FOFS_BUF_SIZE = Some bank"
    and "\<And>name. env_port env name \<noteq> None"
    and "nat (sint (fof_ModeToChannels lib (s_mode setup))) \<le> MAX_CHANNELS"
  obtains dsp where "dsp_client_new lib env setup = Some (Some dsp, 0, [Memory ''dsp'', Jack_Client, Fof_Bank])"
    "d_fof_bank dsp = bank" "d_j_client dsp = j" "d_n_chans dsp = fof_ModeToChannels lib (s_mode setup)"
    "length (d_out_port dsp) = nat (sint (fof_ModeToChannels lib (s_mode setup)))"
proof -
  obtain p where p: "env_port env ''in'' = Some p" using assms(4) by blast
  obtain ps where "register_ports (env_port env) ''out_'' 0 (nat (sint (fof_ModeToChannels lib (s_mode setup)))) = Some (Some ps)"
    "length ps = nat (sint (fof_ModeToChannels lib (s_mode setup)))"
    using register_ports_ok [of 0 _ "env_port env" "''out_''"] assms(4,5) by auto
  with p assms(1-3) that show thesis by (simp add: dsp_client_new_def Let_def)
qed

end
