(* ===== verification/Ctrl_Client.thy ===== *)
theory Ctrl_Client
  imports Dsp_Client
begin

text \<open>
  The control client of \<^verbatim>\<open>ctrl_client.c\<close>: once per audio cycle it advances the queue's clock,
  takes the due slot, deals its fofs to the dsp clients and gives the cells back. The dsp
  clients live in a list; the control client's pointers to them are indices into it.
\<close>

record ctrl_client =
  c_active :: c_int
  c_clock_source :: c_int
  c_transport_frame :: u64
  c_transport_state :: jack_transport_state
  c_n_clients :: c_int
  c_mode :: c_int
  c_j_client :: nat
  c_port :: "nat option"
  c_last_dsp :: c_int
  c_n :: c_int
  c_m :: c_int
  c_syncronized :: c_int
  c_xruns :: c_int
  c_xrun_limit :: c_int
  c_dsp :: "cell_ptr list"

abbreviation n_clients :: "ctrl_client \<Rightarrow> nat" where
  "n_clients ctrl \<equiv> nat (sint (c_n_clients ctrl))"

subsection \<open>Construction and activation\<close>

text \<open>
  The new client, the value of \<open>*status\<close>, and the resources still held. The port is not
  checked by the code.
\<close>

definition ctrl_client_new ::
  "jack_setup \<Rightarrow> setup_t \<Rightarrow> ctrl_client option \<times> c_int \<times> resource list" where
  "ctrl_client_new env setup =
     (if env_memalign env \<noteq> 0 then (None, env_memalign env, [])
      else case env_client_open env of
        None \<Rightarrow> (None, status_code JFOFS_JACK_ERROR_MASK OR env_jstatus env, [Memory ''ctrl''])
      | Some j \<Rightarrow>
          (Some \<lparr>c_active = 0,
             c_clock_source = clock_code (jfofs_clock_source_normalize (s_clock_source setup)),
             c_transport_frame = 0, c_transport_state = JackTransportStopped,
             c_n_clients = s_n_clients setup, c_mode = s_mode setup,
             c_j_client = j, c_port = env_port env ''out'', c_last_dsp = 0, c_n = 0, c_m = 0,
             c_syncronized = 0, c_xruns = 0, c_xrun_limit = s_xrun_limit setup,
             c_dsp = replicate MAX_DSP_CLIENTS None\<rparr>,
           env_memalign env, [Memory ''ctrl'', Jack_Client]))"

definition ctrl_client_activate ::
  "(nat \<Rightarrow> c_int) \<Rightarrow> ctrl_client \<Rightarrow> c_int \<times> ctrl_client" where
  "ctrl_client_activate jack_activate ctrl =
     (jack_activate (c_j_client ctrl), ctrl\<lparr>c_active := 1\<rparr>)"

definition ctrl_client_deactivate ::
  "(nat \<Rightarrow> c_int) \<Rightarrow> ctrl_client \<Rightarrow> c_int \<times> ctrl_client" where
  "ctrl_client_deactivate jack_deactivate ctrl =
     (jack_deactivate (c_j_client ctrl), ctrl\<lparr>c_active := 0\<rparr>)"

subsection \<open>The process callback\<close>

definition ctrl_current_clock_source :: "fof_queue \<Rightarrow> c_int" where
  "ctrl_current_clock_source q = clock_code (jfofs_clock_source_normalize (q_clock_source q))"

definition get_framestamp :: "jack_clock \<Rightarrow> c_int \<Rightarrow> u64 \<times> jack_transport_state" where
  "get_framestamp clk clock_source =
     (if jfofs_clock_uses_transport clock_source
      then case jack_transport_query clk of (state, frame) \<Rightarrow> (ucast frame, state)
      else (ucast (jack_frame_time clk), JackTransportRolling))"

definition ctrl_transport_discontinuity ::
  "ctrl_client \<Rightarrow> jack_nframes_t \<Rightarrow> jack_transport_state \<Rightarrow> u64 \<Rightarrow> bool" where
  "ctrl_transport_discontinuity ctrl nframes transport_state frame =
     (if \<not> jfofs_clock_uses_transport (c_clock_source ctrl) \<or> c_syncronized ctrl = 0 then False
      else let expected_frame =
             (if transport_state = JackTransportRolling \<and>
                 c_transport_state ctrl = JackTransportRolling
              then c_transport_frame ctrl + ucast nframes else c_transport_frame ctrl)
           in frame \<noteq> expected_frame)"

text \<open>A pointer of the \<open>dsp\<close> array, and the client it points to.\<close>

definition dsp_at :: "ctrl_client \<Rightarrow> c_int \<Rightarrow> 'b dsp_client list \<Rightarrow> nat option" where
  "dsp_at ctrl i dsps =
     (if 0 \<le> sint i \<and> nat (sint i) < length (c_dsp ctrl)
      then case c_dsp ctrl ! nat (sint i) of None \<Rightarrow> None
         | Some d \<Rightarrow> if d < length dsps then Some d else None
      else None)"

fun sync_dsps ::
  "'b fofs_lib \<Rightarrow> ctrl_client \<Rightarrow> u64 \<Rightarrow> nat \<Rightarrow> c_int \<Rightarrow> 'b dsp_client list \<Rightarrow> 'b dsp_client list option"
where
  "sync_dsps lib ctrl n 0 i dsps = Some dsps"
| "sync_dsps lib ctrl n (Suc k) i dsps =
     do { d \<leftarrow> dsp_at ctrl i dsps;
          sync_dsps lib ctrl n k (i + 1) (dsps[d := dsp_set_next_frame lib (dsps ! d) n]) }"

text \<open>The loop over the taken slot: round robin over the dsp clients.\<close>

partial_function (option) dispatch ::
  "'b fofs_lib \<Rightarrow> ctrl_client \<Rightarrow> cell_ptr \<Rightarrow> c_int \<Rightarrow> fof_queue \<Rightarrow> 'b dsp_client list
     \<Rightarrow> (c_int \<times> fof_queue \<times> 'b dsp_client list) option" where
  [code]: "dispatch lib ctrl fof i q dsps =
     (case fof of None \<Rightarrow> Some (i, q, dsps)
      | Some a \<Rightarrow>
        do { d \<leftarrow> dsp_at ctrl i dsps;
             i' \<leftarrow> c_rem (i + 1) (c_n_clients ctrl);
             nxt \<leftarrow> load_next fof q;
             dispatch lib ctrl nxt i'
               (q\<lparr>q_last_fof := fof, q_active_cnt := q_active_cnt q + 1\<rparr>)
               (dsps[d := fst (dsp_client_add lib (dsps ! d) (q_mem q ! a))]) })"

text \<open>The two places where the callback drops what is queued.\<close>

definition ctrl_resync :: "bool \<Rightarrow> ctrl_client \<Rightarrow> fof_queue \<Rightarrow> (ctrl_client \<times> fof_queue) option" where
  "ctrl_resync needed ctrl q =
     (if needed
      then do { q' \<leftarrow> fof_queue_flush q; Some (ctrl\<lparr>c_syncronized := 0\<rparr>, q') }
      else Some (ctrl, q))"

text \<open>From the exchange of the slot on: deal the fofs and free their cells.\<close>

definition ctrl_play_slot ::
  "'b fofs_lib \<Rightarrow> u64 \<Rightarrow> ctrl_client \<Rightarrow> fof_queue \<Rightarrow> 'b dsp_client list
     \<Rightarrow> (ctrl_client \<times> fof_queue \<times> 'b dsp_client list) option" where
  "ctrl_play_slot lib n ctrl q dsps =
     (if u64_of_int (q_buffer_size q) = 0 then None
      else let slot_idx = int_of_u64 ((n div u64_of_int (q_buffer_size q))
                                      AND u64_of_int (q_n_slots q - 1)) in
      do { (fof, q1) \<leftarrow> exchange_slot slot_idx q;
           (i, q2, dsps1) \<leftarrow> dispatch lib ctrl fof (c_last_dsp ctrl)
                              (q1\<lparr>q_first_fof := fof, q_active_cnt := 0\<rparr>) dsps;
           let ctrl1 = ctrl\<lparr>c_last_dsp := i\<rparr> in
           if q_first_fof q2 \<noteq> None
           then do { q3 \<leftarrow> fof_queue_free_fofs q2 (q_first_fof q2) (q_last_fof q2);
                     Some (ctrl1, q3\<lparr>q_first_fof := None, q_last_fof := None\<rparr>, dsps1) }
           else Some (ctrl1, q2, dsps1) })"

text \<open>From the advance of \<open>next_frame\<close> on: the frame of this cycle, the time stamps, the clients' clocks.\<close>

definition ctrl_advance ::
  "'b fofs_lib \<Rightarrow> jack_nframes_t \<Rightarrow> u64 \<Rightarrow> jack_transport_state \<Rightarrow> ctrl_client \<Rightarrow> fof_queue
     \<Rightarrow> 'b dsp_client list \<Rightarrow> (ctrl_client \<times> fof_queue \<times> 'b dsp_client list) option" where
  "ctrl_advance lib nframes m transport_state ctrl q dsps =
     (let (n, q1) = (if jfofs_clock_uses_transport (c_clock_source ctrl)
                     then (m, q\<lparr>q_next_frame := m\<rparr>)
                     else (q_next_frame q, q\<lparr>q_next_frame := q_next_frame q + ucast nframes\<rparr>));
          q2 = q1\<lparr>q_frame_stamp := m\<rparr>;
          ctrl1 = ctrl\<lparr>c_transport_frame := m, c_transport_state := transport_state\<rparr> in
      do { (ctrl2, dsps1) \<leftarrow>
             (if c_syncronized ctrl1 = 0 \<or> jfofs_clock_uses_transport (c_clock_source ctrl1)
              then do { dsps' \<leftarrow> sync_dsps lib ctrl1 n (n_clients ctrl1) 0 dsps;
                        Some (ctrl1\<lparr>c_syncronized := 1\<rparr>, dsps') }
              else Some (ctrl1, dsps));
           ctrl_play_slot lib n ctrl2 q2 dsps1 })"

definition ctrl_client_process_cb ::
  "'b fofs_lib \<Rightarrow> jack_clock \<Rightarrow> jack_nframes_t \<Rightarrow> ctrl_client \<Rightarrow> fof_queue \<Rightarrow> 'b dsp_client list
     \<Rightarrow> (ctrl_client \<times> fof_queue \<times> 'b dsp_client list) option" where
  "ctrl_client_process_cb lib clk nframes ctrl q dsps =
     (if c_active ctrl = 0 then Some (ctrl, q, dsps)
      else let clock_source = ctrl_current_clock_source q;
               mode_changed = (clock_source \<noteq> c_clock_source ctrl);
               (m, transport_state) = get_framestamp clk clock_source in
      do { (ctrl1, q1) \<leftarrow> ctrl_resync mode_changed
             (if mode_changed then ctrl\<lparr>c_clock_source := clock_source\<rparr> else ctrl) q;
           (ctrl2, q2) \<leftarrow> ctrl_resync
             (ctrl_transport_discontinuity ctrl1 nframes transport_state m) ctrl1 q1;
           ctrl_advance lib nframes m transport_state ctrl2 q2 dsps })"

text \<open>The xrun callback: \<^const>\<open>None\<close> is the \<open>abort\<close>.\<close>

definition ctrl_client_xrun_cb :: "ctrl_client \<Rightarrow> ctrl_client option" where
  "ctrl_client_xrun_cb ctrl =
     (let ctrl1 = ctrl\<lparr>c_xruns := c_xruns ctrl + 1\<rparr> in
      if c_xrun_limit ctrl1 \<noteq> 0 \<and> sint (c_xrun_limit ctrl1) \<le> sint (c_xruns ctrl1)
      then None else Some ctrl1)"

text \<open>A change of the block size is ignored.\<close>

definition ctrl_client_buffer_size_cb :: "jack_nframes_t \<Rightarrow> ctrl_client \<Rightarrow> c_int \<times> ctrl_client" where
  "ctrl_client_buffer_size_cb nframes ctrl = (0, ctrl)"

end
