(* ===== verification/Queue_Memory.thy ===== *)
theory Queue_Memory
  imports Fof_Queue "HOL-Library.Multiset"
begin

text \<open>
  The memory invariant of the fof queue: every cell of the pool is in exactly one of the free
  list, a slot list, the excess list or the hands of a running call (\<open>owns\<close>). Closed forms of
  the pointer loops on such memory, and one lemma per transfer of a cell between the lists.
\<close>

subsection \<open>Reading the lists out of the memory\<close>

definition nexts :: "fof_queue \<Rightarrow> nat \<Rightarrow> cell_ptr" where
  "nexts q i = fof_next (q_mem q ! i)"

definition event_at :: "fof_queue \<Rightarrow> nat \<Rightarrow> u64 \<times> c_float list" where
  "event_at q i = (time_us (q_mem q ! i), argv (q_mem q ! i))"

definition owns ::
  "fof_queue \<Rightarrow> nat list \<Rightarrow> nat list list \<Rightarrow> nat list \<Rightarrow> nat list \<Rightarrow> bool" where
  "owns q fs ss ex out \<longleftrightarrow>
     chain (nexts q) (q_free_fofs q) fs \<and>
     list_all2 (chain (nexts q)) (q_slot q) ss \<and>
     chain (nexts q) (q_excess q) ex \<and>
     distinct (fs @ concat ss @ ex @ out) \<and>
     set (fs @ concat ss @ ex @ out) = {..<length (q_mem q)}"

definition set_next :: "nat \<Rightarrow> cell_ptr \<Rightarrow> fof_queue \<Rightarrow> fof_queue" where
  "set_next i v q = q\<lparr>q_mem := (q_mem q)[i := (q_mem q ! i)\<lparr>fof_next := v\<rparr>]\<rparr>"

definition set_event :: "nat \<Rightarrow> u64 \<Rightarrow> c_float list \<Rightarrow> fof_queue \<Rightarrow> fof_queue" where
  "set_event i t args q =
     q\<lparr>q_mem := (q_mem q)[i := (q_mem q ! i)\<lparr>time_us := t, argv := args\<rparr>]\<rparr>"

lemma set_next_fields [simp]:
  "q_next_frame (set_next i v q) = q_next_frame q"
  "q_next_frame_check (set_next i v q) = q_next_frame_check q"
  "q_frame_stamp (set_next i v q) = q_frame_stamp q"
  "q_current_slot (set_next i v q) = q_current_slot q"
  "q_clock_source (set_next i v q) = q_clock_source q"
  "q_n_slots (set_next i v q) = q_n_slots q"
  "q_sample_rate (set_next i v q) = q_sample_rate q"
  "q_buffer_size (set_next i v q) = q_buffer_size q"
  "q_max_fofs (set_next i v q) = q_max_fofs q"
  "q_free_cnt (set_next i v q) = q_free_cnt q"
  "q_free_fofs (set_next i v q) = q_free_fofs q"
  "q_first_fof (set_next i v q) = q_first_fof q"
  "q_last_fof (set_next i v q) = q_last_fof q"
  "q_excess (set_next i v q) = q_excess q"
  "q_slot (set_next i v q) = q_slot q"
  "length (q_mem (set_next i v q)) = length (q_mem q)"
  by (simp_all add: set_next_def)

lemma set_event_fields [simp]:
  "q_next_frame (set_event i t a q) = q_next_frame q"
  "q_next_frame_check (set_event i t a q) = q_next_frame_check q"
  "q_frame_stamp (set_event i t a q) = q_frame_stamp q"
  "q_current_slot (set_event i t a q) = q_current_slot q"
  "q_clock_source (set_event i t a q) = q_clock_source q"
  "q_n_slots (set_event i t a q) = q_n_slots q"
  "q_sample_rate (set_event i t a q) = q_sample_rate q"
  "q_buffer_size (set_event i t a q) = q_buffer_size q"
  "q_max_fofs (set_event i t a q) = q_max_fofs q"
  "q_free_cnt (set_event i t a q) = q_free_cnt q"
  "q_free_fofs (set_event i t a q) = q_free_fofs q"
  "q_first_fof (set_event i t a q) = q_first_fof q"
  "q_last_fof (set_event i t a q) = q_last_fof q"
  "q_excess (set_event i t a q) = q_excess q"
  "q_slot (set_event i t a q) = q_slot q"
  "length (q_mem (set_event i t a q)) = length (q_mem q)"
  by (simp_all add: set_event_def)

lemma nexts_set_next [simp]: "i < length (q_mem q) \<Longrightarrow> nexts (set_next i v q) = (nexts q)(i := v)"
  by (rule ext) (simp add: nexts_def set_next_def nth_list_update)

lemma nexts_set_event [simp]: "nexts (set_event i t a q) = nexts q"
  by (cases "i < length (q_mem q)")
     (auto simp: fun_eq_iff nexts_def set_event_def nth_list_update list_update_beyond)

lemma event_at_set_next [simp]: "event_at (set_next i v q) = event_at q"
  by (cases "i < length (q_mem q)")
     (auto simp: fun_eq_iff event_at_def set_next_def nth_list_update list_update_beyond)

lemma event_at_set_event:
  "i < length (q_mem q) \<Longrightarrow> event_at (set_event i t a q) j = (if j = i then (t, a) else event_at q j)"
  by (auto simp: event_at_def set_event_def nth_list_update)

lemma nexts_fields [simp]:
  "nexts (q\<lparr>q_next_frame := x0\<rparr>) = nexts q"
  "nexts (q\<lparr>q_next_frame_check := x1\<rparr>) = nexts q"
  "nexts (q\<lparr>q_frame_stamp := x2\<rparr>) = nexts q"
  "nexts (q\<lparr>q_current_slot := x3\<rparr>) = nexts q"
  "nexts (q\<lparr>q_clock_source := x4\<rparr>) = nexts q"
  "nexts (q\<lparr>q_n_slots := x5\<rparr>) = nexts q"
  "nexts (q\<lparr>q_sample_rate := x6\<rparr>) = nexts q"
  "nexts (q\<lparr>q_buffer_size := x7\<rparr>) = nexts q"
  "nexts (q\<lparr>q_max_fofs := x8\<rparr>) = nexts q"
  "nexts (q\<lparr>q_free_cnt := x9\<rparr>) = nexts q"
  "nexts (q\<lparr>q_active_cnt := x10\<rparr>) = nexts q"
  "nexts (q\<lparr>q_free_fofs := x11\<rparr>) = nexts q"
  "nexts (q\<lparr>q_first_fof := x12\<rparr>) = nexts q"
  "nexts (q\<lparr>q_last_fof := x13\<rparr>) = nexts q"
  "nexts (q\<lparr>q_excess := x14\<rparr>) = nexts q"
  "nexts (q\<lparr>q_slot := x15\<rparr>) = nexts q"
  by (simp_all add: fun_eq_iff nexts_def)

lemma event_at_fields [simp]:
  "event_at (q\<lparr>q_next_frame := x0\<rparr>) = event_at q"
  "event_at (q\<lparr>q_next_frame_check := x1\<rparr>) = event_at q"
  "event_at (q\<lparr>q_frame_stamp := x2\<rparr>) = event_at q"
  "event_at (q\<lparr>q_current_slot := x3\<rparr>) = event_at q"
  "event_at (q\<lparr>q_clock_source := x4\<rparr>) = event_at q"
  "event_at (q\<lparr>q_n_slots := x5\<rparr>) = event_at q"
  "event_at (q\<lparr>q_sample_rate := x6\<rparr>) = event_at q"
  "event_at (q\<lparr>q_buffer_size := x7\<rparr>) = event_at q"
  "event_at (q\<lparr>q_max_fofs := x8\<rparr>) = event_at q"
  "event_at (q\<lparr>q_free_cnt := x9\<rparr>) = event_at q"
  "event_at (q\<lparr>q_active_cnt := x10\<rparr>) = event_at q"
  "event_at (q\<lparr>q_free_fofs := x11\<rparr>) = event_at q"
  "event_at (q\<lparr>q_first_fof := x12\<rparr>) = event_at q"
  "event_at (q\<lparr>q_last_fof := x13\<rparr>) = event_at q"
  "event_at (q\<lparr>q_excess := x14\<rparr>) = event_at q"
  "event_at (q\<lparr>q_slot := x15\<rparr>) = event_at q"
  by (simp_all add: fun_eq_iff event_at_def)

subsection \<open>Closed forms of the pointer operations\<close>

lemma load_next_Some [simp]: "i < length (q_mem q) \<Longrightarrow> load_next (Some i) q = Some (nexts q i)"
  by (simp add: load_next_def nexts_def)

lemma store_next_Some [simp]:
  "i < length (q_mem q) \<Longrightarrow> store_next (Some i) v q = Some (set_next i v q)"
  by (simp add: store_next_def set_next_def)

lemma set_fof_Some [simp]:
  "i < length (q_mem q) \<Longrightarrow> set_fof (Some i) t a q = Some (set_event i t a q)"
  by (simp add: set_fof_def set_event_def)

lemma cas_free_fofs_same [simp]:
  "cas_free_fofs (q_free_fofs q) v q = (True, q\<lparr>q_free_fofs := v\<rparr>)"
  by (simp add: cas_free_fofs_def)

lemma allocate_empty:
  "q_free_fofs q = None \<Longrightarrow> fof_queue_allocate_fof q = Some (None, JFOFS_MEMORY_ERROR, q)"
  by (subst fof_queue_allocate_fof.simps) simp

lemma allocate_cons:
  assumes "q_free_fofs q = Some i" and "i < length (q_mem q)"
  shows "fof_queue_allocate_fof q = Some (Some i, JFOFS_SUCCESS,
           set_next i None (q\<lparr>q_free_fofs := nexts q i, q_free_cnt := q_free_cnt q - 1\<rparr>))"
  using assms by (subst fof_queue_allocate_fof.simps) (simp add: cas_free_fofs_def)

lemma push_free_eq:
  assumes "t < length (q_mem q)"
  shows "push_free_fofs h (Some t) q
           = Some ((set_next t (q_free_fofs q) q)\<lparr>q_free_fofs := h\<rparr>)"
  using assms by (subst push_free_fofs.simps) (simp add: cas_free_fofs_def)

lemma free_fof_eq:
  assumes "i < length (q_mem q)"
  shows "fof_queue_free_fof q (Some i)
           = Some ((set_next i (q_free_fofs q) (q\<lparr>q_free_cnt := q_free_cnt q + 1\<rparr>))
                     \<lparr>q_free_fofs := Some i\<rparr>)"
  using assms by (simp add: fof_queue_free_fof_def push_free_eq)

lemma count_freed_eq:
  assumes "chain (nexts q) p (xs @ t # ys)" and "set (xs @ [t]) \<subseteq> {..<length (q_mem q)}"
  shows "count_freed p (Some t) q
           = Some (q\<lparr>q_free_cnt := q_free_cnt q + of_nat (length (xs @ [t]))\<rparr>)"
  using assms
proof (induction xs arbitrary: p q)
  case Nil
  then show ?case by (subst count_freed.simps) simp
next
  case (Cons a xs)
  let ?q = "q\<lparr>q_free_cnt := q_free_cnt q + 1\<rparr>"
  have "distinct ((a # xs) @ t # ys)" using Cons.prems(1) by (rule chain_distinct)
  then have "a \<noteq> t" by auto
  moreover have "count_freed (nexts q a) (Some t) ?q
      = Some (?q\<lparr>q_free_cnt := q_free_cnt ?q + of_nat (length (xs @ [t]))\<rparr>)"
    using Cons.prems by (intro Cons.IH) auto
  ultimately show ?case
    using Cons.prems by (subst count_freed.simps) (simp add: ac_simps)
qed

lemma find_tail_eq:
  assumes "chain (nexts q) p (xs @ [t])" and "set (xs @ [t]) \<subseteq> {..<length (q_mem q)}"
  shows "find_tail p q = Some (Some t)"
  using assms
proof (induction xs arbitrary: p)
  case Nil
  then show ?case by (subst find_tail.simps) simp
next
  case (Cons a xs)
  then have "nexts q a \<noteq> None" by (cases xs) auto
  with Cons show ?case by (subst find_tail.simps) auto
qed

lemma free_fofs_eq:
  assumes "chain (nexts q) p (xs @ [t])" and "set (xs @ [t]) \<subseteq> {..<length (q_mem q)}"
  shows "fof_queue_free_fofs q p (Some t)
    = Some ((set_next t (q_free_fofs q) (q\<lparr>q_free_cnt := q_free_cnt q + of_nat (length (xs @ [t]))\<rparr>))
              \<lparr>q_free_fofs := p\<rparr>)"
  using assms by (simp add: fof_queue_free_fofs_def count_freed_eq [where ys = "[]"] push_free_eq)

lemma slot_at_eq: "0 \<le> sint s \<Longrightarrow> nat (sint s) < length (q_slot q) \<Longrightarrow> slot_at s q = Some (nat (sint s))"
  by (simp add: slot_at_def)

subsection \<open>Moving cells between the lists\<close>

lemma owns_cong:
  assumes "q_mem q' = q_mem q" "q_free_fofs q' = q_free_fofs q" "q_slot q' = q_slot q"
    "q_excess q' = q_excess q"
  shows "owns q' fs ss ex out = owns q fs ss ex out"
proof -
  have "nexts q' = nexts q" using assms(1) by (simp add: fun_eq_iff nexts_def)
  with assms show ?thesis by (simp add: owns_def)
qed

lemma owns_perm: "owns q fs ss ex out \<Longrightarrow> distinct out' \<Longrightarrow> set out' = set out \<Longrightarrow> owns q fs ss ex out'"
  by (auto simp: owns_def)

lemma owns_range:
  assumes "owns q fs ss ex out"
  shows "set fs \<subseteq> {..<length (q_mem q)}" "set (concat ss) \<subseteq> {..<length (q_mem q)}"
    "set ex \<subseteq> {..<length (q_mem q)}" "set out \<subseteq> {..<length (q_mem q)}"
  using assms unfolding owns_def by (metis Un_iff set_append subsetI)+

lemma owns_count:
  assumes "owns q fs ss ex out"
  shows "length fs + length (concat ss) + length ex + length out = length (q_mem q)"
proof -
  have "length (fs @ concat ss @ ex @ out) = card (set (fs @ concat ss @ ex @ out))"
    using assms by (metis distinct_card owns_def)
  also have "\<dots> = length (q_mem q)" using assms unfolding owns_def by (simp only: card_lessThan)
  finally show ?thesis by simp
qed

lemma owns_slots: "owns q fs ss ex out \<Longrightarrow> length ss = length (q_slot q)"
  unfolding owns_def by (metis list_all2_lengthD)

lemma list_all2_chain_upd:
  "a \<notin> set (concat ss) \<Longrightarrow> list_all2 (chain (h(a := v))) ps ss = list_all2 (chain h) ps ss"
  by (auto simp: list_all2_conv_all_nth in_set_conv_nth)
     (metis chain_upd in_set_conv_nth nth_mem)+

lemma owns_set_next:
  assumes "owns q fs ss ex (a # out)"
  shows "owns (set_next a v q) fs ss ex (a # out)"
proof -
  have a: "a < length (q_mem q)" using owns_range(4) [OF assms] by simp
  moreover have "a \<notin> set fs" "a \<notin> set (concat ss)" "a \<notin> set ex" using assms by (auto simp: owns_def)
  ultimately show ?thesis using assms by (simp add: owns_def list_all2_chain_upd)
qed

lemma owns_set_event:
  "owns q fs ss ex out \<Longrightarrow> owns (set_event a t args q) fs ss ex out"
  by (simp add: owns_def)

lemma owns_alloc:
  assumes "owns q (a # fs) ss ex out"
  shows "owns (set_next a None (q\<lparr>q_free_fofs := nexts q a, q_free_cnt := c\<rparr>)) fs ss ex (a # out)"
proof (rule owns_set_next)
  show "owns (q\<lparr>q_free_fofs := nexts q a, q_free_cnt := c\<rparr>) fs ss ex (a # out)"
    using assms by (auto simp: owns_def)
qed

text \<open>Linking a chained segment \<open>xs @ [t]\<close> in front of the free list.\<close>

lemma owns_push_free:
  assumes "owns q fs ss ex ((xs @ [t]) @ out)" and "chain (nexts q) p (xs @ [t])"
  shows "owns ((set_next t (q_free_fofs q) q)\<lparr>q_free_fofs := p\<rparr>) (xs @ t # fs) ss ex out"
proof -
  have t: "t < length (q_mem q)" using owns_range(4) [OF assms(1)] by simp
  have n: "t \<notin> set fs" "t \<notin> set (concat ss)" "t \<notin> set ex" using assms(1) by (auto simp: owns_def)
  have "chain ((nexts q)(t := q_free_fofs q)) p (xs @ t # fs)"
    using assms n by (intro chain_splice) (auto simp: owns_def)
  with assms(1) t n show ?thesis
    by (simp add: owns_def list_all2_chain_upd) auto
qed

lemma owns_push_excess:
  assumes "owns q fs ss ex (a # out)"
  shows "owns ((set_next a (q_excess q) q)\<lparr>q_excess := Some a\<rparr>) fs ss (a # ex) out"
proof -
  have "owns (set_next a (q_excess q) q) fs ss ex (a # out)" using assms by (rule owns_set_next)
  moreover have "a < length (q_mem q)" using owns_range(4) [OF assms] by simp
  ultimately show ?thesis by (auto simp: owns_def)
qed

lemma concat_update_split:
  assumes "i < length ss"
  shows "concat ss = concat (take i ss) @ ss ! i @ concat (drop (Suc i) ss)"
    and "concat (ss[i := xs]) = concat (take i ss) @ xs @ concat (drop (Suc i) ss)"
proof -
  have "concat ss = concat (take i ss @ ss ! i # drop (Suc i) ss)"
    using assms by (simp add: id_take_nth_drop [symmetric])
  then show "concat ss = concat (take i ss) @ ss ! i @ concat (drop (Suc i) ss)" by simp
  show "concat (ss[i := xs]) = concat (take i ss) @ xs @ concat (drop (Suc i) ss)"
    using assms by (simp add: upd_conv_take_nth_drop)
qed

text \<open>
  The partition of the pool as an equation on multisets: a transfer of cells rearranges it.
\<close>

lemma partition_mset:
  "distinct xs \<and> set xs = {..<n} \<longleftrightarrow> mset xs = mset [0..<n]"
  by (metis atLeast_upt distinct_upt mset_eq_imp_distinct_iff mset_eq_setD set_eq_iff_mset_eq_distinct)

lemma owns_iff:
  "owns q fs ss ex out \<longleftrightarrow>
     chain (nexts q) (q_free_fofs q) fs \<and> list_all2 (chain (nexts q)) (q_slot q) ss \<and>
     chain (nexts q) (q_excess q) ex \<and>
     mset fs + mset (concat ss) + mset ex + mset out = mset [0..<length (q_mem q)]"
  unfolding owns_def partition_mset by (simp only: mset_append add.assoc conj_assoc)

lemma mset_concat_update:
  assumes "i < length ss"
  shows "mset (concat (ss[i := xs])) + mset (ss ! i) = mset (concat ss) + mset xs"
  unfolding concat_update_split [OF assms] by (simp only: mset_append ac_simps)

lemma owns_push_slot:
  assumes "owns q fs ss ex (a # out)" and "i < length (q_slot q)"
  shows "owns ((set_next a (q_slot q ! i) q)\<lparr>q_slot := (q_slot q)[i := Some a]\<rparr>)
              fs (ss[i := a # ss ! i]) ex out"
proof -
  let ?q = "set_next a (q_slot q ! i) q"
  have o: "owns ?q fs ss ex (a # out)" using assms(1) by (rule owns_set_next)
  have a: "a < length (q_mem q)" using owns_range(4) [OF assms(1)] by simp
  have i: "i < length ss"
    using assms(2) owns_slots [OF assms(1)] by simp
  have "chain (nexts ?q) (q_slot q ! i) (ss ! i)"
    using o assms(2) by (simp add: owns_def list_all2_nthD)
  then have "chain (nexts ?q) (Some a) (a # ss ! i)" using a by simp
  moreover have "list_all2 (chain (nexts ?q)) (q_slot q) ss" using o by (simp add: owns_def)
  ultimately have l: "list_all2 (chain (nexts ?q)) ((q_slot q)[i := Some a]) (ss[i := a # ss ! i])"
    by (rule list_all2_update_cong [rotated])
  have "mset (concat (ss[i := a # ss ! i])) = mset (concat ss) + {#a#}"
    using mset_concat_update [OF i, of "a # ss ! i"] by simp
  with o l show ?thesis by (simp add: owns_iff)
qed

lemma owns_take_slot:
  assumes "owns q fs ss ex out" and "i < length (q_slot q)"
  shows "owns (q\<lparr>q_slot := (q_slot q)[i := None]\<rparr>) fs (ss[i := []]) ex (ss ! i @ out)"
    and "chain (nexts q) (q_slot q ! i) (ss ! i)"
proof -
  have i: "i < length ss"
    using assms(2) owns_slots [OF assms(1)] by simp
  have "list_all2 (chain (nexts q)) (q_slot q) ss" using assms(1) by (simp add: owns_def)
  then have l: "list_all2 (chain (nexts q)) ((q_slot q)[i := None]) (ss[i := []])"
    by (rule list_all2_update_cong) simp
  have "mset (concat (ss[i := []])) + mset (ss ! i) = mset (concat ss)"
    using mset_concat_update [OF i, of "[]"] by simp
  with assms l show "owns (q\<lparr>q_slot := (q_slot q)[i := None]\<rparr>) fs (ss[i := []]) ex (ss ! i @ out)"
    by (simp add: owns_iff ac_simps)
  show "chain (nexts q) (q_slot q ! i) (ss ! i)"
    using assms by (simp add: owns_def list_all2_nthD)
qed

lemma owns_take_excess:
  assumes "owns q fs ss ex out"
  shows "owns (q\<lparr>q_excess := None\<rparr>) fs ss [] (ex @ out)"
    and "chain (nexts q) (q_excess q) ex"
  using assms by (auto simp: owns_def)

end
