(* ===== verification/Queue_Ops.thy ===== *)
theory Queue_Ops
  imports Queue_Memory
begin

text \<open>
  What each queue operation does to a well-formed queue: the configuration and cache
  invariants, the arithmetic of the slot index on machine words, and for every operation its
  result and the lists it leaves (\<open>owns\<close>), on every branch.
\<close>

subsection \<open>Configuration and cache invariants\<close>

abbreviation n_slots :: "fof_queue \<Rightarrow> nat" where
  "n_slots q \<equiv> nat (sint (q_n_slots q))"

abbreviation buf_size :: "fof_queue \<Rightarrow> nat" where
  "buf_size q \<equiv> nat (sint (q_buffer_size q))"

definition wf_config :: "fof_queue \<Rightarrow> bool" where
  "wf_config q \<longleftrightarrow> (\<exists>k<31. q_n_slots q = 2 ^ k) \<and> length (q_slot q) = n_slots q \<and>
     2 \<le> sint (q_buffer_size q)"

definition cache_ok :: "fof_queue \<Rightarrow> bool" where
  "cache_ok q \<longleftrightarrow>
     unat (q_current_slot q) = unat (q_next_frame_check q) div buf_size q mod n_slots q"

definition slot_of :: "nat \<Rightarrow> nat \<Rightarrow> nat \<Rightarrow> nat \<Rightarrow> nat" where
  "slot_of n bs now start = ((start - now) div bs + now div bs) mod n"

lemma wf_configE:
  assumes "wf_config q"
  obtains k where "k < 31" "q_n_slots q = 2 ^ k" "n_slots q = 2 ^ k" "length (q_slot q) = 2 ^ k"
    "2 \<le> buf_size q" "u64_of_int (q_n_slots q - 1) = 2 ^ k - 1"
    "unat (u64_of_int (q_buffer_size q)) = buf_size q"
proof -
  from assms obtain k where k: "k < 31" "q_n_slots q = 2 ^ k"
    and l: "length (q_slot q) = n_slots q" and b: "2 \<le> sint (q_buffer_size q)"
    unfolding wf_config_def by blast
  have n: "n_slots q = 2 ^ k" using k by (simp add: sint_pow2 nat_power_eq)
  show thesis
    using that [OF k n] l n b k u64_of_pow2_minus_1 [OF k(1)] by (simp add: unat_u64_of_int)
qed

lemma wf_config_pos: "wf_config q \<Longrightarrow> 0 < n_slots q" "wf_config q \<Longrightarrow> 0 < buf_size q"
  by (auto elim!: wf_configE)

lemma wf_config_cong:
  "q_n_slots q' = q_n_slots q \<Longrightarrow> length (q_slot q') = length (q_slot q) \<Longrightarrow>
   q_buffer_size q' = q_buffer_size q \<Longrightarrow> wf_config q' = wf_config q"
  by (simp add: wf_config_def)

lemma cache_current_slot_fields [simp]:
  "q_next_frame (cache_current_slot nf q) = q_next_frame q"
  "q_n_slots (cache_current_slot nf q) = q_n_slots q"
  "q_sample_rate (cache_current_slot nf q) = q_sample_rate q"
  "q_buffer_size (cache_current_slot nf q) = q_buffer_size q"
  "q_free_cnt (cache_current_slot nf q) = q_free_cnt q"
  "q_max_fofs (cache_current_slot nf q) = q_max_fofs q"
  "q_clock_source (cache_current_slot nf q) = q_clock_source q"
  "q_frame_stamp (cache_current_slot nf q) = q_frame_stamp q"
  "q_free_fofs (cache_current_slot nf q) = q_free_fofs q"
  "q_first_fof (cache_current_slot nf q) = q_first_fof q"
  "q_last_fof (cache_current_slot nf q) = q_last_fof q"
  "q_excess (cache_current_slot nf q) = q_excess q"
  "q_slot (cache_current_slot nf q) = q_slot q"
  "q_mem (cache_current_slot nf q) = q_mem q"
  "q_next_frame_check (cache_current_slot nf q) = nf"
  "nexts (cache_current_slot nf q) = nexts q"
  "event_at (cache_current_slot nf q) = event_at q"
  by (simp_all add: cache_current_slot_def)

lemma cache_current_slot_inv [simp]:
  "owns (cache_current_slot nf q) fs ss ex out = owns q fs ss ex out"
  "wf_config (cache_current_slot nf q) = wf_config q"
  by (rule owns_cong, simp_all, rule wf_config_cong, simp_all)

lemma cache_current_slot_ok:
  assumes "wf_config q" and "cache_ok q"
  shows "cache_ok (cache_current_slot nf q)"
    and "unat (q_current_slot (cache_current_slot nf q)) = unat nf div buf_size q mod n_slots q"
proof -
  from assms(1) obtain k where k: "n_slots q = 2 ^ k" "u64_of_int (q_n_slots q - 1) = 2 ^ k - 1"
    "unat (u64_of_int (q_buffer_size q)) = buf_size q"
    by (rule wf_configE)
  show "unat (q_current_slot (cache_current_slot nf q)) = unat nf div buf_size q mod n_slots q"
    using assms(2) by (simp add: cache_current_slot_def k(2) unat_and_mask unat_div k(1,3) cache_ok_def)
  then show "cache_ok (cache_current_slot nf q)" by (simp add: cache_ok_def)
qed

subsection \<open>The slot index on machine words\<close>

text \<open>
  \<open>slot_idx\<close> is cut to an \<open>int\<close>, the sum with the cached slot is taken on 64 bits and masked.
  For start frames below \<open>2 ^ 32\<close> nothing is lost.
\<close>

lemma slot_idx_value:
  assumes "wf_config q" and "nf \<le> sf" and "unat sf < 2 ^ 32"
  shows "sint (int_of_u64 ((sf - nf) div u64_of_int (q_buffer_size q)))
           = int ((unat sf - unat nf) div buf_size q)"
proof -
  from assms(1) obtain k where b: "2 \<le> buf_size q"
    "unat (u64_of_int (q_buffer_size q)) = buf_size q"
    by (rule wf_configE)
  have v: "unat ((sf - nf) div u64_of_int (q_buffer_size q)) = (unat sf - unat nf) div buf_size q"
    using assms(2) by (simp add: unat_div unat_minus b)
  have "(unat sf - unat nf) div buf_size q \<le> (unat sf - unat nf) div 2"
    using b(1) by (rule div_le_mono2 [rotated]) simp
  also have "\<dots> < 2 ^ 31" using assms(3) by simp
  finally show ?thesis by (simp add: sint_int_of_u64 v)
qed

text \<open>The slot for a cached slot \<open>c\<close>, right or not.\<close>

lemma slot_value_at:
  assumes "wf_config q" and "nf \<le> sf" and "unat sf < 2 ^ 32" and "unat c < n_slots q"
  defines "idx \<equiv> int_of_u64 ((sf - nf) div u64_of_int (q_buffer_size q))"
  shows "sint (int_of_u64 ((u64_of_int idx + c) AND u64_of_int (q_n_slots q - 1)))
           = int (((unat sf - unat nf) div buf_size q + unat c) mod n_slots q)"
proof -
  from assms(1) obtain k where k: "k < 31" "n_slots q = 2 ^ k" "u64_of_int (q_n_slots q - 1) = 2 ^ k - 1"
    by (rule wf_configE)
  let ?d = "(unat sf - unat nf) div buf_size q"
  have idx: "sint idx = int ?d" unfolding idx_def using assms(1-3) by (rule slot_idx_value)
  then have d: "unat (u64_of_int idx) = ?d" by (simp add: unat_u64_of_int)
  have dlt: "?d < 2 ^ 32" using assms(3) by (meson div_le_dividend diff_le_self le_less_trans)
  have klt: "(2::nat) ^ k < 2 ^ 31" using k(1) by (intro power_strict_increasing) simp_all
  then have clt: "unat c < 2 ^ 31" using assms(4) k(2) by simp
  have "unat (u64_of_int idx + c) = ?d + unat c"
    using d dlt clt by (subst unat_add_lem [THEN iffD1]) simp_all
  then have v: "unat ((u64_of_int idx + c) AND u64_of_int (q_n_slots q - 1)) = (?d + unat c) mod n_slots q"
    by (simp add: k(2,3) unat_and_mask)
  moreover have "(?d + unat c) mod n_slots q < 2 ^ 31"
    unfolding k(2) by (meson mod_less_divisor klt less_trans zero_less_numeral zero_less_power)
  ultimately show ?thesis by (simp add: sint_int_of_u64)
qed

lemma slot_value:
  assumes "wf_config q" and "cache_ok q" and "nf \<le> sf" and "unat sf < 2 ^ 32"
  defines "idx \<equiv> int_of_u64 ((sf - nf) div u64_of_int (q_buffer_size q))"
    and "q1 \<equiv> cache_current_slot nf q"
  shows "sint (int_of_u64 ((u64_of_int idx + q_current_slot q1) AND u64_of_int (q_n_slots q - 1)))
           = int (slot_of (n_slots q) (buf_size q) (unat nf) (unat sf))"
proof -
  have c: "unat (q_current_slot q1) = unat nf div buf_size q mod n_slots q"
    unfolding q1_def by (rule cache_current_slot_ok(2) [OF assms(1,2)])
  then have "unat (q_current_slot q1) < n_slots q" using wf_config_pos(1) [OF assms(1)] by simp
  from slot_value_at [OF assms(1,3,4) this] show ?thesis
    by (simp add: idx_def c slot_of_def mod_add_right_eq)
qed

lemma slot_of_less: "0 < n \<Longrightarrow> slot_of n bs now start < n"
  by (simp add: slot_of_def)

subsection \<open>Adding a fof, branch by branch\<close>

text \<open>The part of the state that no producer operation touches.\<close>

definition q_frame :: "fof_queue \<Rightarrow> u64 \<times> u64 \<times> c_int \<times> c_int \<times> c_int \<times> c_int \<times> c_int
    \<times> cell_ptr \<times> cell_ptr \<times> nat \<times> nat" where
  "q_frame q = (q_next_frame q, q_frame_stamp q, q_clock_source q, q_n_slots q, q_sample_rate q,
     q_buffer_size q, q_max_fofs q, q_first_fof q, q_last_fof q, length (q_slot q), length (q_mem q))"

lemma q_frame_eq:
  assumes "q_frame q' = q_frame q"
  shows "q_next_frame q' = q_next_frame q" "q_frame_stamp q' = q_frame_stamp q"
    "q_clock_source q' = q_clock_source q" "q_n_slots q' = q_n_slots q"
    "q_sample_rate q' = q_sample_rate q" "q_buffer_size q' = q_buffer_size q"
    "q_max_fofs q' = q_max_fofs q" "q_first_fof q' = q_first_fof q" "q_last_fof q' = q_last_fof q"
    "length (q_slot q') = length (q_slot q)" "length (q_mem q') = length (q_mem q)"
    "wf_config q' = wf_config q"
  using assms by (simp_all add: q_frame_def wf_config_def)

lemma cache_ok_cong:
  "q_current_slot q' = q_current_slot q \<Longrightarrow> q_next_frame_check q' = q_next_frame_check q \<Longrightarrow>
   q_buffer_size q' = q_buffer_size q \<Longrightarrow> q_n_slots q' = q_n_slots q \<Longrightarrow> cache_ok q' = cache_ok q"
  by (simp add: cache_ok_def)

definition start_frame :: "fof_queue \<Rightarrow> u64 \<Rightarrow> nat" where
  "start_frame q t = unat (jfofs_time_to_nframes t (q_sample_rate q))"

lemma start_frame_less: "start_frame q t < 2 ^ 32"
  using unsigned_less [of "jfofs_time_to_nframes t (q_sample_rate q)", where ?'a = nat]
  by (simp add: start_frame_def)

definition in_window :: "fof_queue \<Rightarrow> nat \<Rightarrow> bool" where
  "in_window q sf \<longleftrightarrow>
     unat (q_next_frame q) \<le> sf \<and> sf < unat (q_next_frame q) + n_slots q * buf_size q"

definition target_slot :: "fof_queue \<Rightarrow> nat \<Rightarrow> nat" where
  "target_slot q sf = slot_of (n_slots q) (buf_size q) (unat (q_next_frame q)) sf"

lemma add_recalculate_late:
  assumes "sf < nf" and "a < length (q_mem q)"
  shows "add_recalculate (Some a) sf nf q = Some (JFOFS_FOF_LATE_WARNING, [Incr_Late],
    (set_next a (q_free_fofs q) (q\<lparr>q_free_cnt := q_free_cnt q + 1\<rparr>))\<lparr>q_free_fofs := Some a\<rparr>)"
  using assms by (subst add_recalculate.simps) (simp add: free_fof_eq)

lemma wf_config_buffer: "wf_config q \<Longrightarrow> u64_of_int (q_buffer_size q) \<noteq> 0"
  by (auto elim!: wf_configE)

lemma excess_iff:
  assumes "wf_config q" and "nf \<le> sf" and "unat sf < 2 ^ 32"
  shows "sint (q_n_slots q) \<le> sint (int_of_u64 ((sf - nf) div u64_of_int (q_buffer_size q)))
           \<longleftrightarrow> unat nf + n_slots q * buf_size q \<le> unat sf"
proof -
  have "0 \<le> sint (q_n_slots q)" using wf_config_pos(1) [OF assms(1)] by simp
  then have "sint (q_n_slots q) \<le> sint (int_of_u64 ((sf - nf) div u64_of_int (q_buffer_size q)))
      \<longleftrightarrow> n_slots q \<le> (unat sf - unat nf) div buf_size q"
    unfolding slot_idx_value [OF assms] by linarith
  also have "\<dots> \<longleftrightarrow> n_slots q * buf_size q \<le> unat sf - unat nf"
    using wf_config_pos(2) [OF assms(1)] by (rule less_eq_div_iff_mult_less_eq)
  also have "\<dots> \<longleftrightarrow> unat nf + n_slots q * buf_size q \<le> unat sf"
    using assms(2) by (auto simp: word_le_nat_alt)
  finally show ?thesis .
qed

lemma add_recalculate_excess:
  assumes "wf_config q" and "nf \<le> sf" and "unat sf < 2 ^ 32" and "a < length (q_mem q)"
    and "unat nf + n_slots q * buf_size q \<le> unat sf"
  shows "add_recalculate (Some a) sf nf q = Some (JFOFS_FOF_EXCESS_INFO, [Incr_Excess],
    (set_next a (q_excess q) q)\<lparr>q_excess := Some a\<rparr>)"
proof -
  have "\<not> sf < nf" using assms(2) by simp
  then show ?thesis
    using assms(4,5) excess_iff [OF assms(1-3)] wf_config_buffer [OF assms(1)]
    by (subst add_recalculate.simps) (simp add: Let_def)
qed

lemma add_recalculate_at:
  fixes sf nf :: u64
  assumes "wf_config q" and "nf \<le> sf" and "unat sf < 2 ^ 32"
    and a: "a < length (q_mem q)" and nf: "nf = q_next_frame q"
    and w: "unat sf < unat nf + n_slots q * buf_size q"
  defines "idx \<equiv> int_of_u64 ((sf - nf) div u64_of_int (q_buffer_size q))"
    and "q1 \<equiv> cache_current_slot nf q"
  assumes s: "sint (int_of_u64 ((u64_of_int idx + q_current_slot q1) AND u64_of_int (q_n_slots q - 1))) = int i"
    and i: "i < length (q_slot q)"
  shows "add_recalculate (Some a) sf nf q = Some (JFOFS_SUCCESS, [Incr_Slot idx],
    (set_next a (q_slot q ! i) q1)\<lparr>q_slot := (q_slot q)[i := Some a]\<rparr>)"
proof -
  let ?slot = "int_of_u64 ((u64_of_int idx + q_current_slot q1) AND u64_of_int (q_n_slots q - 1))"
  let ?q2 = "set_next a (q_slot q ! i) q1"
  have at: "slot_at ?slot q' = Some i" if "q_slot q' = q_slot q" for q'
    using s i that by (simp add: slot_at_def)
  have ne: "\<not> sint (q_n_slots q) \<le> sint idx"
    unfolding idx_def using excess_iff [OF assms(1-3)] w by simp
  have q1: "q_slot q1 = q_slot q" "q_mem q1 = q_mem q" "q_next_frame q1 = nf"
    "q_n_slots q1 = q_n_slots q" "q_buffer_size q1 = q_buffer_size q"
    by (simp_all add: q1_def nf)
  have fast: "add_fast_lane (Some a) nf ?slot q1
      = Some (None, ?q2\<lparr>q_slot := (q_slot q)[i := Some a]\<rparr>)"
    using a by (subst add_fast_lane.simps) (simp add: load_slot_def at cas_slot_def q1 Let_def)
  have slow: "add_slow_lane (Some a) nf idx ?slot q1
      = Some (JFOFS_SUCCESS, [Incr_Slot idx], ?q2\<lparr>q_slot := (q_slot q)[i := Some a]\<rparr>)"
    using a by (simp add: add_slow_lane_def load_slot_def at cas_slot_def q1 Let_def)
  have "\<not> sf < nf" using assms(2) by simp
  then show ?thesis
    using ne wf_config_buffer [OF assms(1)] fast slow
    by (subst add_recalculate.simps)
       (simp add: Let_def idx_def [symmetric] q1_def [symmetric] q1)
qed

lemma add_recalculate_slot:
  fixes sf nf :: u64
  assumes "wf_config q" and "cache_ok q" and "nf \<le> sf" and "unat sf < 2 ^ 32"
    and "a < length (q_mem q)" and "nf = q_next_frame q"
    and "unat sf < unat nf + n_slots q * buf_size q"
  defines "i \<equiv> slot_of (n_slots q) (buf_size q) (unat nf) (unat sf)"
    and "idx \<equiv> int_of_u64 ((sf - nf) div u64_of_int (q_buffer_size q))"
    and "q1 \<equiv> cache_current_slot nf q"
  shows "add_recalculate (Some a) sf nf q = Some (JFOFS_SUCCESS, [Incr_Slot idx],
    (set_next a (q_slot q ! i) q1)\<lparr>q_slot := (q_slot q)[i := Some a]\<rparr>)"
proof -
  have "i < length (q_slot q)"
    unfolding i_def using assms(1) wf_config_pos(1) [OF assms(1)] by (simp add: wf_config_def slot_of_less)
  from add_recalculate_at [OF assms(1,3-7) slot_value [OF assms(1-4), folded i_def] this]
  show ?thesis by (simp only: idx_def q1_def)
qed

text \<open>
  The four results of \<open>fof_queue_add\<close>. \<open>stored q q' a t args\<close>: the call wrote the event into
  cell \<open>a\<close>, kept the slot cache right and touched nothing of \<open>q_frame\<close>.
\<close>

definition stored :: "fof_queue \<Rightarrow> fof_queue \<Rightarrow> nat \<Rightarrow> u64 \<Rightarrow> c_float list \<Rightarrow> bool" where
  "stored q q' a t args \<longleftrightarrow> q_frame q' = q_frame q \<and> cache_ok q' \<and>
     event_at q' = (event_at q)(a := (t, args))"

text \<open>The state after the allocation and \<open>set_fof\<close>.\<close>

lemma add_prefix_eq:
  fixes t :: u64 and args :: "c_float list"
  assumes "owns q (a # fs) ss ex out"
  defines "q2 \<equiv> set_event a t args (set_next a None (q\<lparr>q_free_fofs := nexts q a, q_free_cnt := q_free_cnt q - 1\<rparr>))"
  shows "fof_queue_add q t args = add_recalculate (Some a) (ucast (jfofs_time_to_nframes t (q_sample_rate q)))
      (q_next_frame q) q2"
    and "owns q2 fs ss ex (a # out)" and "event_at q2 = (event_at q)(a := (t, args))" and "a < length (q_mem q)"
proof -
  have a: "q_free_fofs q = Some a" "a < length (q_mem q)"
    using assms(1) owns_range(1) [OF assms(1)] by (auto simp: owns_def)
  show "fof_queue_add q t args = add_recalculate (Some a)
      (ucast (jfofs_time_to_nframes t (q_sample_rate q))) (q_next_frame q) q2"
    using a by (simp add: fof_queue_add_def allocate_cons Let_def q2_def)
  show "owns q2 fs ss ex (a # out)"
    unfolding q2_def using assms(1) by (intro owns_set_event owns_alloc)
  show "event_at q2 = (event_at q)(a := (t, args))"
    using a(2) by (auto simp: q2_def fun_eq_iff event_at_set_event)
  show "a < length (q_mem q)" by (rule a(2))
qed

lemma add_prefix:
  assumes "owns q (a # fs) ss ex out" and "cache_ok q"
  obtains q2 where
    "fof_queue_add q t args = add_recalculate (Some a) (ucast (jfofs_time_to_nframes t (q_sample_rate q)))
        (q_next_frame q) q2"
    "owns q2 fs ss ex (a # out)" "stored q q2 a t args" "q_free_cnt q2 = q_free_cnt q - 1"
    "q_slot q2 = q_slot q"
proof -
  let ?q2 = "set_event a t args (set_next a None (q\<lparr>q_free_fofs := nexts q a, q_free_cnt := q_free_cnt q - 1\<rparr>))"
  note e = add_prefix_eq(1-3) [OF assms(1), where t = t and args = args]
  have "cache_ok ?q2" using assms(2) by (simp add: cache_ok_def)
  then have "stored q ?q2 a t args" using e(3) by (simp add: stored_def q_frame_def)
  with e(1,2) show thesis using that [of ?q2] by simp
qed

lemma unat_start_frame: "unat (ucast (jfofs_time_to_nframes t (q_sample_rate q)) :: u64) = start_frame q t"
  by (simp add: unat_u64_of_u32 start_frame_def)

lemma storedD:
  assumes "stored q q' a t args"
  shows "q_next_frame q' = q_next_frame q" "n_slots q' = n_slots q" "buf_size q' = buf_size q"
    "wf_config q' = wf_config q" "cache_ok q'" "q_buffer_size q' = q_buffer_size q"
    "q_frame q' = q_frame q" "q_n_slots q' = q_n_slots q"
  using assms by (simp_all add: stored_def q_frame_def wf_config_def)

lemma fof_queue_add_limit:
  assumes "owns q [] ss ex out"
  shows "fof_queue_add q t args = Some (JFOFS_FOF_LIMIT_ERROR, [], q)"
proof -
  have "q_free_fofs q = None" using assms by (simp add: owns_def)
  then show ?thesis by (simp add: fof_queue_add_def allocate_empty)
qed

lemma fof_queue_add_late:
  assumes "owns q (a # fs) ss ex out" and "cache_ok q"
    and late: "start_frame q t < unat (q_next_frame q)"
  obtains q' where "fof_queue_add q t args = Some (JFOFS_FOF_LATE_WARNING, [Incr_Late], q')"
    "owns q' (a # fs) ss ex out" "stored q q' a t args" "q_free_cnt q' = q_free_cnt q"
proof -
  obtain q2 where q2: "fof_queue_add q t args = add_recalculate (Some a)
        (ucast (jfofs_time_to_nframes t (q_sample_rate q))) (q_next_frame q) q2"
    "owns q2 fs ss ex (a # out)" "stored q q2 a t args" "q_free_cnt q2 = q_free_cnt q - 1"
    using assms(1,2) by (rule add_prefix)
  let ?q2 = "q2\<lparr>q_free_cnt := q_free_cnt q2 + 1\<rparr>"
  let ?q3 = "(set_next a (q_free_fofs q2) ?q2)\<lparr>q_free_fofs := Some a\<rparr>"
  have a: "a < length (q_mem q2)" using owns_range(4) [OF q2(2)] by simp
  have o2: "owns ?q2 fs ss ex (([] @ [a]) @ out)"
    using q2(2) by (subst owns_cong [of ?q2 q2]) simp_all
  have "owns ((set_next a None ?q2)) fs ss ex (([] @ [a]) @ out)"
    using o2 by (simp add: owns_set_next)
  have "owns ?q3 (a # fs) ss ex out"
  proof -
    have "owns (set_next a (q_free_fofs q2) ?q2) fs ss ex (a # out)" using o2 by (simp add: owns_set_next)
    then show ?thesis using a by (auto simp: owns_def)
  qed
  moreover have "stored q ?q3 a t args"
    using q2(3) by (simp add: stored_def q_frame_def cache_ok_def)
  moreover have "fof_queue_add q t args = Some (JFOFS_FOF_LATE_WARNING, [Incr_Late], ?q3)"
    unfolding q2(1) using late a
    by (intro add_recalculate_late [THEN trans]) (simp_all add: word_less_nat_alt unat_start_frame)
  ultimately show thesis using q2(4) that [of ?q3] by simp
qed

lemma fof_queue_add_excess:
  assumes "owns q (a # fs) ss ex out" and "wf_config q" and "cache_ok q"
    and far: "unat (q_next_frame q) + n_slots q * buf_size q \<le> start_frame q t"
  obtains q' where "fof_queue_add q t args = Some (JFOFS_FOF_EXCESS_INFO, [Incr_Excess], q')"
    "owns q' fs ss (a # ex) out" "stored q q' a t args" "q_free_cnt q' = q_free_cnt q - 1"
proof -
  obtain q2 where q2: "fof_queue_add q t args = add_recalculate (Some a)
        (ucast (jfofs_time_to_nframes t (q_sample_rate q))) (q_next_frame q) q2"
    "owns q2 fs ss ex (a # out)" "stored q q2 a t args" "q_free_cnt q2 = q_free_cnt q - 1"
    using assms(1,3) by (rule add_prefix)
  let ?q3 = "(set_next a (q_excess q2) q2)\<lparr>q_excess := Some a\<rparr>"
  have a: "a < length (q_mem q2)" using owns_range(4) [OF q2(2)] by simp
  have "fof_queue_add q t args = Some (JFOFS_FOF_EXCESS_INFO, [Incr_Excess], ?q3)"
    unfolding q2(1) using far a assms(2) storedD [OF q2(3)] start_frame_less [of q t]
    by (intro add_recalculate_excess) (simp_all add: word_le_nat_alt unat_start_frame)
  moreover have "stored q ?q3 a t args"
    using q2(3) by (simp add: stored_def q_frame_def cache_ok_def)
  ultimately show thesis
    using q2(4) that [of ?q3] owns_push_excess [OF q2(2)] by simp
qed

lemma fof_queue_add_slot:
  assumes "owns q (a # fs) ss ex out" and "wf_config q" and "cache_ok q"
    and w: "in_window q (start_frame q t)"
  obtains q' idx where "fof_queue_add q t args = Some (JFOFS_SUCCESS, [Incr_Slot idx], q')"
    "sint idx = int ((start_frame q t - unat (q_next_frame q)) div buf_size q)"
    "target_slot q (start_frame q t) < n_slots q"
    "owns q' fs (ss[target_slot q (start_frame q t) := a # ss ! target_slot q (start_frame q t)]) ex out"
    "stored q q' a t args" "q_free_cnt q' = q_free_cnt q - 1"
proof -
  obtain q2 where q2: "fof_queue_add q t args = add_recalculate (Some a)
        (ucast (jfofs_time_to_nframes t (q_sample_rate q))) (q_next_frame q) q2"
    "owns q2 fs ss ex (a # out)" "stored q q2 a t args" "q_free_cnt q2 = q_free_cnt q - 1"
    "q_slot q2 = q_slot q"
    using assms(1,3) by (rule add_prefix)
  let ?sf = "ucast (jfofs_time_to_nframes t (q_sample_rate q)) :: u64"
  let ?i = "target_slot q (start_frame q t)"
  let ?idx = "int_of_u64 ((?sf - q_next_frame q) div u64_of_int (q_buffer_size q))"
  let ?q1 = "cache_current_slot (q_next_frame q) q2"
  let ?q3 = "(set_next a (q_slot q2 ! ?i) ?q1)\<lparr>q_slot := (q_slot q2)[?i := Some a]\<rparr>"
  note frame = storedD [OF q2(3)]
  have a: "a < length (q_mem q2)" using owns_range(4) [OF q2(2)] by simp
  have le: "q_next_frame q \<le> ?sf" using w by (simp add: word_le_nat_alt unat_start_frame in_window_def)
  have lt: "unat ?sf < 2 ^ 32" using start_frame_less [of q t] by (simp only: unat_start_frame)
  have i: "?i < n_slots q" using wf_config_pos(1) [OF assms(2)] by (simp add: target_slot_def slot_of_less)
  have h: "wf_config q2" "cache_ok q2" "q_next_frame q = q_next_frame q2"
    using assms(2) frame by simp_all
  have win: "unat ?sf < unat (q_next_frame q) + n_slots q2 * buf_size q2"
    using w frame by (simp only: unat_start_frame in_window_def)
  have add: "fof_queue_add q t args = Some (JFOFS_SUCCESS, [Incr_Slot ?idx], ?q3)"
    unfolding q2(1) add_recalculate_slot [OF h(1,2) le lt a h(3) win] target_slot_def
    by (simp only: unat_start_frame frame)
  have idx: "sint ?idx = int ((start_frame q t - unat (q_next_frame q)) div buf_size q)"
    using slot_idx_value [OF assms(2) le lt] by (simp only: unat_start_frame)
  have "length (q_slot q2) = n_slots q" using q2(5) assms(2) by (simp add: wf_config_def)
  then have owns: "owns ?q3 fs (ss[?i := a # ss ! ?i]) ex out"
    using owns_push_slot [of ?q1 fs ss ex a out ?i] q2(2) i by simp
  have "cache_ok ?q1" using cache_current_slot_ok(1) assms(2) frame by simp
  then have st: "stored q ?q3 a t args"
    using q2(3) by (simp add: stored_def q_frame_def cache_ok_def)
  show thesis using that [OF add idx i owns st] q2(4) by simp
qed

end
