(* ===== verification/Queue_Life.thy ===== *)
theory Queue_Life
  imports Queue_Ops
begin

text \<open>
  The operations over whole lists: \<open>fof_queue_init\<close>, \<open>fof_queue_take_slot\<close>,
  \<open>fof_queue_free_fofs\<close>, \<open>fof_queue_flush\<close>; and the well-formedness of a queue with no call in
  progress, as an executable predicate on the state.
\<close>

subsection \<open>The lists of a queue, computed\<close>

definition free_list :: "fof_queue \<Rightarrow> nat list" where
  "free_list q = walk (length (q_mem q)) (nexts q) (q_free_fofs q)"

definition slot_lists :: "fof_queue \<Rightarrow> nat list list" where
  "slot_lists q = map (walk (length (q_mem q)) (nexts q)) (q_slot q)"

definition excess_list :: "fof_queue \<Rightarrow> nat list" where
  "excess_list q = walk (length (q_mem q)) (nexts q) (q_excess q)"

text \<open>\<open>out\<close>: the cells that calls in progress hold. Between the calls there are none.\<close>

definition wf_held :: "nat list \<Rightarrow> fof_queue \<Rightarrow> bool" where
  "wf_held out q \<longleftrightarrow> wf_config q \<and> cache_ok q \<and>
     owns q (free_list q) (slot_lists q) (excess_list q) out"

abbreviation wf_queue :: "fof_queue \<Rightarrow> bool" where
  "wf_queue \<equiv> wf_held []"

lemma length_concat_member: "xs \<in> set xss \<Longrightarrow> length xs \<le> length (concat xss)"
  by (induction xss) auto

lemma owns_lists:
  assumes "owns q fs ss ex out"
  shows "free_list q = fs" "slot_lists q = ss" "excess_list q = ex"
proof -
  note n = owns_count [OF assms]
  have c: "chain (nexts q) (q_free_fofs q) fs" "list_all2 (chain (nexts q)) (q_slot q) ss"
    "chain (nexts q) (q_excess q) ex"
    using assms by (simp_all add: owns_def)
  show "free_list q = fs" using c(1) n by (simp add: free_list_def walk_chain)
  show "excess_list q = ex" using c(3) n by (simp add: excess_list_def walk_chain)
  show "slot_lists q = ss"
  proof (rule nth_equalityI)
    show "length (slot_lists q) = length ss" using c(2) by (simp add: slot_lists_def list_all2_lengthD)
    fix i assume "i < length (slot_lists q)"
    then have i: "i < length (q_slot q)" by (simp add: slot_lists_def)
    then have "ss ! i \<in> set ss" using c(2) by (simp add: list_all2_lengthD)
    then have "length (ss ! i) \<le> length (q_mem q)" using length_concat_member [of "ss ! i" ss] n by simp
    moreover have "chain (nexts q) (q_slot q ! i) (ss ! i)" using c(2) i by (rule list_all2_nthD)
    ultimately show "slot_lists q ! i = ss ! i" using i by (simp add: slot_lists_def walk_chain)
  qed
qed

lemma wf_queueI: "wf_config q \<Longrightarrow> cache_ok q \<Longrightarrow> owns q fs ss ex out \<Longrightarrow> wf_held out q"
  by (simp add: wf_held_def owns_lists)

lemma wf_queueD:
  assumes "wf_held out q"
  shows "wf_config q" "cache_ok q" "owns q (free_list q) (slot_lists q) (excess_list q) out"
    "length (slot_lists q) = n_slots q" "length (q_slot q) = n_slots q"
  using assms by (auto simp: wf_held_def wf_config_def slot_lists_def)

subsection \<open>Taking a slot and releasing a list\<close>

lemma take_slot_eq:
  assumes "owns q fs ss ex out" and "0 \<le> sint slot" and "nat (sint slot) < length (q_slot q)"
  defines "i \<equiv> nat (sint slot)"
  shows "fof_queue_take_slot q slot = Some (q_slot q ! i, q\<lparr>q_slot := (q_slot q)[i := None]\<rparr>)"
    and "owns (q\<lparr>q_slot := (q_slot q)[i := None]\<rparr>) fs (ss[i := []]) ex (ss ! i @ out)"
    and "chain (nexts q) (q_slot q ! i) (ss ! i)"
  using assms owns_take_slot [OF assms(1), of i]
  by (simp_all add: fof_queue_take_slot_def exchange_slot_def slot_at_eq)

text \<open>What a release changes beyond the lists: the free counter of the debug build only.\<close>

definition released :: "fof_queue \<Rightarrow> fof_queue \<Rightarrow> nat \<Rightarrow> bool" where
  "released q q' n \<longleftrightarrow> q_frame q' = q_frame q \<and> q_free_cnt q' = q_free_cnt q + of_nat n \<and>
     event_at q' = event_at q \<and> q_current_slot q' = q_current_slot q \<and>
     q_next_frame_check q' = q_next_frame_check q \<and> q_active_cnt q' = q_active_cnt q"

lemma free_fofs_owns:
  assumes "owns q fs ss ex ((xs @ [t]) @ out)" and "chain (nexts q) p (xs @ [t])"
  obtains q' where "fof_queue_free_fofs q p (Some t) = Some q'"
    "owns q' (xs @ t # fs) ss ex out" "released q q' (length (xs @ [t]))"
    "\<forall>a\<in>set out. nexts q' a = nexts q a"
proof -
  let ?q1 = "q\<lparr>q_free_cnt := q_free_cnt q + of_nat (length (xs @ [t]))\<rparr>"
  let ?q' = "(set_next t (q_free_fofs q) ?q1)\<lparr>q_free_fofs := p\<rparr>"
  have "set (xs @ [t]) \<subseteq> {..<length (q_mem q)}" using owns_range(4) [OF assms(1)] by simp
  with assms(2) have "fof_queue_free_fofs q p (Some t) = Some ?q'" by (rule free_fofs_eq)
  moreover have "owns ?q1 fs ss ex ((xs @ [t]) @ out)"
    using assms(1) by (subst owns_cong [of ?q1 q]) simp_all
  then have "owns ((set_next t (q_free_fofs ?q1) ?q1)\<lparr>q_free_fofs := p\<rparr>) (xs @ t # fs) ss ex out"
    using assms(2) by (intro owns_push_free) simp_all
  then have "owns ?q' (xs @ t # fs) ss ex out" by simp
  moreover have "released q ?q' (length (xs @ [t]))"
    by (simp add: released_def q_frame_def) (simp add: set_next_def)
  moreover have "t \<notin> set out" using assms(1) by (auto simp: owns_def)
  then have "t \<noteq> a" if "a \<in> set out" for a using that by blast
  then have "\<forall>a\<in>set out. nexts ?q' a = nexts q a" by (simp add: nexts_def set_next_def)
  ultimately show thesis by (rule that)
qed

lemma release_list_owns:
  assumes "owns q fs ss ex (xs @ out)" and "chain (nexts q) p xs"
  obtains q' where "fof_queue_release_list q p = Some q'"
    "owns q' (xs @ fs) ss ex out" "released q q' (length xs)"
proof (cases xs rule: rev_cases)
  case Nil
  then show thesis using assms that [of q] by (simp add: fof_queue_release_list_def released_def)
next
  case (snoc ys t)
  obtain q' where q': "fof_queue_free_fofs q p (Some t) = Some q'"
    "owns q' (ys @ t # fs) ss ex out" "released q q' (length (ys @ [t]))"
    using free_fofs_owns [of q fs ss ex ys t out p] assms snoc by auto
  have "p \<noteq> None" using assms(2) snoc by (cases ys) auto
  moreover have "find_tail p q = Some (Some t)"
    using assms owns_range(4) [OF assms(1)] snoc by (intro find_tail_eq) auto
  ultimately have "fof_queue_release_list q p = Some q'"
    using q'(1) by (auto simp: fof_queue_release_list_def)
  then show thesis using q'(2,3) snoc by (intro that [of q']) simp_all
qed

lemma released_trans: "released q q1 m \<Longrightarrow> released q1 q2 n \<Longrightarrow> released q q2 (m + n)"
  by (simp add: released_def ac_simps)

subsection \<open>Flushing the queue\<close>

lemma flush_slots_owns:
  assumes "owns q fs ss ex []" and "length (q_slot q) = j + n" and "j + n < 2 ^ 31"
  obtains q' where "flush_slots n (of_nat j) q = Some q'"
    "owns q' (concat (rev (drop j ss)) @ fs) (take j ss @ replicate n []) ex []"
    "released q q' (length (concat (drop j ss)))"
  using assms
proof (induction n arbitrary: thesis j q fs ss)
  case 0
  then have "length ss = j" by (simp add: owns_slots)
  with 0 show ?case by (simp add: released_def)
next
  case (Suc n)
  have l: "length ss = j + Suc n" using Suc.prems(2,3) by (simp add: owns_slots)
  have sj: "nat (sint (of_nat j :: c_int)) = j" "0 \<le> sint (of_nat j :: c_int)"
    using Suc.prems(4) by (simp_all add: sint_of_nat)
  let ?q1 = "q\<lparr>q_slot := (q_slot q)[j := None]\<rparr>"
  have ex: "exchange_slot (of_nat j) q = Some (q_slot q ! j, ?q1)"
    and o1: "owns ?q1 fs (ss[j := []]) ex (ss ! j @ [])"
    and c1: "chain (nexts ?q1) (q_slot q ! j) (ss ! j)"
    using take_slot_eq [OF Suc.prems(2), of "of_nat j"] sj Suc.prems(3)
    by (simp_all add: fof_queue_take_slot_def)
  obtain q2 where q2: "fof_queue_release_list ?q1 (q_slot q ! j) = Some q2"
    "owns q2 (ss ! j @ fs) (ss[j := []]) ex []" "released ?q1 q2 (length (ss ! j))"
    using o1 c1 by (rule release_list_owns)
  have l2: "length (q_slot q2) = Suc j + n"
    using q2(3) Suc.prems(3) by (simp add: released_def q_frame_def)
  obtain q' where q': "flush_slots n (of_nat (Suc j)) q2 = Some q'"
    "owns q' (concat (rev (drop (Suc j) (ss[j := []]))) @ ss ! j @ fs)
        (take (Suc j) (ss[j := []]) @ replicate n []) ex []"
    "released q2 q' (length (concat (drop (Suc j) (ss[j := []]))))"
    using Suc.IH [OF _ q2(2) l2] Suc.prems(4) by auto
  have d: "drop j ss = ss ! j # drop (Suc j) ss" using l by (simp add: Cons_nth_drop_Suc)
  have t: "take (Suc j) (ss[j := []]) @ replicate n [] = take j ss @ replicate (Suc n) []"
    using l by (simp add: take_Suc_conv_app_nth)
  have "flush_slots (Suc n) (of_nat j) q = Some q'"
    using ex q2(1) q'(1) by (simp add: add.commute)
  moreover have "owns q' (concat (rev (drop j ss)) @ fs) (take j ss @ replicate (Suc n) []) ex []"
    using q'(2) t by (simp add: d)
  moreover have "released q q' (length (concat (drop j ss)))"
    using released_trans [OF q2(3) q'(3)] by (simp add: d released_def q_frame_def)
  ultimately show ?case by (rule Suc.prems(1))
qed

text \<open>
  The flush: all slots and the excess list are emptied, their cells are pushed on the free list
  slot by slot, the excess list last, and the slot cache is reset.
\<close>

definition flushed :: "fof_queue \<Rightarrow> fof_queue \<Rightarrow> bool" where
  "flushed q q' \<longleftrightarrow>
     q_frame q' = q_frame (q\<lparr>q_first_fof := None, q_last_fof := None\<rparr>) \<and>
     q_current_slot q' = 0 \<and> q_next_frame_check q' = 0 \<and> event_at q' = event_at q \<and>
     q_free_cnt q' = q_free_cnt q + of_nat (length (concat (slot_lists q)) + length (excess_list q))"

lemma n_slots_less: "n_slots q < 2 ^ 31"
  using sint_lt [of "q_n_slots q"] by (simp add: nat_less_iff)

lemma flush_owns:
  assumes "wf_queue q"
  obtains q' where "fof_queue_flush q = Some q'"
    "owns q' (excess_list q @ concat (rev (slot_lists q)) @ free_list q)
        (replicate (n_slots q) []) [] []"
    "wf_queue q'" "flushed q q'"
proof -
  note wf = wf_queueD [OF assms]
  obtain q1 where q1: "flush_slots (n_slots q) (of_nat 0) q = Some q1"
    "owns q1 (concat (rev (drop 0 (slot_lists q))) @ free_list q)
       (take 0 (slot_lists q) @ replicate (n_slots q) []) (excess_list q) []"
    "released q q1 (length (concat (drop 0 (slot_lists q))))"
    using flush_slots_owns [OF wf(3), of 0 "n_slots q"] wf(5) n_slots_less [of q] by auto
  let ?q1 = "q1\<lparr>q_excess := None\<rparr>"
  have o1: "owns ?q1 (concat (rev (slot_lists q)) @ free_list q) (replicate (n_slots q) []) []
      (excess_list q @ [])"
    and c1: "chain (nexts ?q1) (q_excess q1) (excess_list q)"
    using owns_take_excess [OF q1(2)] by simp_all
  obtain q2 where q2: "fof_queue_release_list ?q1 (q_excess q1) = Some q2"
    "owns q2 (excess_list q @ concat (rev (slot_lists q)) @ free_list q)
       (replicate (n_slots q) []) [] []"
    "released ?q1 q2 (length (excess_list q))"
    using o1 c1 by (rule release_list_owns)
  let ?q' = "q2\<lparr>q_first_fof := None, q_last_fof := None, q_current_slot := 0,
                q_next_frame_check := 0\<rparr>"
  have fl: "fof_queue_flush q = Some ?q'"
    using q1(1) q2(1) by (simp add: fof_queue_flush_def)
  have o: "owns ?q' (excess_list q @ concat (rev (slot_lists q)) @ free_list q)
      (replicate (n_slots q) []) [] []"
    using q2(2) by (subst owns_cong [of ?q' q2]) simp_all
  have f: "flushed q ?q'"
    using q1(3) q2(3) by (simp add: flushed_def released_def q_frame_def)
  then have "wf_config ?q'" "cache_ok ?q'"
    using wf(1) by (simp_all add: flushed_def q_frame_def wf_config_def cache_ok_def)
  then have "wf_queue ?q'" using o by (rule wf_queueI)
  from that [OF fl o this f] show thesis .
qed

subsection \<open>Initialising the queue\<close>

lemma clear_slots_eq:
  assumes "length (q_slot q) = j + n" and "j + n < 2 ^ 31"
  shows "clear_slots n (of_nat j) q
           = Some (q\<lparr>q_slot := take j (q_slot q) @ replicate n None\<rparr>)"
  using assms
proof (induction n arbitrary: j q)
  case 0
  then show ?case by simp
next
  case (Suc n)
  have sj: "nat (sint (of_nat j :: c_int)) = j" "0 \<le> sint (of_nat j :: c_int)"
    using Suc.prems by (simp_all add: sint_of_nat)
  let ?q1 = "q\<lparr>q_slot := (q_slot q)[j := None]\<rparr>"
  have "exchange_slot (of_nat j) q = Some (q_slot q ! j, ?q1)"
    using sj Suc.prems by (simp add: exchange_slot_def slot_at_def)
  moreover have "clear_slots n (of_nat (Suc j)) ?q1
      = Some (?q1\<lparr>q_slot := take (Suc j) (q_slot ?q1) @ replicate n None\<rparr>)"
    using Suc.prems by (intro Suc.IH) simp_all
  moreover have "take (Suc j) ((q_slot q)[j := None]) = take j (q_slot q) @ [None]"
    using Suc.prems by (simp add: take_Suc_conv_app_nth)
  ultimately show ?case by (simp add: add.commute)
qed

lemma link_free_fofs_eq:
  assumes "j + n < length (q_mem q)"
  obtains q' where "link_free_fofs n (Some j) q = Some (Some (j + n), q')"
    "nexts q' = (\<lambda>i. if j \<le> i \<and> i < j + n then Some (Suc i) else nexts q i)"
    "q' = q\<lparr>q_mem := q_mem q'\<rparr>" "length (q_mem q') = length (q_mem q)"
  using assms
proof (induction n arbitrary: thesis j q)
  case 0
  show ?case by (rule 0(1) [of q]) (auto simp: fun_eq_iff)
next
  case (Suc n)
  let ?q1 = "set_next j (Some (Suc j)) q"
  have j: "j < length (q_mem q)" using Suc.prems by simp
  obtain q' where q': "link_free_fofs n (Some (Suc j)) ?q1 = Some (Some (Suc j + n), q')"
    "nexts q' = (\<lambda>i. if Suc j \<le> i \<and> i < Suc j + n then Some (Suc i) else nexts ?q1 i)"
    "q' = ?q1\<lparr>q_mem := q_mem q'\<rparr>" "length (q_mem q') = length (q_mem ?q1)"
    using Suc.IH [of "Suc j" ?q1] Suc.prems(2) by auto
  show ?case
  proof (rule Suc.prems(1))
    show "link_free_fofs (Suc n) (Some j) q = Some (Some (j + Suc n), q')"
      using q'(1) j by (simp add: Let_def)
    show "nexts q' = (\<lambda>i. if j \<le> i \<and> i < j + Suc n then Some (Suc i) else nexts q i)"
      using q'(2) j by (auto simp: fun_eq_iff)
    show "q' = q\<lparr>q_mem := q_mem q'\<rparr>" using q'(3) by (simp add: set_next_def)
    show "length (q_mem q') = length (q_mem q)" using q'(4) by simp
  qed
qed

lemma chain_upt:
  assumes "j \<le> n" and "\<And>i. j \<le> i \<Longrightarrow> i < n \<Longrightarrow> h i = Some (Suc i)" and "h n = None"
  shows "chain h (Some j) [j..<Suc n]"
  using assms
proof (induction "n - j" arbitrary: j)
  case 0
  then show ?case by simp
next
  case (Suc m)
  then have "chain h (Some (Suc j)) [Suc j..<Suc n]" by (intro Suc.hyps(1)) simp_all
  moreover have "h j = Some (Suc j)" using Suc by simp
  moreover have "[j..<Suc n] = j # [Suc j..<Suc n]" using Suc.hyps(2) by (simp add: upt_conv_Cons)
  ultimately show ?case by (simp del: upt_Suc)
qed

text \<open>The memory \<open>shmem_create\<close> hands over: both arrays sized by the setup, the free list not linked.\<close>

definition raw_queue :: "fof_queue \<Rightarrow> setup_t \<Rightarrow> bool" where
  "raw_queue q setup \<longleftrightarrow> q_free_fofs q = Some 0 \<and>
     length (q_slot q) = nat (sint (s_n_slots setup)) \<and>
     length (q_mem q) = nat (sint (s_n_max_fofs setup))"

definition wf_setup :: "setup_t \<Rightarrow> bool" where
  "wf_setup setup \<longleftrightarrow> (\<exists>k<31. s_n_slots setup = 2 ^ k) \<and> 2 \<le> sint (s_max_buffer_size setup) \<and>
     0 < sint (s_n_max_fofs setup)"

definition initialised :: "setup_t \<Rightarrow> fof_queue \<Rightarrow> bool" where
  "initialised setup q \<longleftrightarrow> q_next_frame q = 0 \<and> q_n_slots q = s_n_slots setup \<and>
     q_sample_rate q = s_sample_rate setup \<and> q_buffer_size q = s_max_buffer_size setup \<and>
     q_clock_source q = clock_code (jfofs_clock_source_normalize (s_clock_source setup)) \<and>
     q_free_cnt q = s_n_max_fofs setup \<and> q_max_fofs q = s_n_max_fofs setup"

lemma init_owns:
  assumes "raw_queue q setup" and "wf_setup setup"
  obtains q' where "fof_queue_init q setup = Some q'" "wf_queue q'" "initialised setup q'"
    "owns q' [0..<nat (sint (s_n_max_fofs setup))] (replicate (nat (sint (s_n_slots setup))) []) [] []"
proof -
  let ?n = "nat (sint (s_n_max_fofs setup))" and ?k = "nat (sint (s_n_slots setup))"
  let ?q1 = "q\<lparr>q_next_frame := 0, q_next_frame_check := 0, q_current_slot := 0,
               q_clock_source := clock_code (jfofs_clock_source_normalize (s_clock_source setup)),
               q_n_slots := s_n_slots setup,
               q_max_fofs := s_n_max_fofs setup, q_free_cnt := s_n_max_fofs setup,
               q_sample_rate := s_sample_rate setup,
               q_buffer_size := s_max_buffer_size setup,
               q_last_fof := None, q_excess := None\<rparr>"
  let ?q2 = "?q1\<lparr>q_slot := replicate ?k None\<rparr>"
  have len: "length (q_slot ?q1) = 0 + ?k" "length (q_mem ?q2) = ?n" "q_free_fofs ?q2 = Some 0"
    using assms(1) by (simp_all add: raw_queue_def)
  have n: "0 < ?n" using assms(2) by (simp add: wf_setup_def)
  have "?k < 2 ^ 31" using n_slots_less [of ?q1] by simp
  then have c: "clear_slots ?k 0 ?q1 = Some ?q2" using clear_slots_eq [OF len(1)] by simp
  have lt: "0 + (?n - 1) < length (q_mem ?q2)" unfolding len(2) using n by linarith
  obtain q3 where q3: "link_free_fofs (?n - 1) (Some 0) ?q2 = Some (Some (0 + (?n - 1)), q3)"
    "nexts q3 = (\<lambda>i. if 0 \<le> i \<and> i < 0 + (?n - 1) then Some (Suc i) else nexts ?q2 i)"
    "q3 = ?q2\<lparr>q_mem := q_mem q3\<rparr>" "length (q_mem q3) = length (q_mem ?q2)"
    by (rule link_free_fofs_eq [OF lt])
  have f3: "q_slot q3 = replicate ?k None" "q_excess q3 = None" "q_free_fofs q3 = Some 0"
    "q_next_frame q3 = 0" "q_next_frame_check q3 = 0" "q_current_slot q3 = 0"
    "q_n_slots q3 = s_n_slots setup" "q_sample_rate q3 = s_sample_rate setup"
    "q_buffer_size q3 = s_max_buffer_size setup" "q_free_cnt q3 = s_n_max_fofs setup"
    "q_max_fofs q3 = s_n_max_fofs setup"
    "q_clock_source q3 = clock_code (jfofs_clock_source_normalize (s_clock_source setup))"
    using len(3) by (subst q3(3); simp)+
  let ?q' = "set_next (?n - 1) None q3"
  have r: "?n - 1 < length (q_mem q3)" using q3(4) len(2) n by simp
  have e: "nat (sint (s_n_max_fofs setup) - 1) = ?n - 1" by simp
  have init: "fof_queue_init q setup = Some ?q'"
    using c q3(1) len(3) r by (simp add: fof_queue_init_def Let_def e)
  have "chain (nexts ?q') (Some 0) [0..<Suc (?n - 1)]"
    using r q3(2) by (intro chain_upt) simp_all
  then have ch: "chain (nexts ?q') (q_free_fofs ?q') [0..<?n]" using n f3 by simp
  have o: "owns ?q' [0..<?n] (replicate ?k []) [] []"
    using ch f3 q3(4) len(2) by (simp add: owns_iff list_all2_conv_all_nth)
  have i: "initialised setup ?q'" using f3 by (simp add: initialised_def)
  have "wf_config ?q'" using f3 assms(2) by (simp add: wf_config_def wf_setup_def)
  moreover have "cache_ok ?q'" using f3 by (simp add: cache_ok_def)
  ultimately have "wf_queue ?q'" using o by (rule wf_queueI)
  from that [OF init this i o] show thesis .
qed

end
