(* ===== verification/Ctrl_Process.thy ===== *)
theory Ctrl_Process
  imports Ctrl_Client Queue_Life
begin

text \<open>
  What one audio cycle of the control client does to a well-formed queue: the round-robin
  dealing of the due slot, the return of its cells, and the cycle as a whole in its cases
  (steady JACK clock, steady transport, clock change or transport jump).
\<close>

subsection \<open>Well-formed control clients\<close>

text \<open>The pointers \<open>manager_new\<close> sets: the first \<open>n_clients\<close> entries point to the dsp clients.\<close>

abbreviation last_dsp :: "ctrl_client \<Rightarrow> nat" where
  "last_dsp ctrl \<equiv> nat (sint (c_last_dsp ctrl))"

definition wf_ctrl :: "ctrl_client \<Rightarrow> 'b dsp_client list \<Rightarrow> bool" where
  "wf_ctrl ctrl dsps \<longleftrightarrow> 0 < sint (c_n_clients ctrl) \<and> n_clients ctrl \<le> MAX_DSP_CLIENTS \<and>
     length (c_dsp ctrl) = MAX_DSP_CLIENTS \<and> n_clients ctrl \<le> length dsps \<and>
     (\<forall>i<n_clients ctrl. c_dsp ctrl ! i = Some i) \<and>
     0 \<le> sint (c_last_dsp ctrl) \<and> last_dsp ctrl < n_clients ctrl"

lemma wf_ctrlD:
  assumes "wf_ctrl ctrl dsps"
  shows "0 < n_clients ctrl" "n_clients ctrl \<le> 8" "n_clients ctrl \<le> length dsps"
    "c_n_clients ctrl = of_nat (n_clients ctrl)" "c_last_dsp ctrl = of_nat (last_dsp ctrl)"
    "last_dsp ctrl < n_clients ctrl"
  using assms unfolding wf_ctrl_def
  by (simp_all add: of_nat_sint)

lemma dsp_at_eq:
  "wf_ctrl ctrl dsps \<Longrightarrow> i < n_clients ctrl \<Longrightarrow> length dsps' = length dsps \<Longrightarrow> dsp_at ctrl (of_nat i) dsps' = Some i"
  by (simp add: dsp_at_def wf_ctrl_def sint_of_nat)

lemma wf_ctrl_last:
  assumes "wf_ctrl ctrl dsps" and "k < n_clients ctrl"
  shows "wf_ctrl (ctrl\<lparr>c_last_dsp := of_nat k\<rparr>) dsps"
proof -
  have "sint (of_nat k :: c_int) = int k"
    using wf_ctrlD(2) [OF assms(1)] assms(2) by (intro sint_of_nat) simp
  then show ?thesis using assms by (simp add: wf_ctrl_def)
qed

subsection \<open>Dealing a slot\<close>

definition give :: "'b fofs_lib \<Rightarrow> u64 \<times> c_float list \<Rightarrow> 'b dsp_client \<Rightarrow> 'b dsp_client" where
  "give lib e dsp = dsp\<lparr>d_fof_bank := fst (fof_add_v lib (d_fof_bank dsp) (fst e) (snd e))\<rparr>"

fun deal ::
  "'b fofs_lib \<Rightarrow> nat \<Rightarrow> nat \<Rightarrow> (u64 \<times> c_float list) list \<Rightarrow> 'b dsp_client list \<Rightarrow> 'b dsp_client list"
where
  "deal lib n i [] dsps = dsps"
| "deal lib n i (e # es) dsps = deal lib n (Suc i mod n) es (dsps[i := give lib e (dsps ! i)])"

lemma length_deal [simp]: "length (deal lib n i es dsps) = length dsps"
  by (induction es arbitrary: i dsps) auto

lemma dsp_client_add_give:
  "fst (dsp_client_add lib dsp (q_mem q ! a)) = give lib (event_at q a) dsp"
  by (simp add: dsp_client_add_def give_def event_at_def split: prod.split)

lemma dispatch_eq:
  assumes "wf_ctrl ctrl dsps" and "chain (nexts q) p xs"
    and "set xs \<subseteq> {..<length (q_mem q)}" and "i < n_clients ctrl"
  shows "dispatch lib ctrl p (of_nat i) q dsps
    = Some (of_nat ((i + length xs) mod n_clients ctrl),
            q\<lparr>q_last_fof := (if xs = [] then q_last_fof q else Some (last xs)),
              q_active_cnt := q_active_cnt q + of_nat (length xs)\<rparr>,
            deal lib (n_clients ctrl) i (map (event_at q) xs) dsps)"
  using assms
proof (induction xs arbitrary: p i q dsps)
  case Nil
  then show ?case by (subst dispatch.simps) simp
next
  case (Cons a xs)
  let ?n = "n_clients ctrl"
  let ?q = "q\<lparr>q_last_fof := Some a, q_active_cnt := q_active_cnt q + 1\<rparr>"
  let ?d = "dsps[i := give lib (event_at q a) (dsps ! i)]"
  note n = wf_ctrlD [OF Cons.prems(1)]
  have at: "dsp_at ctrl (of_nat i) dsps = Some i"
    using Cons.prems(1,4) by (simp add: dsp_at_eq)
  have "c_rem (of_nat (Suc i)) (of_nat ?n) = Some (of_nat (Suc i mod ?n))"
    using n Cons.prems(4) by (intro c_rem_of_nat) simp_all
  then have rem: "c_rem (of_nat i + 1) (c_n_clients ctrl) = Some (of_nat (Suc i mod ?n))"
    using n(4) by (simp add: add.commute)
  have m: "(length xs + Suc i mod ?n) mod ?n = Suc (i + length xs) mod ?n"
    by (metis add.commute add_Suc mod_add_left_eq)
  have wf: "wf_ctrl ctrl ?d" using Cons.prems(1) by (simp add: wf_ctrl_def)
  have IH: "dispatch lib ctrl (nexts q a) (of_nat (Suc i mod ?n)) ?q ?d
    = Some (of_nat ((Suc i mod ?n + length xs) mod ?n),
            ?q\<lparr>q_last_fof := (if xs = [] then q_last_fof ?q else Some (last xs)),
               q_active_cnt := q_active_cnt ?q + of_nat (length xs)\<rparr>,
            deal lib ?n (Suc i mod ?n) (map (event_at ?q) xs) ?d)"
    using Cons.prems n(1) by (intro Cons.IH [OF wf]) simp_all
  have "a < length (q_mem q)" using Cons.prems(3) by simp
  then have step: "dispatch lib ctrl p (of_nat i) q dsps
      = dispatch lib ctrl (nexts q a) (of_nat (Suc i mod ?n)) ?q ?d"
    using Cons.prems(2) at rem by (subst dispatch.simps) (simp add: dsp_client_add_give)
  show ?case
    unfolding step IH by (simp add: m ac_simps)
qed

subsection \<open>Playing the due slot\<close>

definition due_slot :: "fof_queue \<Rightarrow> u64 \<Rightarrow> nat" where
  "due_slot q n = unat n div buf_size q mod n_slots q"

lemma due_slot_word:
  assumes "wf_config q"
  shows "sint (int_of_u64 ((n div u64_of_int (q_buffer_size q)) AND u64_of_int (q_n_slots q - 1)))
           = int (due_slot q n)"
proof -
  from assms obtain k where k: "k < 31" "n_slots q = 2 ^ k" "u64_of_int (q_n_slots q - 1) = 2 ^ k - 1"
    "unat (u64_of_int (q_buffer_size q)) = buf_size q"
    by (rule wf_configE)
  have v: "unat ((n div u64_of_int (q_buffer_size q)) AND u64_of_int (q_n_slots q - 1)) = due_slot q n"
    unfolding k(3) unat_and_mask by (simp add: unat_div k(2,4) due_slot_def)
  have "due_slot q n < n_slots q" using wf_config_pos(1) [OF assms] by (simp add: due_slot_def)
  then have "due_slot q n < 2 ^ 31" using n_slots_less [of q] by simp
  with v show ?thesis by (simp add: sint_int_of_u64)
qed

lemma due_slot_less: "wf_config q \<Longrightarrow> due_slot q n < n_slots q"
  using wf_config_pos(1) by (simp add: due_slot_def)

text \<open>The queue after slot \<open>i\<close> was played: its cells head the free list.\<close>

definition played :: "nat list \<Rightarrow> fof_queue \<Rightarrow> nat \<Rightarrow> fof_queue \<Rightarrow> bool" where
  "played out q i q' \<longleftrightarrow> wf_held out q' \<and>
     free_list q' = slot_lists q ! i @ free_list q \<and>
     slot_lists q' = (slot_lists q)[i := []] \<and> excess_list q' = excess_list q \<and>
     event_at q' = event_at q \<and>
     q_free_cnt q' = q_free_cnt q + of_nat (length (slot_lists q ! i)) \<and>
     q_next_frame q' = q_next_frame q \<and> q_frame_stamp q' = q_frame_stamp q \<and>
     q_clock_source q' = q_clock_source q \<and> q_n_slots q' = q_n_slots q \<and>
     q_sample_rate q' = q_sample_rate q \<and> q_buffer_size q' = q_buffer_size q \<and>
     (\<forall>a\<in>set out. nexts q' a = nexts q a)"

lemma playedI:
  assumes w: "wf_held out q" and o: "owns q' (slot_lists q ! i @ free_list q) ((slot_lists q)[i := []]) (excess_list q) out"
    and r: "released (q\<lparr>q_slot := (q_slot q)[i := None]\<rparr>)
              (q'\<lparr>q_first_fof := q_first_fof q, q_last_fof := q_last_fof q, q_active_cnt := q_active_cnt q\<rparr>)
              (length (slot_lists q ! i))"
    and n: "\<forall>a\<in>set out. nexts q' a = nexts q a"
  shows "played out q i q'"
proof -
  have "wf_config q'" "cache_ok q'"
    using wf_queueD(1,2) [OF w] r by (simp_all add: released_def q_frame_def wf_config_def cache_ok_def)
  then show ?thesis
    using o r n wf_queueI [OF _ _ o] owns_lists [OF o] by (simp add: played_def released_def q_frame_def)
qed

lemma take_and_dispatch:
  fixes n :: u64
  assumes wf: "wf_held out q" and ctrl: "wf_ctrl ctrl dsps"
  defines "i \<equiv> due_slot q n" and "nc \<equiv> n_clients ctrl"
    and "slot \<equiv> int_of_u64 ((n div u64_of_int (q_buffer_size q)) AND u64_of_int (q_n_slots q - 1))"
  obtains q2 where
    "exchange_slot slot q = Some (q_slot q ! i, q\<lparr>q_slot := (q_slot q)[i := None]\<rparr>)"
    "dispatch lib ctrl (q_slot q ! i) (c_last_dsp ctrl)
        (q\<lparr>q_slot := (q_slot q)[i := None], q_first_fof := q_slot q ! i, q_active_cnt := 0\<rparr>) dsps
      = Some (of_nat ((last_dsp ctrl + length (slot_lists q ! i)) mod nc), q2,
              deal lib nc (last_dsp ctrl) (map (event_at q) (slot_lists q ! i)) dsps)"
    "q2 = q\<lparr>q_slot := (q_slot q)[i := None], q_first_fof := q_slot q ! i,
            q_last_fof := (if slot_lists q ! i = [] then q_last_fof q else Some (last (slot_lists q ! i))),
            q_active_cnt := of_nat (length (slot_lists q ! i))\<rparr>"
    "owns q2 (free_list q) ((slot_lists q)[i := []]) (excess_list q) (slot_lists q ! i @ out)"
    "chain (nexts q) (q_slot q ! i) (slot_lists q ! i)"
proof -
  note w = wf_queueD [OF wf]
  let ?xs = "slot_lists q ! i"
  let ?q1 = "q\<lparr>q_slot := (q_slot q)[i := None]\<rparr>"
  let ?q1' = "?q1\<lparr>q_first_fof := q_slot q ! i, q_active_cnt := 0\<rparr>"
  let ?q2 = "?q1'\<lparr>q_last_fof := (if ?xs = [] then q_last_fof ?q1' else Some (last ?xs)),
                   q_active_cnt := q_active_cnt ?q1' + of_nat (length ?xs)\<rparr>"
  have s: "0 \<le> sint slot" "nat (sint slot) = i" "i < length (q_slot q)"
    using due_slot_word [OF w(1), of n] due_slot_less [OF w(1), of n] w(5)
    by (simp_all add: i_def slot_def)
  have ex: "exchange_slot slot q = Some (q_slot q ! i, ?q1)"
    and o1: "owns ?q1 (free_list q) ((slot_lists q)[i := []]) (excess_list q) (?xs @ out)"
    and c1: "chain (nexts q) (q_slot q ! i) ?xs"
    using take_slot_eq [OF w(3) s(1)] s by (simp_all add: fof_queue_take_slot_def)
  have rng: "set ?xs \<subseteq> {..<length (q_mem ?q1')}" using owns_range(4) [OF o1] by simp
  have "dispatch lib ctrl (q_slot q ! i) (of_nat (last_dsp ctrl)) ?q1' dsps
      = Some (of_nat ((last_dsp ctrl + length ?xs) mod nc), ?q2,
              deal lib nc (last_dsp ctrl) (map (event_at ?q1') ?xs) dsps)"
    unfolding nc_def using ctrl c1 rng wf_ctrlD(6) [OF ctrl] by (intro dispatch_eq) simp_all
  then have d: "dispatch lib ctrl (q_slot q ! i) (c_last_dsp ctrl) ?q1' dsps
      = Some (of_nat ((last_dsp ctrl + length ?xs) mod nc), ?q2,
              deal lib nc (last_dsp ctrl) (map (event_at q) ?xs) dsps)"
    using wf_ctrlD(5) [OF ctrl] by simp
  have o2: "owns ?q2 (free_list q) ((slot_lists q)[i := []]) (excess_list q) (?xs @ out)"
    using o1 by (subst owns_cong [of ?q2 ?q1]) simp_all
  show thesis using that [of ?q2] ex d o2 c1 by simp
qed

lemma ctrl_play_slot_eq:
  fixes n :: u64
  assumes wf: "wf_held out q" and ctrl: "wf_ctrl ctrl dsps"
  defines "i \<equiv> due_slot q n" and "nc \<equiv> n_clients ctrl"
  obtains q' where
    "ctrl_play_slot lib n ctrl q dsps
       = Some (ctrl\<lparr>c_last_dsp := of_nat ((last_dsp ctrl + length (slot_lists q ! i)) mod nc)\<rparr>, q',
               deal lib nc (last_dsp ctrl) (map (event_at q) (slot_lists q ! i)) dsps)"
    "played out q i q'"
proof -
  let ?xs = "slot_lists q ! i"
  let ?ctrl = "ctrl\<lparr>c_last_dsp := of_nat ((last_dsp ctrl + length ?xs) mod nc)\<rparr>"
  let ?dsps = "deal lib nc (last_dsp ctrl) (map (event_at q) ?xs) dsps"
  obtain q2 where d: "exchange_slot (int_of_u64 ((n div u64_of_int (q_buffer_size q)) AND u64_of_int (q_n_slots q - 1))) q
      = Some (q_slot q ! i, q\<lparr>q_slot := (q_slot q)[i := None]\<rparr>)"
    "dispatch lib ctrl (q_slot q ! i) (c_last_dsp ctrl)
        (q\<lparr>q_slot := (q_slot q)[i := None], q_first_fof := q_slot q ! i, q_active_cnt := 0\<rparr>) dsps
      = Some (of_nat ((last_dsp ctrl + length ?xs) mod nc), q2, ?dsps)"
    and q2: "q2 = q\<lparr>q_slot := (q_slot q)[i := None], q_first_fof := q_slot q ! i,
            q_last_fof := (if ?xs = [] then q_last_fof q else Some (last ?xs)),
            q_active_cnt := of_nat (length ?xs)\<rparr>"
    and o2: "owns q2 (free_list q) ((slot_lists q)[i := []]) (excess_list q) (?xs @ out)"
    and c1: "chain (nexts q) (q_slot q ! i) ?xs"
    unfolding i_def nc_def using take_and_dispatch [OF wf ctrl, of n lib] by auto
  have b: "u64_of_int (q_buffer_size q) \<noteq> 0" using wf_queueD(1) [OF wf] by (rule wf_config_buffer)
  show thesis
  proof (cases ?xs rule: rev_cases)
    case Nil
    then have "q_slot q ! i = None" using c1 by simp
    with d b Nil q2 have "ctrl_play_slot lib n ctrl q dsps = Some (?ctrl, q2, ?dsps)"
      by (simp add: ctrl_play_slot_def Let_def)
    moreover have "played out q i q2"
      using o2 Nil q2 by (intro playedI [OF wf]) (simp_all add: released_def q_frame_def nexts_def)
    ultimately show thesis by (rule that)
  next
    case (snoc ys t)
    then have p: "q_slot q ! i \<noteq> None" using c1 by (cases ys) auto
    obtain q3 where q3: "fof_queue_free_fofs q2 (q_slot q ! i) (Some t) = Some q3"
      "owns q3 (ys @ t # free_list q) ((slot_lists q)[i := []]) (excess_list q) out"
      "released q2 q3 (length (ys @ [t]))" "\<forall>a\<in>set out. nexts q3 a = nexts q2 a"
      using free_fofs_owns [of q2 "free_list q" "(slot_lists q)[i := []]" "excess_list q" ys t out
          "q_slot q ! i"] o2 c1 snoc q2 by auto
    let ?q' = "q3\<lparr>q_first_fof := None, q_last_fof := None\<rparr>"
    have "ctrl_play_slot lib n ctrl q dsps = Some (?ctrl, ?q', ?dsps)"
      using d b q3(1) p snoc q2 by (simp add: ctrl_play_slot_def Let_def)
    moreover have "owns ?q' (?xs @ free_list q) ((slot_lists q)[i := []]) (excess_list q) out"
      using q3(2) snoc by (subst owns_cong [of ?q' q3]) simp_all
    then have "played out q i ?q'"
      using q3(3,4) snoc q2 by (intro playedI [OF wf]) (simp_all add: released_def q_frame_def nexts_def)
    ultimately show thesis by (rule that)
  qed
qed

subsection \<open>The whole cycle\<close>

definition sync_all :: "'b fofs_lib \<Rightarrow> u64 \<Rightarrow> nat \<Rightarrow> 'b dsp_client list \<Rightarrow> 'b dsp_client list" where
  "sync_all lib n k dsps = map (\<lambda>d. dsp_set_next_frame lib d n) (take k dsps) @ drop k dsps"

lemma sync_dsps_eq:
  assumes "wf_ctrl ctrl dsps" and "j + k = n_clients ctrl"
  shows "sync_dsps lib ctrl n k (of_nat j) (sync_all lib n j dsps) = Some (sync_all lib n (j + k) dsps)"
  using assms
proof (induction k arbitrary: j)
  case 0
  then show ?case by simp
next
  case (Suc k)
  let ?d = "sync_all lib n j dsps"
  have l: "j < length dsps" "j < n_clients ctrl" using Suc.prems wf_ctrlD(3) [OF Suc.prems(1)] by simp_all
  have at: "dsp_at ctrl (of_nat j) ?d = Some j"
    using Suc.prems(1) l by (intro dsp_at_eq) (simp_all add: sync_all_def)
  have "?d[j := dsp_set_next_frame lib (?d ! j) n] = sync_all lib n (Suc j) dsps"
    using l(1) by (simp add: sync_all_def nth_append list_update_append take_Suc_conv_app_nth
        Cons_nth_drop_Suc [symmetric])
  then show ?case
    using at Suc.IH [of "Suc j"] Suc.prems by (simp add: add.commute)
qed

lemma sync_dsps_all:
  "wf_ctrl ctrl dsps \<Longrightarrow>
   sync_dsps lib ctrl n (n_clients ctrl) 0 dsps = Some (sync_all lib n (n_clients ctrl) dsps)"
  using sync_dsps_eq [of ctrl dsps 0 "n_clients ctrl" lib n] by (simp add: sync_all_def)

lemma length_sync_all [simp]: "length (sync_all lib n k dsps) = length dsps"
  by (simp add: sync_all_def)

lemma wf_ctrl_cong:
  "c_n_clients ctrl' = c_n_clients ctrl \<Longrightarrow> c_dsp ctrl' = c_dsp ctrl \<Longrightarrow>
   c_last_dsp ctrl' = c_last_dsp ctrl \<Longrightarrow> length dsps' = length dsps \<Longrightarrow>
   wf_ctrl ctrl' dsps' = wf_ctrl ctrl dsps"
  by (simp add: wf_ctrl_def)

lemma wf_ctrl_length: "length dsps' = length dsps \<Longrightarrow> wf_ctrl ctrl dsps \<Longrightarrow> wf_ctrl ctrl dsps'"
  by (simp add: wf_ctrl_def)

lemma wf_queue_cong:
  assumes "q_mem q' = q_mem q" "q_free_fofs q' = q_free_fofs q" "q_slot q' = q_slot q"
    "q_excess q' = q_excess q" "q_n_slots q' = q_n_slots q" "q_buffer_size q' = q_buffer_size q"
    "q_current_slot q' = q_current_slot q" "q_next_frame_check q' = q_next_frame_check q"
  shows "wf_held out q' = wf_held out q" "free_list q' = free_list q" "slot_lists q' = slot_lists q"
    "excess_list q' = excess_list q" "event_at q' = event_at q"
proof -
  have n: "nexts q' = nexts q" using assms(1) by (simp add: fun_eq_iff nexts_def)
  show l: "free_list q' = free_list q" "slot_lists q' = slot_lists q" "excess_list q' = excess_list q"
    using assms n by (simp_all add: free_list_def slot_lists_def excess_list_def)
  show "event_at q' = event_at q" using assms(1) by (simp add: fun_eq_iff event_at_def)
  show "wf_held out q' = wf_held out q"
    using assms l unfolding wf_held_def
    by (simp add: wf_config_def cache_ok_def owns_cong [OF assms(1-4)])
qed

definition cycle_frame :: "ctrl_client \<Rightarrow> u64 \<Rightarrow> fof_queue \<Rightarrow> u64" where
  "cycle_frame ctrl m q =
     (if jfofs_clock_uses_transport (c_clock_source ctrl) then m else q_next_frame q)"

definition cycle_end :: "ctrl_client \<Rightarrow> jack_nframes_t \<Rightarrow> u64 \<Rightarrow> fof_queue \<Rightarrow> u64" where
  "cycle_end ctrl nframes m q =
     (if jfofs_clock_uses_transport (c_clock_source ctrl) then m else q_next_frame q + ucast nframes)"

definition cycle_dsps ::
  "'b fofs_lib \<Rightarrow> ctrl_client \<Rightarrow> u64 \<Rightarrow> 'b dsp_client list \<Rightarrow> 'b dsp_client list" where
  "cycle_dsps lib ctrl n dsps =
     (if c_syncronized ctrl = 0 \<or> jfofs_clock_uses_transport (c_clock_source ctrl)
      then sync_all lib n (n_clients ctrl) dsps else dsps)"

lemma length_cycle_dsps [simp]: "length (cycle_dsps lib ctrl n dsps) = length dsps"
  by (simp add: cycle_dsps_def)

text \<open>\<open>cycled\<close>: the queue after a cycle that played slot \<open>i\<close> and moved the clock to \<open>e\<close>.\<close>

definition cycled :: "nat list \<Rightarrow> fof_queue \<Rightarrow> nat \<Rightarrow> u64 \<Rightarrow> u64 \<Rightarrow> fof_queue \<Rightarrow> bool" where
  "cycled out q i e m q' \<longleftrightarrow> wf_held out q' \<and>
     free_list q' = slot_lists q ! i @ free_list q \<and>
     slot_lists q' = (slot_lists q)[i := []] \<and> excess_list q' = excess_list q \<and>
     event_at q' = event_at q \<and>
     q_free_cnt q' = q_free_cnt q + of_nat (length (slot_lists q ! i)) \<and>
     q_next_frame q' = e \<and> q_frame_stamp q' = m \<and>
     q_clock_source q' = q_clock_source q \<and> q_n_slots q' = q_n_slots q \<and>
     q_sample_rate q' = q_sample_rate q \<and> q_buffer_size q' = q_buffer_size q \<and>
     (\<forall>a\<in>set out. nexts q' a = nexts q a)"

lemma ctrl_advance_eq:
  fixes m :: u64
  assumes wf: "wf_held out q" and ctrl: "wf_ctrl ctrl dsps"
  defines "n \<equiv> cycle_frame ctrl m q" and "nc \<equiv> n_clients ctrl"
  defines "i \<equiv> due_slot q n"
  obtains ctrl' q' where
    "ctrl_advance lib nframes m ts ctrl q dsps
       = Some (ctrl', q', deal lib nc (last_dsp ctrl) (map (event_at q) (slot_lists q ! i))
                            (cycle_dsps lib ctrl n dsps))"
    "cycled out q i (cycle_end ctrl nframes m q) m q'"
    "ctrl' = ctrl\<lparr>c_transport_frame := m, c_transport_state := ts,
       c_syncronized := (if c_syncronized ctrl = 0 \<or> jfofs_clock_uses_transport (c_clock_source ctrl)
                         then 1 else c_syncronized ctrl),
       c_last_dsp := of_nat ((last_dsp ctrl + length (slot_lists q ! i)) mod nc)\<rparr>"
    "wf_ctrl ctrl' dsps"
proof -
  let ?q2 = "q\<lparr>q_next_frame := cycle_end ctrl nframes m q, q_frame_stamp := m\<rparr>"
  let ?ctrl1 = "ctrl\<lparr>c_transport_frame := m, c_transport_state := ts\<rparr>"
  let ?ctrl2 = "ctrl\<lparr>c_transport_frame := m, c_transport_state := ts,
       c_syncronized := (if c_syncronized ctrl = 0 \<or> jfofs_clock_uses_transport (c_clock_source ctrl)
                         then 1 else c_syncronized ctrl)\<rparr>"
  let ?dsps = "cycle_dsps lib ctrl n dsps"
  have c1: "wf_ctrl ?ctrl1 dsps" using ctrl by (subst wf_ctrl_cong) simp_all
  have c2: "wf_ctrl ?ctrl2 ?dsps" using ctrl by (subst wf_ctrl_cong) simp_all
  have q2: "wf_held out ?q2 = wf_held out q" "free_list ?q2 = free_list q" "slot_lists ?q2 = slot_lists q"
    "excess_list ?q2 = excess_list q" "event_at ?q2 = event_at q"
    by (rule wf_queue_cong; simp)+
  have i2: "due_slot ?q2 n = i" by (simp add: due_slot_def i_def)
  have w2: "wf_held out ?q2" using wf q2(1) by simp
  obtain q' where q': "ctrl_play_slot lib n ?ctrl2 ?q2 ?dsps
       = Some (?ctrl2\<lparr>c_last_dsp := of_nat ((last_dsp ?ctrl2 + length (slot_lists ?q2 ! i)) mod nc)\<rparr>, q',
               deal lib nc (last_dsp ?ctrl2) (map (event_at ?q2) (slot_lists ?q2 ! i)) ?dsps)"
    "played out ?q2 i q'"
    using ctrl_play_slot_eq [OF w2 c2, of lib n] unfolding i2 nc_def by auto
  have adv: "ctrl_advance lib nframes m ts ctrl q dsps = ctrl_play_slot lib n ?ctrl2 ?q2 ?dsps"
  proof (cases "jfofs_clock_uses_transport (c_clock_source ctrl)")
    case True
    then show ?thesis using sync_dsps_all [OF c1, of lib m]
      by (simp add: ctrl_advance_def Let_def n_def cycle_frame_def cycle_end_def cycle_dsps_def)
  next
    case False
    then show ?thesis using sync_dsps_all [OF c1, of lib "q_next_frame q"]
      by (simp add: ctrl_advance_def Let_def n_def cycle_frame_def cycle_end_def cycle_dsps_def)
  qed
  have "cycled out q i (cycle_end ctrl nframes m q) m q'"
    using q'(2) unfolding played_def q2 by (simp add: cycled_def)
  moreover have "0 < nc" "nc \<le> 8" using wf_ctrlD(1,2) [OF ctrl] by (simp_all add: nc_def)
  then have "wf_ctrl (?ctrl2\<lparr>c_last_dsp := of_nat ((last_dsp ctrl + length (slot_lists q ! i)) mod nc)\<rparr>) dsps"
    using c2 wf_ctrl_cong [of ?ctrl2 ?ctrl2 dsps ?dsps] by (intro wf_ctrl_last) (simp_all add: nc_def)
  ultimately show thesis
    using adv q'(1) unfolding q2 by (intro that) simp_all
qed

end
