(* ===== verification/Examples.thy ===== *)
theory Examples
  imports Queue_Life Ctrl_Client
begin

text \<open>
  Small concrete states on which the properties are instantiated: a setup with four slots of
  eight frames and three cells at one frame per microsecond, the queue it is initialised to, a
  control client with two dsp clients, and a fofs library whose bank records what it is given.
\<close>

definition ex_setup :: setup_t where
  "ex_setup = \<lparr>s_clock_source = 1, s_mode = 1, s_fofs_trace_level = 0, s_n_clients = 2,
     s_n_preallocate_fofs = 8, s_n_max_fofs = 3, s_n_slots = 4, s_sample_rate = 1000000,
     s_max_buffer_size = 8, s_xrun_limit = 0, s_verbose = 0\<rparr>"

definition ex_fof :: "cell_ptr \<Rightarrow> fof" where
  "ex_fof p = \<lparr>fof_next = p, time_us = 0, argv = []\<rparr>"

definition ex_raw :: fof_queue where
  "ex_raw = \<lparr>q_next_frame = 0, q_next_frame_check = 0, q_frame_stamp = 0, q_current_slot = 0,
     q_clock_source = 0, q_n_slots = 0, q_sample_rate = 0, q_buffer_size = 0, q_max_fofs = 0,
     q_free_cnt = 0, q_active_cnt = 0, q_free_fofs = Some 0, q_first_fof = None,
     q_last_fof = None, q_excess = None, q_slot = replicate 4 None,
     q_mem = replicate 3 (ex_fof None)\<rparr>"

definition ex_queue :: fof_queue where
  "ex_queue = ex_raw\<lparr>q_clock_source := 1, q_n_slots := 4, q_sample_rate := 1000000,
     q_buffer_size := 8, q_max_fofs := 3, q_free_cnt := 3,
     q_mem := [ex_fof (Some 1), ex_fof (Some 2), ex_fof None]\<rparr>"

text \<open>The queue after a fof for frame 17 was added.\<close>

definition ex_queue1 :: fof_queue where
  "ex_queue1 = ex_queue\<lparr>q_free_fofs := Some 1, q_free_cnt := 2,
     q_slot := [None, None, Some 0, None],
     q_mem := [\<lparr>fof_next = None, time_us = 17, argv = [1, 2]\<rparr>, ex_fof (Some 2), ex_fof None]\<rparr>"

definition ex_ctrl :: ctrl_client where
  "ex_ctrl = \<lparr>c_active = 1, c_clock_source = 1, c_transport_frame = 0,
     c_transport_state = JackTransportStopped, c_n_clients = 2, c_mode = 1, c_j_client = 0,
     c_port = Some 0, c_last_dsp = 0, c_n = 0, c_m = 0, c_syncronized = 0, c_xruns = 0,
     c_xrun_limit = 0, c_dsp = [Some 0, Some 1, None, None, None, None, None, None]\<rparr>"

definition ex_lib :: "(u64 \<times> c_float list) list fofs_lib" where
  "ex_lib = \<lparr>fof_add_v = (\<lambda>b t a. (b @ [(t, a)], 0)), fof_set_timeI = (\<lambda>b n. b),
     fof_timeI = (\<lambda>b. 0), fof_next_block = (\<lambda>b n buf. (b, buf)), fof_newBank = (\<lambda>r m p s. Some []),
     fof_ModeToChannels = (\<lambda>m. m)\<rparr>"

definition ex_dsp :: "'b \<Rightarrow> 'b dsp_client" where
  "ex_dsp b = \<lparr>d_n_fofs = 0, d_fof_bank = b, d_n_chans = 1, d_j_client = 0, d_in_port = 0,
     d_out_port = [1]\<rparr>"

definition ex_dsps :: "(u64 \<times> c_float list) list dsp_client list" where
  "ex_dsps = [ex_dsp [], ex_dsp []]"

definition ex_clock :: jack_clock where
  "ex_clock = \<lparr>jack_frame_time = 100, jack_transport_query = (JackTransportRolling, 24),
     jack_get_current_transport_frame = 24\<rparr>"

lemma ex_wf_setup: "wf_setup ex_setup"
  by (auto simp: wf_setup_def ex_setup_def intro!: exI [of _ "2::nat"])

lemma ex_raw_queue: "raw_queue ex_raw ex_setup"
  by (simp add: raw_queue_def ex_raw_def ex_setup_def)

lemma ex_init: "fof_queue_init ex_raw ex_setup = Some ex_queue"
  by code_simp

lemma ex_wf_queue: "wf_queue ex_queue"
proof -
  obtain q where "fof_queue_init ex_raw ex_setup = Some q" "wf_queue q"
    by (rule init_owns [OF ex_raw_queue ex_wf_setup])
  then show ?thesis by (simp add: ex_init)
qed

lemma ex_add: "fof_queue_add ex_queue 17 [1, 2] = Some (JFOFS_SUCCESS, [Incr_Slot 2], ex_queue1)"
  by code_simp

lemmas ex_defs = ex_setup_def ex_fof_def ex_raw_def ex_queue_def ex_queue1_def ex_ctrl_def
  ex_lib_def ex_dsp_def ex_dsps_def ex_clock_def

end
