(* ===== verification/Schedule.thy ===== *)
theory Schedule
  imports Ctrl_Process Examples
begin

text \<open>
  The abstract scheduler the queue implements: a clock, a ring of event lists, an overflow list
  and a count of unused cells, all on unbounded numbers and without pointers. \<open>abs_queue\<close> reads
  it out of a queue; adding, flushing and the audio cycle are shown to commute with it.
\<close>

type_synonym event = "u64 \<times> c_float list"

record sched =
  now :: nat              \<comment> \<open>first frame of the next cycle\<close>
  stride :: nat           \<comment> \<open>frames per slot\<close>
  rate :: nat             \<comment> \<open>frames per second\<close>
  ring :: "event list list"
  overflow :: "event list"
  pool :: nat             \<comment> \<open>unused cells\<close>

definition abs_queue :: "fof_queue \<Rightarrow> sched" where
  "abs_queue q = \<lparr>now = unat (q_next_frame q), stride = buf_size q,
     rate = unat (u64_of_int (q_sample_rate q)),
     ring = map (map (event_at q)) (slot_lists q), overflow = map (event_at q) (excess_list q),
     pool = length (free_list q)\<rparr>"

lemma abs_queue_simps [simp]:
  "now (abs_queue q) = unat (q_next_frame q)" "stride (abs_queue q) = buf_size q"
  "rate (abs_queue q) = unat (u64_of_int (q_sample_rate q))"
  "ring (abs_queue q) = map (map (event_at q)) (slot_lists q)"
  "overflow (abs_queue q) = map (event_at q) (excess_list q)"
  "pool (abs_queue q) = length (free_list q)"
  by (simp_all add: abs_queue_def)

subsection \<open>Adding\<close>

text \<open>The start frame of a time: the product on 64 bits, the frame number on 32.\<close>

definition spec_start :: "sched \<Rightarrow> u64 \<Rightarrow> nat" where
  "spec_start s t = unat t * rate s mod 2 ^ 64 div 1000000 mod 2 ^ 32"

definition spec_add :: "sched \<Rightarrow> event \<Rightarrow> jfofs_status \<times> sched" where
  "spec_add s e =
     (let sf = spec_start s (fst e); n = length (ring s) in
      if pool s = 0 then (JFOFS_FOF_LIMIT_ERROR, s)
      else if sf < now s then (JFOFS_FOF_LATE_WARNING, s)
      else if now s + n * stride s \<le> sf
      then (JFOFS_FOF_EXCESS_INFO, s\<lparr>overflow := e # overflow s, pool := pool s - 1\<rparr>)
      else let i = slot_of n (stride s) (now s) sf in
        (JFOFS_SUCCESS, s\<lparr>ring := (ring s)[i := e # ring s ! i], pool := pool s - 1\<rparr>))"

lemma spec_start_abs [simp]: "spec_start (abs_queue q) t = start_frame q t"
  by (simp add: spec_start_def start_frame_def jfofs_time_to_nframes_def unat_int_of_u64
      unat_div unat_word_ariths(2))

lemma abs_stored:
  assumes "stored q q' a t args" and "owns q' fs ss ex out"
  shows "abs_queue q' = (abs_queue q)\<lparr>
     ring := map (map ((event_at q)(a := (t, args)))) ss,
     overflow := map ((event_at q)(a := (t, args))) ex, pool := length fs\<rparr>"
proof -
  have "event_at q' = (event_at q)(a := (t, args))" "q_frame q' = q_frame q"
    using assms(1) by (simp_all add: stored_def)
  then show ?thesis using owns_lists [OF assms(2)]
    by (simp add: abs_queue_def q_frame_def)
qed

lemma free_cell_unused:
  assumes "owns q (a # fs) ss ex out"
  shows "map (map ((event_at q)(a := v))) ss = map (map (event_at q)) ss"
    and "map ((event_at q)(a := v)) ex = map (event_at q) ex"
    and "\<And>i. i < length ss \<Longrightarrow> map ((event_at q)(a := v)) (ss ! i) = map (event_at q) (ss ! i)"
proof -
  have a: "a \<notin> set (concat ss)" "a \<notin> set ex" using assms by (simp_all add: owns_def)
  show "map (map ((event_at q)(a := v))) ss = map (map (event_at q)) ss"
    using a(1) by (auto intro!: map_cong)
  show "map ((event_at q)(a := v)) ex = map (event_at q) ex"
    using a(2) by (auto intro!: map_cong)
  show "map ((event_at q)(a := v)) (ss ! i) = map (event_at q) (ss ! i)" if "i < length ss" for i
    using a(1) that by (auto intro!: map_cong)
qed

lemma abs_queue_cell_written:
  assumes "wf_queue q" and "free_list q = a # fs"
    and "stored q q' a t args" and "owns q' (a # fs) (slot_lists q) (excess_list q) []"
  shows "abs_queue q' = abs_queue q" and "wf_queue q'"
proof -
  have o: "owns q (a # fs) (slot_lists q) (excess_list q) []"
    using wf_queueD(3) [OF assms(1)] assms(2) by simp
  show "abs_queue q' = abs_queue q"
    using abs_stored [OF assms(3,4)] free_cell_unused [OF o] assms(2) by (simp add: abs_queue_def)
  show "wf_queue q'"
    using storedD(4,5) [OF assms(3)] wf_queueD(1) [OF assms(1)] assms(4) by (intro wf_queueI) simp_all
qed

text \<open>The statistics a call emits, by its status; the slot counter gets the distance in slots.\<close>

definition add_events :: "sched \<Rightarrow> event \<Rightarrow> jfofs_status \<Rightarrow> stat_event list" where
  "add_events s e st =
     (if st = JFOFS_SUCCESS then [Incr_Slot (of_nat ((spec_start s (fst e) - now s) div stride s))]
      else if st = JFOFS_FOF_EXCESS_INFO then [Incr_Excess]
      else if st = JFOFS_FOF_LATE_WARNING then [Incr_Late] else [])"

lemma sint_eq_of_nat: "sint x = int n \<Longrightarrow> x = (of_nat n :: c_int)"
  by (metis of_nat_sint nat_int of_nat_0_le_iff)

lemma add_refines_slot:
  assumes wf: "wf_queue q" and fs: "free_list q = a # fs" and w: "in_window q (start_frame q t)"
  obtains q' where
    "fof_queue_add q t args = Some (JFOFS_SUCCESS, add_events (abs_queue q) (t, args) JFOFS_SUCCESS, q')"
    "wf_queue q'" "spec_add (abs_queue q) (t, args) = (JFOFS_SUCCESS, abs_queue q')"
    "q_frame q' = q_frame q" "free_list q' = fs"
proof -
  note wfd = wf_queueD [OF wf]
  let ?i = "target_slot q (start_frame q t)"
  let ?ss = "(slot_lists q)[?i := a # slot_lists q ! ?i]"
  have o: "owns q (a # fs) (slot_lists q) (excess_list q) []" using wfd(3) fs by simp
  obtain q' idx where r: "fof_queue_add q t args = Some (JFOFS_SUCCESS, [Incr_Slot idx], q')"
    "sint idx = int ((start_frame q t - unat (q_next_frame q)) div buf_size q)" "?i < n_slots q"
    "owns q' fs ?ss (excess_list q) []" "stored q q' a t args"
    by (rule fof_queue_add_slot [OF o wfd(1,2) w])
  have "abs_queue q' = (abs_queue q)\<lparr>
      ring := (map (map (event_at q)) (slot_lists q))[?i := (t, args) # map (event_at q) (slot_lists q ! ?i)],
      pool := length fs\<rparr>"
    using abs_stored [OF r(5,4)] free_cell_unused [OF o] r(3) wfd(4)
    by (simp add: map_update abs_queue_def)
  then have "spec_add (abs_queue q) (t, args) = (JFOFS_SUCCESS, abs_queue q')"
    using w r(3) wfd(4) fs by (simp add: spec_add_def in_window_def target_slot_def Let_def)
  moreover have "wf_queue q'"
    using storedD(4,5) [OF r(5)] wfd(1) r(4) by (intro wf_queueI) simp_all
  moreover have "add_events (abs_queue q) (t, args) JFOFS_SUCCESS = [Incr_Slot idx]"
    using sint_eq_of_nat [OF r(2)] by (simp add: add_events_def)
  ultimately show thesis
    using that r(1) storedD(7) [OF r(5)] owns_lists(1) [OF r(4)] by simp
qed

lemma add_refines_excess:
  assumes wf: "wf_queue q" and fs: "free_list q = a # fs"
    and w: "unat (q_next_frame q) + n_slots q * buf_size q \<le> start_frame q t"
  obtains q' where
    "fof_queue_add q t args = Some (JFOFS_FOF_EXCESS_INFO, [Incr_Excess], q')"
    "wf_queue q'" "spec_add (abs_queue q) (t, args) = (JFOFS_FOF_EXCESS_INFO, abs_queue q')"
    "q_frame q' = q_frame q" "free_list q' = fs"
proof -
  note wfd = wf_queueD [OF wf]
  have o: "owns q (a # fs) (slot_lists q) (excess_list q) []" using wfd(3) fs by simp
  obtain q' where r: "fof_queue_add q t args = Some (JFOFS_FOF_EXCESS_INFO, [Incr_Excess], q')"
    "owns q' fs (slot_lists q) (a # excess_list q) []" "stored q q' a t args"
    by (rule fof_queue_add_excess [OF o wfd(1,2) w])
  have "abs_queue q' = (abs_queue q)\<lparr>overflow := (t, args) # map (event_at q) (excess_list q),
      pool := length fs\<rparr>"
    using abs_stored [OF r(3,2)] free_cell_unused [OF o] by (simp add: abs_queue_def)
  then have "spec_add (abs_queue q) (t, args) = (JFOFS_FOF_EXCESS_INFO, abs_queue q')"
    using w wfd(4) fs by (simp add: spec_add_def Let_def)
  moreover have "wf_queue q'"
    using storedD(4,5) [OF r(3)] wfd(1) r(2) by (intro wf_queueI) simp_all
  ultimately show thesis
    using that r(1) storedD(7) [OF r(3)] owns_lists(1) [OF r(2)] by simp
qed

lemma add_refines_late:
  assumes wf: "wf_queue q" and fs: "free_list q = a # fs"
    and w: "start_frame q t < unat (q_next_frame q)"
  obtains q' where
    "fof_queue_add q t args = Some (JFOFS_FOF_LATE_WARNING, [Incr_Late], q')"
    "wf_queue q'" "spec_add (abs_queue q) (t, args) = (JFOFS_FOF_LATE_WARNING, abs_queue q')"
    "q_frame q' = q_frame q" "free_list q' = free_list q"
proof -
  note wfd = wf_queueD [OF wf]
  have o: "owns q (a # fs) (slot_lists q) (excess_list q) []" using wfd(3) fs by simp
  obtain q' where r: "fof_queue_add q t args = Some (JFOFS_FOF_LATE_WARNING, [Incr_Late], q')"
    "owns q' (a # fs) (slot_lists q) (excess_list q) []" "stored q q' a t args"
    by (rule fof_queue_add_late [OF o wfd(2) w])
  have "spec_add (abs_queue q) (t, args) = (JFOFS_FOF_LATE_WARNING, abs_queue q')"
    using w fs abs_queue_cell_written(1) [OF wf fs r(3,2)] by (simp add: spec_add_def Let_def)
  then show thesis
    using that r(1) abs_queue_cell_written(2) [OF wf fs r(3,2)] storedD(7) [OF r(3)]
      owns_lists(1) [OF r(2)] fs by simp
qed

lemma add_refines:
  assumes "wf_queue q"
  obtains st q' where "fof_queue_add q t args = Some (st, add_events (abs_queue q) (t, args) st, q')"
    "wf_queue q'" "spec_add (abs_queue q) (t, args) = (st, abs_queue q')" "q_frame q' = q_frame q"
proof (cases "free_list q")
  case Nil
  then have o: "owns q [] (slot_lists q) (excess_list q) []" using wf_queueD(3) [OF assms] by simp
  have "spec_add (abs_queue q) (t, args) = (JFOFS_FOF_LIMIT_ERROR, abs_queue q)"
    using Nil by (simp add: spec_add_def Let_def)
  then show thesis
    using fof_queue_add_limit [OF o] assms that by (simp add: add_events_def)
next
  case (Cons a fs)
  consider "start_frame q t < unat (q_next_frame q)"
    | "unat (q_next_frame q) + n_slots q * buf_size q \<le> start_frame q t"
    | "in_window q (start_frame q t)"
    by (fastforce simp: in_window_def)
  then show thesis
  proof cases
    case 1
    from add_refines_late [OF assms Cons 1, of args] show thesis
      using that [of JFOFS_FOF_LATE_WARNING] by (auto simp: add_events_def)
  next
    case 2
    from add_refines_excess [OF assms Cons 2, of args] show thesis
      using that [of JFOFS_FOF_EXCESS_INFO] by (auto simp: add_events_def)
  next
    case 3
    from add_refines_slot [OF assms Cons 3, of args] show thesis
      using that [of JFOFS_SUCCESS] by auto
  qed
qed

subsection \<open>Flushing\<close>

definition spec_flush :: "sched \<Rightarrow> sched" where
  "spec_flush s = s\<lparr>ring := replicate (length (ring s)) [], overflow := [],
     pool := pool s + length (concat (ring s)) + length (overflow s)\<rparr>"

lemma length_concat_map_map: "length (concat (map (map f) xss)) = length (concat xss)"
  by (induction xss) auto

lemma length_concat_rev: "length (concat (rev xss)) = length (concat xss)"
  by (induction xss) auto

lemma flush_refines:
  assumes "wf_queue q"
  obtains q' where "fof_queue_flush q = Some q'" "wf_queue q'"
    "abs_queue q' = spec_flush (abs_queue q)" "flushed q q'"
proof -
  obtain q' where r: "fof_queue_flush q = Some q'"
    "owns q' (excess_list q @ concat (rev (slot_lists q)) @ free_list q)
        (replicate (n_slots q) []) [] []" "wf_queue q'" "flushed q q'"
    by (rule flush_owns [OF assms])
  have "abs_queue q' = spec_flush (abs_queue q)"
    using r(4) owns_lists [OF r(2)] wf_queueD(4) [OF assms]
    by (simp add: abs_queue_def spec_flush_def flushed_def q_frame_def length_concat_map_map
        length_concat_rev)
  with r that show thesis by blast
qed

subsection \<open>The audio cycle\<close>

text \<open>A cycle that plays the slot of frame \<open>n\<close> and sets the clock to \<open>e\<close>.\<close>

definition spec_due :: "sched \<Rightarrow> nat \<Rightarrow> nat" where
  "spec_due s n = n div stride s mod length (ring s)"

definition spec_cycle :: "sched \<Rightarrow> nat \<Rightarrow> nat \<Rightarrow> event list \<times> sched" where
  "spec_cycle s n e =
     (let i = spec_due s n in
      (ring s ! i,
       s\<lparr>now := e, ring := (ring s)[i := []], pool := pool s + length (ring s ! i)\<rparr>))"

lemma cycled_refines:
  assumes "wf_held out q" and "cycled out q (due_slot q n) e m q'"
  shows "spec_cycle (abs_queue q) (unat n) (unat e)
           = (map (event_at q) (slot_lists q ! due_slot q n), abs_queue q')"
proof -
  note w = wf_queueD [OF assms(1)]
  have i: "spec_due (abs_queue q) (unat n) = due_slot q n"
    using w(4) by (simp add: spec_due_def due_slot_def)
  have "due_slot q n < length (slot_lists q)" using due_slot_less [OF w(1)] w(4) by simp
  then show ?thesis
    using assms(2) by (simp add: spec_cycle_def i [unfolded abs_queue_def] Let_def abs_queue_def cycled_def map_update)
qed

subsection \<open>Cells\<close>

text \<open>The cells of a scheduler: unused, in the ring, or in the overflow list.\<close>

definition n_cells :: "sched \<Rightarrow> nat" where
  "n_cells s = pool s + length (concat (ring s)) + length (overflow s)"

lemma length_concat_update:
  "i < length xss \<Longrightarrow> length (concat (xss[i := ys])) + length (xss ! i) = length (concat xss) + length ys"
  unfolding concat_update_split by simp

lemma n_cells_flush [simp]: "n_cells (spec_flush s) = n_cells s"
  by (simp add: n_cells_def spec_flush_def)

lemma n_cells_now: "n_cells (s\<lparr>now := e\<rparr>) = n_cells s"
  by (simp add: n_cells_def)

lemma n_cells_cycle:
  assumes "spec_cycle s n e = (evs, s')" and "ring s \<noteq> []"
  shows "n_cells s' = n_cells s"
proof -
  have "spec_due s n < length (ring s)" using assms(2) by (simp add: spec_due_def)
  from length_concat_update [OF this, of "[]"] assms(1) show ?thesis
    by (auto simp: n_cells_def spec_cycle_def Let_def)
qed

lemma ring_abs_nonempty: "wf_held out q \<Longrightarrow> ring (abs_queue q) \<noteq> []"
  using wf_queueD(4) [of out q] wf_config_pos(1) [OF wf_queueD(1), of out q] by auto

lemma n_cells_abs: "wf_queue q \<Longrightarrow> n_cells (abs_queue q) = length (q_mem q)"
  using owns_count [OF wf_queueD(3), of "[]" q] by (simp add: n_cells_def length_concat_map_map)

subsection \<open>The properties of the queue operations\<close>

text \<open>
  C4: adding a fof to a well-formed queue always returns, with the status, the statistics and
  the queue the abstract scheduler prescribes: out of cells, late, beyond the ring, or stored in
  the slot of its start frame. The queue stays well formed and its clock and configuration are
  untouched.
\<close>

theorem fof_queue_add_refines:
  assumes "wf_queue q"
  shows "\<exists>st q'. fof_queue_add q t args = Some (st, add_events (abs_queue q) (t, args) st, q') \<and>
    wf_queue q' \<and> spec_add (abs_queue q) (t, args) = (st, abs_queue q') \<and> q_frame q' = q_frame q"
  by (rule add_refines [OF assms, of t args]) blast

theorem fof_queue_add_refines_witness:
  "\<exists>st q'. fof_queue_add ex_queue 17 [1, 2]
      = Some (st, add_events (abs_queue ex_queue) (17, [1, 2]) st, q') \<and>
    wf_queue q' \<and> spec_add (abs_queue ex_queue) (17, [1, 2]) = (st, abs_queue q') \<and>
    q_frame q' = q_frame ex_queue"
  by (rule fof_queue_add_refines [OF ex_wf_queue])

text \<open>
  Flushing a well-formed queue always returns; every slot and the excess list are empty
  afterwards and all their cells are free again, while the clock and the configuration stay.
\<close>

theorem fof_queue_flush_refines:
  assumes "wf_queue q"
  shows "\<exists>q'. fof_queue_flush q = Some q' \<and> wf_queue q' \<and> abs_queue q' = spec_flush (abs_queue q) \<and>
    length (free_list q') = length (q_mem q') \<and> length (q_mem q') = length (q_mem q)"
proof -
  obtain q' where r: "fof_queue_flush q = Some q'" "wf_queue q'"
    "abs_queue q' = spec_flush (abs_queue q)" "flushed q q'"
    by (rule flush_refines [OF assms])
  have m: "length (q_mem q') = length (q_mem q)" using r(4) by (simp add: flushed_def q_frame_def)
  have "length (free_list q') = pool (abs_queue q')" by simp
  also have "\<dots> = length (q_mem q)"
    unfolding r(3) using owns_count [OF wf_queueD(3) [OF assms]]
    by (simp add: spec_flush_def length_concat_map_map)
  finally have "length (free_list q') = length (q_mem q)" .
  with r m show ?thesis by simp
qed

theorem fof_queue_flush_refines_witness:
  "\<exists>q'. fof_queue_flush ex_queue = Some q' \<and> wf_queue q' \<and>
    abs_queue q' = spec_flush (abs_queue ex_queue) \<and>
    length (free_list q') = length (q_mem q') \<and> length (q_mem q') = length (q_mem ex_queue)"
  by (rule fof_queue_flush_refines [OF ex_wf_queue])

text \<open>
  C19: initialising the raw memory of the shared segment with a power of two of slots and at
  least one cell makes a well-formed queue at frame zero, whose free list holds every cell in
  the order of the array and whose slots are empty.
\<close>

theorem fof_queue_init_wf:
  assumes "raw_queue q setup" and "wf_setup setup"
  shows "\<exists>q'. fof_queue_init q setup = Some q' \<and> wf_queue q' \<and> initialised setup q' \<and>
    free_list q' = [0..<nat (sint (s_n_max_fofs setup))] \<and>
    slot_lists q' = replicate (nat (sint (s_n_slots setup))) [] \<and> excess_list q' = []"
  by (rule init_owns [OF assms]) (auto dest: owns_lists)

theorem fof_queue_init_wf_witness:
  "\<exists>q'. fof_queue_init ex_raw ex_setup = Some q' \<and> wf_queue q' \<and> initialised ex_setup q' \<and>
    free_list q' = [0..<nat (sint (s_n_max_fofs ex_setup))] \<and>
    slot_lists q' = replicate (nat (sint (s_n_slots ex_setup))) [] \<and> excess_list q' = []"
  by (rule fof_queue_init_wf [OF ex_raw_queue ex_wf_setup])

end
