(* ===== verification/Cycle.thy ===== *)
theory Cycle
  imports Schedule
begin

text \<open>
  The process callback of the control client as a whole: in steady state it plays the due slot
  of the abstract scheduler, after a clock change or a transport jump it drops everything
  queued. It always returns, and keeps the queue and the client well formed.
\<close>

subsection \<open>When a cycle drops what is queued\<close>

definition resync_due :: "jack_clock \<Rightarrow> jack_nframes_t \<Rightarrow> ctrl_client \<Rightarrow> fof_queue \<Rightarrow> bool" where
  "resync_due clk nframes ctrl q \<longleftrightarrow>
     ctrl_current_clock_source q \<noteq> c_clock_source ctrl \<or>
     (case get_framestamp clk (c_clock_source ctrl) of
        (m, ts) \<Rightarrow> ctrl_transport_discontinuity ctrl nframes ts m)"

lemma process_cb_inactive:
  "c_active ctrl = 0 \<Longrightarrow> ctrl_client_process_cb lib clk nframes ctrl q dsps = Some (ctrl, q, dsps)"
  by (simp add: ctrl_client_process_cb_def)

lemma process_cb_steady_advance:
  assumes "c_active ctrl \<noteq> 0" and "\<not> resync_due clk nframes ctrl q"
    and "get_framestamp clk (c_clock_source ctrl) = (m, ts)"
  shows "ctrl_client_process_cb lib clk nframes ctrl q dsps
           = ctrl_advance lib nframes m ts ctrl q dsps"
  using assms by (simp add: ctrl_client_process_cb_def resync_due_def ctrl_resync_def Let_def)

lemma process_cb_resync_advance:
  assumes "c_active ctrl \<noteq> 0" and "resync_due clk nframes ctrl q"
    and "get_framestamp clk (ctrl_current_clock_source q) = (m, ts)"
    and "fof_queue_flush q = Some q1"
  shows "ctrl_client_process_cb lib clk nframes ctrl q dsps
           = ctrl_advance lib nframes m ts
               (ctrl\<lparr>c_clock_source := ctrl_current_clock_source q, c_syncronized := 0\<rparr>) q1 dsps"
proof (cases "ctrl_current_clock_source q = c_clock_source ctrl")
  case True
  moreover have "ctrl\<lparr>c_clock_source := c_clock_source ctrl\<rparr> = ctrl" by simp
  ultimately show ?thesis
    using assms by (simp add: ctrl_client_process_cb_def resync_due_def ctrl_resync_def Let_def)
next
  case False
  then show ?thesis
    using assms by (simp add: ctrl_client_process_cb_def ctrl_resync_def Let_def
        ctrl_transport_discontinuity_def)
qed

subsection \<open>The steady cycle\<close>

lemma process_cb_steady:
  assumes "wf_held out q" and "wf_ctrl ctrl dsps" and "c_active ctrl \<noteq> 0"
    and "\<not> resync_due clk nframes ctrl q"
    and m: "get_framestamp clk (c_clock_source ctrl) = (m, ts)"
  defines "n \<equiv> cycle_frame ctrl m q"
  obtains ctrl' q' evs where
    "spec_cycle (abs_queue q) (unat n) (unat (cycle_end ctrl nframes m q)) = (evs, abs_queue q')"
    "ctrl_client_process_cb lib clk nframes ctrl q dsps
       = Some (ctrl', q', deal lib (n_clients ctrl) (last_dsp ctrl) evs (cycle_dsps lib ctrl n dsps))"
    "wf_held out q'" "wf_ctrl ctrl' dsps"
    "cycled out q (due_slot q n) (cycle_end ctrl nframes m q) m q'"
    "ctrl' = ctrl\<lparr>c_transport_frame := m, c_transport_state := ts,
       c_syncronized := (if c_syncronized ctrl = 0 \<or> jfofs_clock_uses_transport (c_clock_source ctrl)
                         then 1 else c_syncronized ctrl),
       c_last_dsp := of_nat ((last_dsp ctrl + length evs) mod n_clients ctrl)\<rparr>"
proof -
  obtain ctrl' q' where r: "ctrl_advance lib nframes m ts ctrl q dsps
       = Some (ctrl', q', deal lib (n_clients ctrl) (last_dsp ctrl)
                            (map (event_at q) (slot_lists q ! due_slot q n))
                            (cycle_dsps lib ctrl n dsps))"
    "cycled out q (due_slot q n) (cycle_end ctrl nframes m q) m q'" "wf_ctrl ctrl' dsps"
    "ctrl' = ctrl\<lparr>c_transport_frame := m, c_transport_state := ts,
       c_syncronized := (if c_syncronized ctrl = 0 \<or> jfofs_clock_uses_transport (c_clock_source ctrl)
                         then 1 else c_syncronized ctrl),
       c_last_dsp := of_nat ((last_dsp ctrl + length (slot_lists q ! due_slot q n)) mod n_clients ctrl)\<rparr>"
    unfolding n_def using ctrl_advance_eq [OF assms(1,2), of lib nframes m ts] by blast
  show thesis
  proof (rule that)
    show "ctrl_client_process_cb lib clk nframes ctrl q dsps
       = Some (ctrl', q', deal lib (n_clients ctrl) (last_dsp ctrl)
                            (map (event_at q) (slot_lists q ! due_slot q n))
                            (cycle_dsps lib ctrl n dsps))"
      using process_cb_steady_advance [OF assms(3,4) m, of lib dsps] r(1) by simp
  qed (use r cycled_refines [OF assms(1) r(2)] in \<open>simp_all add: cycled_def\<close>)
qed

subsection \<open>The cycle after a clock change or a transport jump\<close>

text \<open>Nothing is queued after the flush, so the cycle that follows deals nothing.\<close>

lemma advance_after_flush:
  assumes "wf_queue q1" and "slot_lists q1 = replicate (n_slots q1) []"
    and "wf_ctrl ctrl dsps" and "c_syncronized ctrl = 0"
  obtains ctrl' q' where
    "ctrl_advance lib nframes m ts ctrl q1 dsps
       = Some (ctrl', q', sync_all lib (cycle_frame ctrl m q1) (n_clients ctrl) dsps)"
    "cycled [] q1 (due_slot q1 (cycle_frame ctrl m q1)) (cycle_end ctrl nframes m q1) m q'" "wf_ctrl ctrl' dsps"
    "ctrl' = ctrl\<lparr>c_transport_frame := m, c_transport_state := ts, c_syncronized := 1\<rparr>"
proof -
  let ?i = "due_slot q1 (cycle_frame ctrl m q1)"
  obtain ctrl' q' where r: "ctrl_advance lib nframes m ts ctrl q1 dsps
       = Some (ctrl', q', deal lib (n_clients ctrl) (last_dsp ctrl) (map (event_at q1) (slot_lists q1 ! ?i))
                            (cycle_dsps lib ctrl (cycle_frame ctrl m q1) dsps))"
    "cycled [] q1 ?i (cycle_end ctrl nframes m q1) m q'" "wf_ctrl ctrl' dsps"
    "ctrl' = ctrl\<lparr>c_transport_frame := m, c_transport_state := ts, c_syncronized := 1,
       c_last_dsp := of_nat ((last_dsp ctrl + length (slot_lists q1 ! ?i)) mod n_clients ctrl)\<rparr>"
    using ctrl_advance_eq [OF assms(1,3), of lib nframes m ts, unfolded assms(4) simp_thms if_True] by blast
  have empty: "slot_lists q1 ! ?i = []" using due_slot_less [OF wf_queueD(1) [OF assms(1)]] assms(2) by simp
  have l: "of_nat (last_dsp ctrl mod n_clients ctrl) = c_last_dsp ctrl"
    using wf_ctrlD(5,6) [OF assms(3)] by simp
  show thesis
  proof (rule that [OF _ r(2,3)])
    show "ctrl_advance lib nframes m ts ctrl q1 dsps
       = Some (ctrl', q', sync_all lib (cycle_frame ctrl m q1) (n_clients ctrl) dsps)"
      using r(1) empty assms(4) by (simp add: cycle_dsps_def)
    show "ctrl' = ctrl\<lparr>c_transport_frame := m, c_transport_state := ts, c_syncronized := 1\<rparr>"
      using r(4) empty l by simp
  qed
qed

lemma process_cb_resync:
  assumes wf: "wf_queue q" and "wf_ctrl ctrl dsps" and "c_active ctrl \<noteq> 0"
    and "resync_due clk nframes ctrl q"
    and m: "get_framestamp clk (ctrl_current_clock_source q) = (m, ts)"
  defines "ctrl1 \<equiv> ctrl\<lparr>c_clock_source := ctrl_current_clock_source q, c_syncronized := 0\<rparr>"
  obtains ctrl' q' where
    "abs_queue q' = (spec_flush (abs_queue q))\<lparr>now := unat (cycle_end ctrl1 nframes m q)\<rparr>"
    "ctrl_client_process_cb lib clk nframes ctrl q dsps
       = Some (ctrl', q', sync_all lib (cycle_frame ctrl1 m q) (n_clients ctrl) dsps)"
    "wf_queue q'" "wf_ctrl ctrl' dsps" "q_frame_stamp q' = m" "q_clock_source q' = q_clock_source q"
    "ctrl' = ctrl1\<lparr>c_transport_frame := m, c_transport_state := ts, c_syncronized := 1\<rparr>"
proof -
  obtain q1 where q1: "fof_queue_flush q = Some q1"
    "owns q1 (excess_list q @ concat (rev (slot_lists q)) @ free_list q)
        (replicate (n_slots q) []) [] []" "wf_queue q1" "flushed q q1"
    by (rule flush_owns [OF wf])
  have f: "q_next_frame q1 = q_next_frame q" "q_clock_source q1 = q_clock_source q"
    "slot_lists q1 = replicate (n_slots q1) []"
    using q1(4) owns_lists(2) [OF q1(2)] by (simp_all add: flushed_def q_frame_def)
  have c1: "wf_ctrl ctrl1 dsps" using assms(2) unfolding ctrl1_def by (subst wf_ctrl_cong) simp_all
  have e: "cycle_frame ctrl1 m q1 = cycle_frame ctrl1 m q"
    "cycle_end ctrl1 nframes m q1 = cycle_end ctrl1 nframes m q"
    using f(1) by (simp_all add: cycle_frame_def cycle_end_def)
  have s0: "c_syncronized ctrl1 = 0" "n_clients ctrl1 = n_clients ctrl" by (simp_all add: ctrl1_def)
  obtain ctrl' q' where r: "ctrl_advance lib nframes m ts ctrl1 q1 dsps
       = Some (ctrl', q', sync_all lib (cycle_frame ctrl1 m q) (n_clients ctrl) dsps)"
    "cycled [] q1 (due_slot q1 (cycle_frame ctrl1 m q)) (cycle_end ctrl1 nframes m q) m q'" "wf_ctrl ctrl' dsps"
    "ctrl' = ctrl1\<lparr>c_transport_frame := m, c_transport_state := ts, c_syncronized := 1\<rparr>"
    by (rule advance_after_flush [OF q1(3) f(3) c1 s0(1), where lib = lib and nframes = nframes and m = m and ts = ts,
          unfolded e s0(2)])
  have "abs_queue q' = snd (spec_cycle (abs_queue q1) (unat (cycle_frame ctrl1 m q))
      (unat (cycle_end ctrl1 nframes m q)))"
    using cycled_refines [OF q1(3) r(2)] by simp
  moreover have "abs_queue q1 = spec_flush (abs_queue q)"
    using flush_refines [OF wf] q1(1) by auto
  ultimately have "abs_queue q' = (spec_flush (abs_queue q))\<lparr>now := unat (cycle_end ctrl1 nframes m q)\<rparr>"
    using wf_config_pos(1) [OF wf_queueD(1) [OF wf]] wf_queueD(4) [OF wf]
    by (simp add: spec_cycle_def Let_def spec_flush_def spec_due_def)
  moreover have "ctrl_client_process_cb lib clk nframes ctrl q dsps
      = Some (ctrl', q', sync_all lib (cycle_frame ctrl1 m q) (n_clients ctrl) dsps)"
    using process_cb_resync_advance [OF assms(3,4) m q1(1), of lib dsps] r(1)
    unfolding ctrl1_def [symmetric] by simp
  ultimately show thesis
    using r(2-4) f(2) that by (simp add: cycled_def)
qed

lemma process_cb_total:
  assumes "wf_queue q" and "wf_ctrl ctrl dsps"
  obtains ctrl' q' dsps' where
    "ctrl_client_process_cb lib clk nframes ctrl q dsps = Some (ctrl', q', dsps')"
    "wf_queue q'" "wf_ctrl ctrl' dsps'" "c_active ctrl' = c_active ctrl"
    "length dsps' = length dsps" "q_clock_source q' = q_clock_source q"
    "length (q_mem q') = length (q_mem q)" "n_slots q' = n_slots q"
proof (cases "c_active ctrl = 0")
  case True
  then show thesis using assms that process_cb_inactive by blast
next
  case False
  note active = False
  show thesis
  proof (cases "resync_due clk nframes ctrl q")
    case True
    obtain m ts where m: "get_framestamp clk (ctrl_current_clock_source q) = (m, ts)" by fastforce
    obtain ctrl' q' where r: "ctrl_client_process_cb lib clk nframes ctrl q dsps = Some (ctrl', q',
        sync_all lib (cycle_frame (ctrl\<lparr>c_clock_source := ctrl_current_clock_source q, c_syncronized := 0\<rparr>) m q)
          (n_clients ctrl) dsps)"
      "wf_queue q'" "wf_ctrl ctrl' dsps" "q_clock_source q' = q_clock_source q" "c_active ctrl' = c_active ctrl"
      "n_cells (abs_queue q') = n_cells (abs_queue q)" "\<exists>e. abs_queue q' = (spec_flush (abs_queue q))\<lparr>now := e\<rparr>"
      by (rule process_cb_resync [OF assms active True m, of lib]) (auto simp: n_cells_now)
    obtain e where "abs_queue q' = (spec_flush (abs_queue q))\<lparr>now := e\<rparr>" using r(7) by blast
    from arg_cong [OF this, of "\<lambda>s. length (ring s)"] have "n_slots q' = n_slots q"
      using wf_queueD(4) [OF r(2)] wf_queueD(4) [OF assms(1)] by (simp add: spec_flush_def)
    then show thesis
      using that [OF r(1,2) wf_ctrl_length [OF _ r(3)] r(5) _ r(4)] r(6)
      by (simp add: n_cells_abs r(2) assms(1))
  next
    case False
    obtain m ts where m: "get_framestamp clk (c_clock_source ctrl) = (m, ts)" by fastforce
    obtain ctrl' q' evs where r: "ctrl_client_process_cb lib clk nframes ctrl q dsps = Some (ctrl', q',
        deal lib (n_clients ctrl) (last_dsp ctrl) evs (cycle_dsps lib ctrl (cycle_frame ctrl m q) dsps))"
      "wf_queue q'" "wf_ctrl ctrl' dsps" "q_clock_source q' = q_clock_source q" "c_active ctrl' = c_active ctrl"
      "spec_cycle (abs_queue q) (unat (cycle_frame ctrl m q)) (unat (cycle_end ctrl nframes m q))
         = (evs, abs_queue q')" "n_slots q' = n_slots q"
      by (rule process_cb_steady [OF assms active False m, of lib]) (auto simp: cycled_def)
    show thesis
      using that [OF r(1,2) wf_ctrl_length [OF _ r(3)] r(5) _ r(4)]
        n_cells_cycle [OF r(6) ring_abs_nonempty [OF assms(1)]] r(7)
      by (simp add: n_cells_abs r(2) assms(1))
  qed
qed

subsection \<open>The properties of the process callback\<close>

lemma ex_wf_ctrl: "wf_ctrl ex_ctrl ex_dsps"
proof -
  have "[Some 0, Some 1, None, None, None, None, None, None] ! i = Some i" if "i < 2" for i :: nat
    using that by (cases i) auto
  then show ?thesis by (simp add: wf_ctrl_def ex_defs)
qed

lemma ex_steady: "\<not> resync_due ex_clock 8 ex_ctrl ex_queue1"
  by code_simp

lemma ex_wf_queue1: "wf_queue ex_queue1"
  using add_refines [OF ex_wf_queue, of 17 "[1, 2]"] by (auto simp: ex_add)

text \<open>
  C5: in steady state one audio cycle returns, plays exactly the events of the due slot of the
  abstract scheduler, deals them round robin to the dsp clients, frees their cells and moves
  the clock: by the length of the cycle with JACK's frame time, to the transport's frame with
  JACK's transport.
\<close>

theorem process_cb_plays_due_slot:
  assumes "wf_queue q" and "wf_ctrl ctrl dsps" and "c_active ctrl \<noteq> 0"
    and "\<not> resync_due clk nframes ctrl q"
    and "get_framestamp clk (c_clock_source ctrl) = (m, ts)"
  shows "\<exists>ctrl' q' evs.
    spec_cycle (abs_queue q) (unat (cycle_frame ctrl m q)) (unat (cycle_end ctrl nframes m q))
      = (evs, abs_queue q') \<and>
    ctrl_client_process_cb lib clk nframes ctrl q dsps
      = Some (ctrl', q', deal lib (n_clients ctrl) (last_dsp ctrl) evs
                           (cycle_dsps lib ctrl (cycle_frame ctrl m q) dsps)) \<and>
    wf_queue q' \<and> wf_ctrl ctrl' dsps \<and> q_frame_stamp q' = m \<and>
    last_dsp ctrl' = (last_dsp ctrl + length evs) mod n_clients ctrl"
proof -
  have l: "nat (sint (of_nat (k mod n_clients ctrl) :: c_int)) = k mod n_clients ctrl" for k
  proof -
    have "k mod n_clients ctrl < 2 ^ 31"
      using mod_less_divisor [OF wf_ctrlD(1) [OF assms(2)], of k]
      by (rule less_le_trans) (use wf_ctrlD(2) [OF assms(2)] in simp)
    then show ?thesis by (simp add: sint_of_nat)
  qed
  show ?thesis
    by (rule process_cb_steady [OF assms, of lib]) (auto simp: cycled_def l)
qed

theorem process_cb_plays_due_slot_witness:
  "\<exists>ctrl' q' evs.
    spec_cycle (abs_queue ex_queue1) (unat (cycle_frame ex_ctrl 100 ex_queue1))
        (unat (cycle_end ex_ctrl 8 100 ex_queue1))
      = (evs, abs_queue q') \<and>
    ctrl_client_process_cb ex_lib ex_clock 8 ex_ctrl ex_queue1 ex_dsps
      = Some (ctrl', q', deal ex_lib (n_clients ex_ctrl) (last_dsp ex_ctrl) evs
                           (cycle_dsps ex_lib ex_ctrl (cycle_frame ex_ctrl 100 ex_queue1) ex_dsps)) \<and>
    wf_queue q' \<and> wf_ctrl ctrl' ex_dsps \<and> q_frame_stamp q' = 100 \<and>
    last_dsp ctrl' = (last_dsp ex_ctrl + length evs) mod n_clients ex_ctrl"
proof (rule process_cb_plays_due_slot [OF ex_wf_queue1 ex_wf_ctrl _ ex_steady])
  show "c_active ex_ctrl \<noteq> 0" by (simp add: ex_ctrl_def)
  show "get_framestamp ex_clock (c_clock_source ex_ctrl) = (100, JackTransportRolling)" by code_simp
qed

text \<open>
  C18: after a change of the clock source, or a jump of the transport, the cycle drops everything
  that is queued: nothing is dealt, every cell is free again, the dsp clients' clocks are set to
  the frame of the cycle, and the client is on the new clock source and in step with it.
\<close>

theorem process_cb_resync_drops_all:
  assumes "wf_queue q" and "wf_ctrl ctrl dsps" and "c_active ctrl \<noteq> 0"
    and "resync_due clk nframes ctrl q"
    and "get_framestamp clk (ctrl_current_clock_source q) = (m, ts)"
  defines "ctrl1 \<equiv> ctrl\<lparr>c_clock_source := ctrl_current_clock_source q, c_syncronized := 0\<rparr>"
  shows "\<exists>q'. ctrl_client_process_cb lib clk nframes ctrl q dsps
      = Some (ctrl1\<lparr>c_transport_frame := m, c_transport_state := ts, c_syncronized := 1\<rparr>, q',
              sync_all lib (cycle_frame ctrl1 m q) (n_clients ctrl) dsps) \<and>
    wf_queue q' \<and>
    abs_queue q' = (spec_flush (abs_queue q))\<lparr>now := unat (cycle_end ctrl1 nframes m q)\<rparr>"
  unfolding ctrl1_def by (rule process_cb_resync [OF assms(1-5), of lib]) blast

theorem process_cb_resync_drops_all_witness:
  "\<exists>q'. ctrl_client_process_cb ex_lib ex_clock 8 (ex_ctrl\<lparr>c_clock_source := 2\<rparr>) ex_queue1 ex_dsps
      = Some (ex_ctrl\<lparr>c_clock_source := ctrl_current_clock_source ex_queue1, c_syncronized := 0,
                c_transport_frame := 100, c_transport_state := JackTransportRolling,
                c_syncronized := 1\<rparr>, q', ex_dsps) \<and> wf_queue q' \<and>
    abs_queue q' = (spec_flush (abs_queue ex_queue1))\<lparr>now := 8\<rparr>"
proof -
  have h: "wf_ctrl (ex_ctrl\<lparr>c_clock_source := 2\<rparr>) ex_dsps" using ex_wf_ctrl by (subst wf_ctrl_cong) simp_all
  have a: "c_active (ex_ctrl\<lparr>c_clock_source := 2\<rparr>) \<noteq> 0" by (simp add: ex_ctrl_def)
  have r: "resync_due ex_clock 8 (ex_ctrl\<lparr>c_clock_source := 2\<rparr>) ex_queue1" by code_simp
  have m: "get_framestamp ex_clock (ctrl_current_clock_source ex_queue1) = (100, JackTransportRolling)"
    by code_simp
  have e: "sync_all ex_lib (cycle_frame (ex_ctrl\<lparr>c_clock_source := ctrl_current_clock_source ex_queue1,
      c_syncronized := 0\<rparr>) 100 ex_queue1) (n_clients (ex_ctrl\<lparr>c_clock_source := 2\<rparr>)) ex_dsps = ex_dsps"
    by code_simp
  have n: "unat (cycle_end (ex_ctrl\<lparr>c_clock_source := ctrl_current_clock_source ex_queue1,
      c_syncronized := 0\<rparr>) 8 100 ex_queue1) = 8"
    by code_simp
  show ?thesis
    using process_cb_resync_drops_all [OF ex_wf_queue1 h a r m, of ex_lib] e n by simp
qed

text \<open>
  C21: an audio cycle never fails: for every clock reading, active or not, on every clock source,
  the callback returns and keeps the queue and the client well formed.
\<close>

theorem process_cb_always_returns:
  assumes "wf_queue q" and "wf_ctrl ctrl dsps"
  shows "\<exists>ctrl' q' dsps'. ctrl_client_process_cb lib clk nframes ctrl q dsps = Some (ctrl', q', dsps') \<and>
    wf_queue q' \<and> wf_ctrl ctrl' dsps' \<and> length dsps' = length dsps"
  by (rule process_cb_total [OF assms, of lib clk nframes]) blast

theorem process_cb_always_returns_witness:
  "\<exists>ctrl' q' dsps'. ctrl_client_process_cb ex_lib ex_clock 8 ex_ctrl ex_queue1 ex_dsps
      = Some (ctrl', q', dsps') \<and>
    wf_queue q' \<and> wf_ctrl ctrl' dsps' \<and> length dsps' = length ex_dsps"
  by (rule process_cb_always_returns [OF ex_wf_queue1 ex_wf_ctrl])

end
