(* ===== verification/Interfaces.thy ===== *)
theory Interfaces
  imports Clock
begin

text \<open>
  The interfaces between the components. \<open>cell_pool\<close> is what the queue asks of a free list: a
  last-in first-out pool of cells. \<open>frame_scheduler\<close> is what an API client may rely on when it
  adds timed events while the audio side runs cycles. Both are proved about once here and
  interpreted on the program's definitions where these are modelled.
\<close>

subsection \<open>Pools of cells\<close>

text \<open>\<open>n\<close> calls of \<open>get\<close>, as long as cells are handed out.\<close>

fun take_cells :: "('s \<Rightarrow> ('c option \<times> 's) option) \<Rightarrow> nat \<Rightarrow> 's \<Rightarrow> ('c list \<times> 's) option" where
  "take_cells get 0 s = Some ([], s)"
| "take_cells get (Suc n) s =
     (case get s of
        Some (Some c, s1) \<Rightarrow> map_option (\<lambda>(cs, s2). (c # cs, s2)) (take_cells get n s1)
      | _ \<Rightarrow> None)"

locale cell_pool =
  fixes inv :: "'s \<Rightarrow> bool"
    and cells :: "'s \<Rightarrow> 'c list"
    and get :: "'s \<Rightarrow> ('c option \<times> 's) option"
    and put :: "'c \<Rightarrow> 's \<Rightarrow> 's option"
    and mine :: "'s \<Rightarrow> 'c set" \<comment> \<open>the cells the caller holds\<close>
  assumes distinct_cells: "inv s \<Longrightarrow> distinct (cells s)"
    and apart: "inv s \<Longrightarrow> set (cells s) \<inter> mine s = {}"
    and get_empty: "inv s \<Longrightarrow> cells s = [] \<Longrightarrow> get s = Some (None, s)"
    and get_cell: "inv s \<Longrightarrow> cells s = c # cs \<Longrightarrow>
      \<exists>s'. get s = Some (Some c, s') \<and> inv s' \<and> cells s' = cs \<and> mine s' = insert c (mine s)"
    and put_cell: "inv s \<Longrightarrow> c \<in> mine s \<Longrightarrow>
      \<exists>s'. put c s = Some s' \<and> inv s' \<and> cells s' = c # cells s \<and> mine s' = mine s - {c}"
begin

lemma get_total: "inv s \<Longrightarrow> \<exists>p s'. get s = Some (p, s') \<and> inv s'"
  using get_empty get_cell by (cases "cells s") blast+

lemma get_new: "inv s \<Longrightarrow> get s = Some (Some c, s') \<Longrightarrow> c \<notin> mine s \<and> c \<in> mine s'"
  using apart get_empty get_cell by (cases "cells s") fastforce+

text \<open>The pool hands out as many cells as it has, and then refuses.\<close>

lemma get_all:
  assumes "inv s"
  shows "\<exists>s'. take_cells get (length (cells s)) s = Some (cells s, s') \<and> inv s' \<and> get s' = Some (None, s') \<and>
    mine s' = mine s \<union> set (cells s)"
  using assms
proof (induction "cells s" arbitrary: s)
  case Nil
  then show ?case using get_empty [of s] by simp
next
  case (Cons c cs)
  obtain s1 where s1: "get s = Some (Some c, s1)" "inv s1" "cells s1 = cs" "mine s1 = insert c (mine s)"
    using get_cell [OF Cons.prems Cons.hyps(2) [symmetric]] by blast
  obtain s' where "take_cells get (length cs) s1 = Some (cs, s')" "inv s'" "get s' = Some (None, s')"
    "mine s' = mine s1 \<union> set cs"
    using Cons.hyps(1) [of s1] s1(2,3) by auto
  then show ?case using s1 Cons.hyps(2) [symmetric] by simp
qed

text \<open>Giving the cell back that was got leaves the pool as it was.\<close>

lemma get_put:
  assumes "inv s" and "get s = Some (Some c, s1)"
  shows "\<exists>s2. put c s1 = Some s2 \<and> inv s2 \<and> cells s2 = cells s \<and> mine s2 = mine s"
proof (cases "cells s")
  case Nil
  with assms show ?thesis using get_empty by simp
next
  case (Cons a cs)
  with assms obtain s' where "get s = Some (Some a, s')" "inv s'" "cells s' = cs"
    "mine s' = insert a (mine s)" using get_cell by blast
  moreover have "a \<notin> mine s" using apart [OF assms(1)] Cons by auto
  ultimately show ?thesis using assms(2) Cons put_cell [of s1 c] by auto
qed

text \<open>A cell put into the pool is the next one the pool hands out.\<close>

lemma put_get:
  assumes "inv s" and "c \<in> mine s" and "put c s = Some s1"
  shows "\<exists>s2. get s1 = Some (Some c, s2) \<and> inv s2 \<and> cells s2 = cells s \<and> mine s2 = mine s"
proof -
  have "inv s1" "cells s1 = c # cells s" "mine s1 = mine s - {c}"
    using put_cell [OF assms(1,2)] assms(3) by auto
  then show ?thesis using get_cell [of s1 c "cells s"] assms(2) by (auto simp: insert_absorb)
qed

text \<open>No cell is lost: together, pool and caller hold the same cells.\<close>

lemma get_keeps: "inv s \<Longrightarrow> get s = Some (p, s') \<Longrightarrow> set (cells s') \<union> mine s' = set (cells s) \<union> mine s"
  using get_empty get_cell by (cases "cells s") fastforce+

lemma put_keeps:
  "inv s \<Longrightarrow> c \<in> mine s \<Longrightarrow> put c s = Some s' \<Longrightarrow> set (cells s') \<union> mine s' = set (cells s) \<union> mine s"
  using put_cell [of s c] by auto

end

subsection \<open>Timed events\<close>

text \<open>A client call or an audio cycle, the latter with what the clocks showed.\<close>

datatype ('e, 't) sched_op = Add_Op 'e | Cycle_Op 't

fun run_ops ::
  "('s \<Rightarrow> 'e \<Rightarrow> (jfofs_status \<times> 's) option) \<Rightarrow> ('t \<Rightarrow> 's \<Rightarrow> 's option)
     \<Rightarrow> ('e, 't) sched_op list \<Rightarrow> 's \<Rightarrow> 's option"
where
  "run_ops add cycle [] s = Some s"
| "run_ops add cycle (Add_Op e # ops) s =
     (case add s e of None \<Rightarrow> None | Some (st, s') \<Rightarrow> run_ops add cycle ops s')"
| "run_ops add cycle (Cycle_Op t # ops) s =
     (case cycle t s of None \<Rightarrow> None | Some s' \<Rightarrow> run_ops add cycle ops s')"

fun n_cycles :: "('e, 't) sched_op list \<Rightarrow> nat" where
  "n_cycles [] = 0"
| "n_cycles (Add_Op e # ops) = n_cycles ops"
| "n_cycles (Cycle_Op t # ops) = Suc (n_cycles ops)"

text \<open>The events accepted during a run that are due \<open>k\<close> cycles after its start, newest first.\<close>

fun accepted_for ::
  "('s \<Rightarrow> 'e \<Rightarrow> (jfofs_status \<times> 's) option) \<Rightarrow> ('t \<Rightarrow> 's \<Rightarrow> 's option) \<Rightarrow> ('s \<Rightarrow> 'e \<Rightarrow> nat)
     \<Rightarrow> ('e, 't) sched_op list \<Rightarrow> 's \<Rightarrow> nat \<Rightarrow> 'e list"
where
  "accepted_for add cycle lag [] s k = []"
| "accepted_for add cycle lag (Add_Op e # ops) s k =
     (case add s e of None \<Rightarrow> []
      | Some (st, s') \<Rightarrow> accepted_for add cycle lag ops s' k
                          @ (if st = JFOFS_SUCCESS \<and> lag s e = k then [e] else []))"
| "accepted_for add cycle lag (Cycle_Op t # ops) s k =
     (case (cycle t s, k) of (Some s', Suc k') \<Rightarrow> accepted_for add cycle lag ops s' k' | _ \<Rightarrow> [])"

locale frame_scheduler =
  fixes inv :: "'s \<Rightarrow> bool"
    and add :: "'s \<Rightarrow> 'e \<Rightarrow> (jfofs_status \<times> 's) option"
    and cycle :: "'t \<Rightarrow> 's \<Rightarrow> 's option"
    and clock :: "'s \<Rightarrow> nat"       \<comment> \<open>first frame of the next cycle\<close>
    and period :: "'s \<Rightarrow> nat"      \<comment> \<open>frames of a cycle\<close>
    and cycles_left :: "'s \<Rightarrow> nat" \<comment> \<open>cycles before the frame counter wraps\<close>
    and start :: "'s \<Rightarrow> 'e \<Rightarrow> nat" \<comment> \<open>start frame of an event\<close>
    and pending :: "'s \<Rightarrow> nat \<Rightarrow> 'e list" \<comment> \<open>what the cycle so many cycles ahead will play\<close>
    and sound :: "'s \<Rightarrow> 'd"
    and hear :: "'s \<Rightarrow> 'e list \<Rightarrow> 'd"
  assumes period_pos: "inv s \<Longrightarrow> 0 < period s"
    and add_law: "inv s \<Longrightarrow> \<exists>st s'. add s e = Some (st, s') \<and> inv s' \<and> clock s' = clock s \<and>
        period s' = period s \<and> cycles_left s' = cycles_left s \<and>
        (st = JFOFS_SUCCESS \<longrightarrow> clock s \<le> start s e) \<and>
        pending s' = (let k = (start s e - clock s) div period s in
          if st = JFOFS_SUCCESS then (pending s)(k := e # pending s k) else pending s)"
    and cycle_law: "inv s \<Longrightarrow> 0 < cycles_left s \<Longrightarrow> \<exists>s'. cycle t s = Some s' \<and> inv s' \<and>
        clock s' = clock s + period s \<and> period s' = period s \<and>
        cycles_left s' = cycles_left s - 1 \<and> (\<forall>k. pending s' k = pending s (Suc k)) \<and>
        sound s' = hear s (pending s 0)"
begin

abbreviation lag :: "'s \<Rightarrow> 'e \<Rightarrow> nat" where
  "lag s e \<equiv> (start s e - clock s) div period s"

lemma run_pending:
  assumes "inv s" and "n_cycles ops \<le> cycles_left s"
  shows "\<exists>s'. run_ops add cycle ops s = Some s' \<and> inv s' \<and> period s' = period s \<and>
    clock s' = clock s + n_cycles ops * period s \<and>
    cycles_left s' = cycles_left s - n_cycles ops \<and>
    (\<forall>k. pending s' k = accepted_for add cycle lag ops s (n_cycles ops + k)
                          @ pending s (n_cycles ops + k))"
  using assms
proof (induction ops arbitrary: s rule: n_cycles.induct)
  case 1
  then show ?case by simp
next
  case (2 e ops)
  obtain st s1 where r: "add s e = Some (st, s1)" "inv s1" "clock s1 = clock s"
    "period s1 = period s" "cycles_left s1 = cycles_left s"
    "pending s1 = (if st = JFOFS_SUCCESS then (pending s)(lag s e := e # pending s (lag s e)) else pending s)"
    using add_law [OF 2(2), of e] by (auto simp: Let_def)
  with 2(1) [OF r(2)] 2(3) show ?case by auto
next
  case (3 t ops)
  have "0 < cycles_left s" using 3(3) by simp
  then obtain s1 where r: "cycle t s = Some s1" "inv s1" "clock s1 = clock s + period s"
    "period s1 = period s" "cycles_left s1 = cycles_left s - 1"
    "\<forall>k. pending s1 k = pending s (Suc k)"
    using cycle_law [OF 3(2)] by blast
  moreover have "n_cycles ops \<le> cycles_left s1" using 3(3) r(5) by simp
  ultimately show ?case using 3(1) [OF r(2)] by (auto simp: add.assoc)
qed

text \<open>
  What the cycle after a run plays: the events accepted during the run for that cycle and those
  already pending for it, and nothing else.
\<close>

lemma run_then_cycle:
  assumes "inv s" and "n_cycles ops < cycles_left s"
  shows "\<exists>s1 s2. run_ops add cycle ops s = Some s1 \<and> cycle t s1 = Some s2 \<and> inv s2 \<and>
    clock s1 = clock s + n_cycles ops * period s \<and>
    sound s2 = hear s1 (accepted_for add cycle lag ops s (n_cycles ops) @ pending s (n_cycles ops))"
proof -
  obtain s1 where r: "run_ops add cycle ops s = Some s1" "inv s1"
    "clock s1 = clock s + n_cycles ops * period s"
    "cycles_left s1 = cycles_left s - n_cycles ops"
    "\<forall>k. pending s1 k = accepted_for add cycle lag ops s (n_cycles ops + k)
                          @ pending s (n_cycles ops + k)"
    using run_pending [OF assms(1), of ops] assms(2) by auto
  moreover have "0 < cycles_left s1" using r(4) assms(2) by simp
  moreover have "pending s1 0 = accepted_for add cycle lag ops s (n_cycles ops) @ pending s (n_cycles ops)"
    using r(5) by simp
  ultimately show ?thesis using cycle_law [OF r(2), of t] by auto
qed

text \<open>An accepted event is played by the cycle whose frames contain its start frame.\<close>

lemma accepted_is_played:
  assumes "inv s" and "add s e = Some (JFOFS_SUCCESS, s0)"
    and "n_cycles ops = lag s e" and "lag s e < cycles_left s"
  shows "\<exists>s1 s2 before after. run_ops add cycle ops s0 = Some s1 \<and> cycle t s1 = Some s2 \<and>
    clock s1 \<le> start s e \<and> start s e < clock s1 + period s1 \<and>
    sound s2 = hear s1 (before @ e # after)"
proof -
  have r: "inv s0" "clock s0 = clock s" "period s0 = period s" "cycles_left s0 = cycles_left s"
    "clock s \<le> start s e" "pending s0 = (pending s)(lag s e := e # pending s (lag s e))"
    using add_law [OF assms(1), of e] assms(2) by (auto simp: Let_def)
  obtain s1 where r1: "run_ops add cycle ops s0 = Some s1" "inv s1" "period s1 = period s0"
    "clock s1 = clock s0 + n_cycles ops * period s0"
    using run_pending [OF r(1), of ops] assms(3,4) r(4) by auto
  have lt: "n_cycles ops < cycles_left s0" using assms(3,4) r(4) by simp
  obtain s2 where r2: "cycle t s1 = Some s2"
    "sound s2 = hear s1 (accepted_for add cycle lag ops s0 (n_cycles ops) @ pending s0 (n_cycles ops))"
    using run_then_cycle [OF r(1) lt, of t] r1(1) by auto
  have "pending s0 (n_cycles ops) = e # pending s (lag s e)" using r(6) assms(3) by simp
  moreover have "clock s1 = clock s + (start s e - clock s) div period s * period s"
    using r1(4) r(2,3) assms(3) by simp
  then have "clock s1 \<le> start s e" "start s e < clock s1 + period s1"
    using r(3,5) r1(3) period_pos [OF assms(1)]
      dividend_less_div_times [of "period s" "start s e - clock s"]
      div_times_less_eq_dividend [of "start s e - clock s" "period s"]
    by linarith+
  ultimately show ?thesis using r1(1) r2 by auto
qed

end

end
