(* ===== verification/Delivery.thy ===== *)
theory Delivery
  imports Cycle Interfaces
begin

text \<open>
  The queue and the control client together, as API clients see them with the clock of JACK's
  frame time: they are a \<open>frame_scheduler\<close>, so a fof whose addition was answered with success
  is played in the cycle that contains its start frame, and in no other.
\<close>

type_synonym 'b engine = "ctrl_client \<times> fof_queue \<times> 'b dsp_client list"

subsection \<open>The operations on the pair\<close>

definition engine_add :: "'b engine \<Rightarrow> event \<Rightarrow> (jfofs_status \<times> 'b engine) option" where
  "engine_add s e = (case s of (ctrl, q, dsps) \<Rightarrow>
     map_option (\<lambda>(st, evs, q'). (st, (ctrl, q', dsps))) (fof_queue_add q (fst e) (snd e)))"

definition audio_cycle :: "'b fofs_lib \<Rightarrow> jack_clock \<Rightarrow> 'b engine \<Rightarrow> 'b engine option" where
  "audio_cycle lib clk s = (case s of (ctrl, q, dsps) \<Rightarrow>
     ctrl_client_process_cb lib clk (q_buffer_size q) ctrl q dsps)"

subsection \<open>The views of the interface\<close>

text \<open>Running: activated, on the clock source of the queue, which is not the transport.\<close>

definition in_step :: "ctrl_client \<Rightarrow> fof_queue \<Rightarrow> 'b dsp_client list \<Rightarrow> bool" where
  "in_step ctrl q dsps \<longleftrightarrow> wf_ctrl ctrl dsps \<and> c_active ctrl \<noteq> 0 \<and>
     c_clock_source ctrl = ctrl_current_clock_source q \<and> \<not> jfofs_clock_uses_transport (q_clock_source q)"

definition engine_inv :: "'b engine \<Rightarrow> bool" where
  "engine_inv s = (case s of (ctrl, q, dsps) \<Rightarrow> wf_queue q \<and> in_step ctrl q dsps)"

definition engine_clock :: "'b engine \<Rightarrow> nat" where
  "engine_clock s = (case s of (ctrl, q, dsps) \<Rightarrow> unat (q_next_frame q))"

definition engine_period :: "'b engine \<Rightarrow> nat" where
  "engine_period s = (case s of (ctrl, q, dsps) \<Rightarrow> buf_size q)"

definition engine_cycles_left :: "'b engine \<Rightarrow> nat" where
  "engine_cycles_left s = (2 ^ 64 - 1 - engine_clock s) div engine_period s"

definition engine_start :: "'b engine \<Rightarrow> event \<Rightarrow> nat" where
  "engine_start s e = (case s of (ctrl, q, dsps) \<Rightarrow> start_frame q (fst e))"

definition ring_pending :: "sched \<Rightarrow> nat \<Rightarrow> event list" where
  "ring_pending a k = (if k < length (ring a)
     then ring a ! ((now a div stride a + k) mod length (ring a)) else [])"

definition engine_pending :: "'b engine \<Rightarrow> nat \<Rightarrow> event list" where
  "engine_pending s k = (case s of (ctrl, q, dsps) \<Rightarrow> ring_pending (abs_queue q) k)"

definition engine_sound :: "'b engine \<Rightarrow> 'b dsp_client list" where
  "engine_sound s = (case s of (ctrl, q, dsps) \<Rightarrow> dsps)"

definition engine_hear :: "'b fofs_lib \<Rightarrow> 'b engine \<Rightarrow> event list \<Rightarrow> 'b dsp_client list" where
  "engine_hear lib s evs = (case s of (ctrl, q, dsps) \<Rightarrow>
     deal lib (n_clients ctrl) (last_dsp ctrl) evs (cycle_dsps lib ctrl (q_next_frame q) dsps))"

lemmas engine_view = engine_clock_def engine_period_def engine_start_def engine_pending_def
  engine_sound_def engine_hear_def

subsection \<open>The ring as a sequence of cycles\<close>

lemma spec_add_cases:
  assumes "spec_add a e = (st, a')"
  obtains (limit) "st = JFOFS_FOF_LIMIT_ERROR" "a' = a"
  | (late) "st = JFOFS_FOF_LATE_WARNING" "a' = a"
  | (excess) "st = JFOFS_FOF_EXCESS_INFO" "a' = a\<lparr>overflow := e # overflow a, pool := pool a - 1\<rparr>"
  | (slot) i where "st = JFOFS_SUCCESS" "now a \<le> spec_start a (fst e)"
      "spec_start a (fst e) < now a + length (ring a) * stride a"
      "i = slot_of (length (ring a)) (stride a) (now a) (spec_start a (fst e))"
      "a' = a\<lparr>ring := (ring a)[i := e # ring a ! i], pool := pool a - 1\<rparr>"
proof -
  let ?sf = "spec_start a (fst e)" and ?n = "length (ring a)"
  consider "pool a = 0" | "pool a \<noteq> 0" "?sf < now a" | "pool a \<noteq> 0" "now a + ?n * stride a \<le> ?sf"
    | "pool a \<noteq> 0" "now a \<le> ?sf" "?sf < now a + ?n * stride a"
    by linarith
  then show thesis
  proof cases
    case 1 with assms limit show thesis by (simp add: spec_add_def Let_def)
  next
    case 2 with assms late show thesis by (simp add: spec_add_def Let_def)
  next
    case 3 with assms excess show thesis by (simp add: spec_add_def Let_def)
  next
    case 4 with assms slot [OF _ 4(2,3)] show thesis by (simp add: spec_add_def Let_def)
  qed
qed

lemma spec_add_status:
  assumes "spec_add a e = (st, a')"
  shows "st = JFOFS_SUCCESS \<Longrightarrow> now a \<le> spec_start a (fst e) \<and>
           spec_start a (fst e) < now a + length (ring a) * stride a"
    and "st \<noteq> JFOFS_SUCCESS \<Longrightarrow> ring a' = ring a"
    and "now a' = now a" "stride a' = stride a" "length (ring a') = length (ring a)"
  using assms by (cases rule: spec_add_cases; simp)+

lemma ring_pending_add:
  assumes "spec_add a e = (JFOFS_SUCCESS, a')" and "ring a \<noteq> []" and "0 < stride a"
  defines "k \<equiv> (spec_start a (fst e) - now a) div stride a"
  shows "ring_pending a' = (ring_pending a)(k := e # ring_pending a k)"
proof
  fix j
  let ?n = "length (ring a)" and ?b = "now a div stride a"
  let ?i = "(?b + k) mod ?n"
  have n: "0 < ?n" using assms(2) by simp
  have w: "now a \<le> spec_start a (fst e)" "spec_start a (fst e) < now a + ?n * stride a"
    using spec_add_status(1) [OF assms(1)] by simp_all
  then have k: "k < ?n" using assms(3) by (simp add: k_def div_less_iff_less_mult)
  have "slot_of ?n (stride a) (now a) (spec_start a (fst e)) = ?i"
    by (simp add: slot_of_def k_def add.commute)
  with assms(1) have a'_slot: "a' = a\<lparr>ring := (ring a)[?i := e # ring a ! ?i], pool := pool a - 1\<rparr>"
    by (cases rule: spec_add_cases) simp_all
  then have a': "ring a' = (ring a)[?i := e # ring a ! ?i]" "now a' = now a" "stride a' = stride a"
    by simp_all
  show "ring_pending a' j = ((ring_pending a)(k := e # ring_pending a k)) j"
  proof (cases "j < ?n \<and> j \<noteq> k")
    case True
    then have "(?b + j) mod ?n \<noteq> ?i" using mod_shift_inj [of j ?n k ?b] k by blast
    with True show ?thesis by (simp add: ring_pending_def a')
  next
    case False
    then consider "j = k" | "\<not> j < ?n" "j \<noteq> k" using k by blast
    then show ?thesis
    proof cases
      case 1
      then show ?thesis using k n by (simp only: ring_pending_def a') simp
    next
      case 2
      then show ?thesis by (simp add: ring_pending_def a')
    qed
  qed
qed

lemma ring_pending_cycle:
  assumes "spec_cycle a (now a) (now a + stride a) = (evs, a')" and "ring a \<noteq> []" and "0 < stride a"
  shows "evs = ring_pending a 0" and "ring_pending a' k = ring_pending a (Suc k)"
proof -
  let ?n = "length (ring a)" and ?b = "now a div stride a"
  have n: "0 < ?n" using assms(2) by simp
  have a': "ring a' = (ring a)[?b mod ?n := []]" "now a' = now a + stride a" "stride a' = stride a"
    using assms(1) by (auto simp: spec_cycle_def spec_due_def Let_def)
  show "evs = ring_pending a 0"
    using assms(1) n by (simp add: spec_cycle_def spec_due_def Let_def ring_pending_def)
  have b': "(now a + stride a) div stride a = Suc ?b" using assms(3) div_add_self2 [of "stride a" "now a"] by simp
  show "ring_pending a' k = ring_pending a (Suc k)"
  proof (cases "Suc k < ?n")
    case True
    then have "(?b + Suc k) mod ?n \<noteq> (?b + 0) mod ?n"
      using mod_shift_inj [of "Suc k" ?n 0 ?b] n by (metis nat.simps(3))
    then show ?thesis using True by (simp add: ring_pending_def a' b')
  next
    case False
    have "(Suc ?b + k) mod ?n = ?b mod ?n" if "k < ?n"
    proof -
      have "Suc ?b + k = ?b + ?n" using that False by linarith
      then show ?thesis by (simp only: mod_add_self2)
    qed
    then show ?thesis using False n by (simp add: ring_pending_def a' b')
  qed
qed

subsection \<open>The interface holds\<close>

lemma engine_add_law:
  assumes "engine_inv s"
  shows "\<exists>st s'. engine_add s e = Some (st, s') \<and> engine_inv s' \<and> engine_clock s' = engine_clock s \<and>
    engine_period s' = engine_period s \<and> engine_cycles_left s' = engine_cycles_left s \<and>
    (st = JFOFS_SUCCESS \<longrightarrow> engine_clock s \<le> engine_start s e) \<and>
    engine_pending s' = (let k = (engine_start s e - engine_clock s) div engine_period s in
      if st = JFOFS_SUCCESS then (engine_pending s)(k := e # engine_pending s k) else engine_pending s)"
proof -
  obtain ctrl q dsps where s: "s = (ctrl, q, dsps)" by (cases s)
  have wf: "wf_queue q" using assms by (simp add: s engine_inv_def)
  obtain st q' where r: "fof_queue_add q (fst e) (snd e) = Some (st, add_events (abs_queue q) (fst e, snd e) st, q')"
    "wf_queue q'" "spec_add (abs_queue q) (fst e, snd e) = (st, abs_queue q')" "q_frame q' = q_frame q"
    by (rule add_refines [OF wf])
  have add: "spec_add (abs_queue q) e = (st, abs_queue q')" using r(3) by simp
  note st = spec_add_status [OF add]
  have p: "0 < stride (abs_queue q)" using wf_config_pos(2) [OF wf_queueD(1) [OF wf]] by simp
  have "ring_pending (abs_queue q') = ring_pending (abs_queue q)" if "st \<noteq> JFOFS_SUCCESS"
    using st(2-4) that by (simp add: fun_eq_iff ring_pending_def del: abs_queue_simps)
  moreover have "ring_pending (abs_queue q') = (let k = (start_frame q (fst e) - unat (q_next_frame q)) div buf_size q
      in (ring_pending (abs_queue q))(k := e # ring_pending (abs_queue q) k))" if "st = JFOFS_SUCCESS"
    using ring_pending_add [OF add [unfolded that] ring_abs_nonempty [OF wf] p] by (simp add: Let_def)
  moreover have "engine_inv (ctrl, q', dsps)"
    using assms r(2,4) by (simp add: s engine_inv_def in_step_def ctrl_current_clock_source_def q_frame_def)
  ultimately show ?thesis
    using r(1,4) st(1)
    by (auto simp: s engine_add_def engine_view engine_cycles_left_def q_frame_def Let_def)
qed

lemma next_cycle_word:
  assumes "0 < (2 ^ 64 - 1 - unat n) div b" and "unat (w :: u64) = b"
  shows "unat (n + w) = unat n + b"
    and "(2 ^ 64 - 1 - (unat n + b)) div b = (2 ^ 64 - 1 - unat n) div b - 1"
proof -
  have b: "0 < b" using assms(1) by (metis div_by_0 gr0I less_irrefl)
  then have le: "b \<le> 2 ^ 64 - 1 - unat n" using assms(1) by (simp only: div_greater_zero_iff)
  then have "unat n + unat w < 2 ^ LENGTH(64)" using assms(2) b by simp
  then show "unat (n + w) = unat n + b" using assms(2) by (simp only: unat_add_lem [THEN iffD1])
  have "(2 ^ 64 - 1 - unat n) div b = Suc ((2 ^ 64 - 1 - unat n - b) div b)"
    using b le by (rule le_div_geq)
  then show "(2 ^ 64 - 1 - (unat n + b)) div b = (2 ^ 64 - 1 - unat n) div b - 1"
    by (simp only: diff_diff_left diff_Suc_1 add.assoc)
qed

text \<open>One cycle in step, also while a call in progress holds cells; the client's new state does not
  depend on the queue.\<close>

definition stepped :: "jack_clock \<Rightarrow> ctrl_client \<Rightarrow> nat \<Rightarrow> ctrl_client" where
  "stepped clk ctrl k = (case get_framestamp clk (c_clock_source ctrl) of (m, ts) \<Rightarrow>
     ctrl\<lparr>c_transport_frame := m, c_transport_state := ts,
          c_syncronized := (if c_syncronized ctrl = 0 then 1 else c_syncronized ctrl),
          c_last_dsp := of_nat ((last_dsp ctrl + k) mod n_clients ctrl)\<rparr>)"

lemma in_step_clock: "in_step ctrl q dsps \<Longrightarrow> \<not> jfofs_clock_uses_transport (c_clock_source ctrl)"
  by (simp add: in_step_def ctrl_current_clock_source_def jfofs_clock_uses_transport_def)

lemma in_step_no_resync: "in_step ctrl q dsps \<Longrightarrow> \<not> resync_due clk nframes ctrl q"
  using in_step_clock [of ctrl q dsps]
  by (simp add: in_step_def resync_due_def ctrl_transport_discontinuity_def)

lemma in_step_cycle:
  assumes "wf_held out q" and "in_step ctrl q dsps"
  defines "evs \<equiv> map (event_at q) (slot_lists q ! due_slot q (q_next_frame q))"
  obtains q' where
    "audio_cycle lib clk (ctrl, q, dsps) = Some (stepped clk ctrl (length evs), q',
       deal lib (n_clients ctrl) (last_dsp ctrl) evs (cycle_dsps lib ctrl (q_next_frame q) dsps))"
    "cycled out q (due_slot q (q_next_frame q)) (q_next_frame q + ucast (q_buffer_size q))
       (fst (get_framestamp clk (c_clock_source ctrl))) q'"
    "in_step (stepped clk ctrl (length evs)) q'
       (deal lib (n_clients ctrl) (last_dsp ctrl) evs (cycle_dsps lib ctrl (q_next_frame q) dsps))"
proof -
  note clock = in_step_clock [OF assms(2)]
  obtain m ts where m: "get_framestamp clk (c_clock_source ctrl) = (m, ts)" by fastforce
  have c: "wf_ctrl ctrl dsps" "c_active ctrl \<noteq> 0" using assms(2) by (simp_all add: in_step_def)
  have n: "cycle_frame ctrl m q = q_next_frame q"
    "cycle_end ctrl (q_buffer_size q) m q = q_next_frame q + ucast (q_buffer_size q)"
    using clock by (simp_all add: cycle_frame_def cycle_end_def)
  obtain ctrl' q' where r: "ctrl_advance lib (q_buffer_size q) m ts ctrl q dsps
       = Some (ctrl', q', deal lib (n_clients ctrl) (last_dsp ctrl) evs (cycle_dsps lib ctrl (q_next_frame q) dsps))"
    "cycled out q (due_slot q (q_next_frame q)) (q_next_frame q + ucast (q_buffer_size q)) m q'"
    "ctrl' = stepped clk ctrl (length evs)" "wf_ctrl ctrl' dsps"
    using ctrl_advance_eq [OF assms(1) c(1), of lib "q_buffer_size q" m ts, unfolded n] clock
    by (auto simp: evs_def stepped_def m)
  have "audio_cycle lib clk (ctrl, q, dsps) = ctrl_advance lib (q_buffer_size q) m ts ctrl q dsps"
    using process_cb_steady_advance [OF c(2) in_step_no_resync [OF assms(2)] m]
    by (simp add: audio_cycle_def)
  moreover have "c_active ctrl' = c_active ctrl" "c_clock_source ctrl' = c_clock_source ctrl"
    by (simp_all add: r(3) stepped_def split: prod.split)
  then have "in_step ctrl' q' (deal lib (n_clients ctrl) (last_dsp ctrl) evs (cycle_dsps lib ctrl (q_next_frame q) dsps))"
    using assms(2) r(2)
      wf_ctrl_length [OF _ r(4), of "deal lib (n_clients ctrl) (last_dsp ctrl) evs (cycle_dsps lib ctrl (q_next_frame q) dsps)"]
    by (simp add: in_step_def cycled_def ctrl_current_clock_source_def)
  ultimately show thesis using r(1-3) m by (intro that [of q']) simp_all
qed

lemma buffer_word:
  assumes "wf_config q"
  shows "unat (ucast (q_buffer_size q) :: u64) = buf_size q"
proof -
  have "sint (q_buffer_size q) = uint (q_buffer_size q)"
    using assms by (intro sint_nonneg_uint) (simp add: wf_config_def)
  then show ?thesis unfolding unat_u64_of_u32 by (simp only: unat_eq_nat_uint)
qed

lemma engine_cycle_law:
  assumes "engine_inv s" and "0 < engine_cycles_left s"
  shows "\<exists>s'. audio_cycle lib clk s = Some s' \<and> engine_inv s' \<and>
    engine_clock s' = engine_clock s + engine_period s \<and> engine_period s' = engine_period s \<and>
    engine_cycles_left s' = engine_cycles_left s - 1 \<and>
    (\<forall>k. engine_pending s' k = engine_pending s (Suc k)) \<and>
    engine_sound s' = engine_hear lib s (engine_pending s 0)"
proof -
  obtain ctrl q dsps where s: "s = (ctrl, q, dsps)" by (cases s)
  have i: "wf_queue q" "in_step ctrl q dsps" using assms(1) by (simp_all add: s engine_inv_def)
  note w = wf_queueD(1) [OF i(1)]
  let ?evs = "map (event_at q) (slot_lists q ! due_slot q (q_next_frame q))"
  let ?dsps = "deal lib (n_clients ctrl) (last_dsp ctrl) ?evs (cycle_dsps lib ctrl (q_next_frame q) dsps)"
  let ?ctrl = "stepped clk ctrl (length ?evs)" and ?e = "q_next_frame q + ucast (q_buffer_size q)"
  obtain q' where r: "audio_cycle lib clk (ctrl, q, dsps) = Some (?ctrl, q', ?dsps)"
    "cycled [] q (due_slot q (q_next_frame q)) ?e (fst (get_framestamp clk (c_clock_source ctrl))) q'"
    "in_step ?ctrl q' ?dsps"
    by (rule in_step_cycle [OF i])
  have "0 < (2 ^ 64 - 1 - unat (q_next_frame q)) div buf_size q"
    using assms(2) by (simp only: s engine_cycles_left_def engine_clock_def engine_period_def prod.case)
  note nf = next_cycle_word [OF this buffer_word [OF w]]
  have cyc: "spec_cycle (abs_queue q) (now (abs_queue q)) (now (abs_queue q) + stride (abs_queue q))
      = (?evs, abs_queue q')"
    using cycled_refines [OF i(1) r(2)] nf(1) by simp
  have "0 < stride (abs_queue q)" using wf_config_pos(2) [OF w] by simp
  note pend = ring_pending_cycle [OF cyc ring_abs_nonempty [OF i(1)] this]
  have f: "q_next_frame q' = ?e" "q_buffer_size q' = q_buffer_size q" "wf_queue q'"
    using r(2) by (simp_all add: cycled_def)
  show ?thesis
  proof (intro exI conjI)
    show "audio_cycle lib clk s = Some (?ctrl, q', ?dsps)" using r(1) by (simp add: s)
    show "engine_cycles_left (?ctrl, q', ?dsps) = engine_cycles_left s - 1"
      using nf(2) f nf(1) by (simp only: s engine_cycles_left_def engine_clock_def engine_period_def prod.case)
  qed (use r(3) f nf(1) pend in \<open>simp_all add: s engine_view engine_inv_def\<close>)
qed

interpretation jack_frames: frame_scheduler engine_inv engine_add "audio_cycle lib" engine_clock
  engine_period engine_cycles_left engine_start engine_pending engine_sound "engine_hear lib"
  for lib :: "'b fofs_lib"
proof
  show "0 < engine_period s" if "engine_inv s" for s :: "'b engine"
    using that wf_config_pos(2) [OF wf_queueD(1)]
    by (cases s) (auto simp: engine_inv_def engine_period_def)
qed (fact engine_add_law engine_cycle_law)+

subsection \<open>Delivery of fofs\<close>

lemma ex_engine: "engine_inv (ex_ctrl, ex_queue, ex_dsps)"
proof -
  have "c_active ex_ctrl \<noteq> 0" "c_clock_source ex_ctrl = ctrl_current_clock_source ex_queue"
    "\<not> jfofs_clock_uses_transport (q_clock_source ex_queue)"
    by code_simp+
  then show ?thesis using ex_wf_queue ex_wf_ctrl by (simp add: engine_inv_def in_step_def)
qed

lemma ex_cycles: "2 < engine_cycles_left (ex_ctrl, ex_queue, ex_dsps)"
  by (simp add: engine_cycles_left_def engine_clock_def engine_period_def ex_defs)

text \<open>
  C1: a fof whose addition was answered with success is handed to a dsp client in the cycle
  whose frames contain its start frame, whatever is added in between: \<open>k\<close> cycles later, \<open>k\<close> the
  distance of its start frame in buffers, the callback deals a batch that contains it. (JACK's
  frame time, cycles of the queue's buffer size, before the 64-bit frame counter wraps.)
\<close>

theorem accepted_fof_is_played:
  assumes "engine_inv (ctrl, q, dsps)"
    and "fof_queue_add q t args = Some (JFOFS_SUCCESS, evs, q0)"
    and "n_cycles ops = (start_frame q t - unat (q_next_frame q)) div buf_size q"
    and "n_cycles ops < engine_cycles_left (ctrl, q, dsps)"
  shows "\<exists>ctrl1 q1 dsps1 ctrl2 q2 before after.
    run_ops engine_add (audio_cycle lib) ops (ctrl, q0, dsps) = Some (ctrl1, q1, dsps1) \<and>
    unat (q_next_frame q1) \<le> start_frame q t \<and>
    start_frame q t < unat (q_next_frame q1) + buf_size q1 \<and>
    ctrl_client_process_cb lib clk (q_buffer_size q1) ctrl1 q1 dsps1
      = Some (ctrl2, q2, deal lib (n_clients ctrl1) (last_dsp ctrl1) (before @ (t, args) # after)
                           (cycle_dsps lib ctrl1 (q_next_frame q1) dsps1))"
proof -
  have add: "engine_add (ctrl, q, dsps) (t, args) = Some (JFOFS_SUCCESS, (ctrl, q0, dsps))"
    using assms(2) by (simp add: engine_add_def)
  have lag: "n_cycles ops = (engine_start (ctrl, q, dsps) (t, args) - engine_clock (ctrl, q, dsps))
      div engine_period (ctrl, q, dsps)"
    using assms(3) by (simp add: engine_view)
  obtain s1 s2 before after where r: "run_ops engine_add (audio_cycle lib) ops (ctrl, q0, dsps) = Some s1"
    "audio_cycle lib clk s1 = Some s2"
    "engine_clock s1 \<le> engine_start (ctrl, q, dsps) (t, args)"
    "engine_start (ctrl, q, dsps) (t, args) < engine_clock s1 + engine_period s1"
    "engine_sound s2 = engine_hear lib s1 (before @ (t, args) # after)"
    using jack_frames.accepted_is_played [OF assms(1) add lag assms(4) [unfolded lag], of lib clk] by blast
  obtain ctrl1 q1 dsps1 where s1: "s1 = (ctrl1, q1, dsps1)" by (cases s1)
  obtain ctrl2 q2 dsps2 where s2: "s2 = (ctrl2, q2, dsps2)" by (cases s2)
  show ?thesis using r by (auto simp: s1 s2 engine_view audio_cycle_def)
qed

theorem accepted_fof_is_played_witness:
  "\<exists>ctrl1 q1 dsps1 ctrl2 q2 before after.
    run_ops engine_add (audio_cycle ex_lib) [Cycle_Op ex_clock, Add_Op (30, []), Cycle_Op ex_clock]
      (ex_ctrl, ex_queue1, ex_dsps) = Some (ctrl1, q1, dsps1) \<and>
    unat (q_next_frame q1) \<le> 17 \<and> 17 < unat (q_next_frame q1) + buf_size q1 \<and>
    ctrl_client_process_cb ex_lib ex_clock (q_buffer_size q1) ctrl1 q1 dsps1
      = Some (ctrl2, q2, deal ex_lib (n_clients ctrl1) (last_dsp ctrl1) (before @ (17, [1, 2]) # after)
                           (cycle_dsps ex_lib ctrl1 (q_next_frame q1) dsps1))"
proof -
  have f: "start_frame ex_queue 17 = 17" by code_simp
  have "n_cycles [Cycle_Op ex_clock, Add_Op (30, []), Cycle_Op ex_clock]
      = (start_frame ex_queue 17 - unat (q_next_frame ex_queue)) div buf_size ex_queue"
    unfolding f by (simp add: ex_defs)
  from accepted_fof_is_played [OF ex_engine ex_add this, of ex_lib ex_clock] show ?thesis
    using ex_cycles unfolding f by simp
qed

text \<open>
  C3: a cycle plays nothing but what it should: after any run of additions and cycles, the next
  cycle deals exactly the fofs accepted during the run for this cycle, newest first, followed
  by those that were already waiting for it, each once.
\<close>

theorem cycle_plays_exactly_the_accepted:
  assumes "engine_inv s" and "n_cycles ops < engine_cycles_left s"
  shows "\<exists>s1 s2. run_ops engine_add (audio_cycle lib) ops s = Some s1 \<and>
    audio_cycle lib clk s1 = Some s2 \<and> engine_inv s2 \<and>
    engine_clock s1 = engine_clock s + n_cycles ops * engine_period s \<and>
    engine_sound s2 = engine_hear lib s1
      (accepted_for engine_add (audio_cycle lib)
         (\<lambda>s e. (engine_start s e - engine_clock s) div engine_period s) ops s (n_cycles ops)
       @ engine_pending s (n_cycles ops))"
  by (rule jack_frames.run_then_cycle [OF assms])

theorem cycle_plays_exactly_the_accepted_witness:
  "\<exists>s1 s2. run_ops engine_add (audio_cycle ex_lib) [Add_Op (9, []), Cycle_Op ex_clock]
      (ex_ctrl, ex_queue, ex_dsps) = Some s1 \<and>
    audio_cycle ex_lib ex_clock s1 = Some s2 \<and> engine_inv s2 \<and>
    engine_clock s1 = 8 \<and> engine_sound s2 = engine_hear ex_lib s1 [(9, [])]"
proof -
  let ?ops = "[Add_Op (9, []), Cycle_Op ex_clock]" and ?s = "(ex_ctrl, ex_queue, ex_dsps)"
  have "slot_lists ex_queue = [[], [], [], []]" by code_simp
  then have p: "engine_pending ?s 1 = []"
    by (simp add: engine_pending_def ring_pending_def ex_queue_def ex_raw_def)
  have "accepted_for engine_add (audio_cycle ex_lib)
      (\<lambda>s e. (engine_start s e - engine_clock s) div engine_period s) ?ops ?s 1 = [(9, [])]"
    by code_simp
  with p have a: "accepted_for engine_add (audio_cycle ex_lib)
      (\<lambda>s e. (engine_start s e - engine_clock s) div engine_period s) ?ops ?s 1
      @ engine_pending ?s 1 = [(9, [])]"
    by simp
  have c: "engine_clock ?s + 1 * engine_period ?s = 8" by code_simp
  have n: "n_cycles ?ops = 1" by simp
  have "n_cycles ?ops < engine_cycles_left ?s" using ex_cycles by simp
  from cycle_plays_exactly_the_accepted [OF ex_engine this, of ex_lib ex_clock] show ?thesis
    unfolding n a c .
qed

text \<open>
  The documented scheduling window. As long as no conversion overflows and a cell is free,
  the status of an addition is decided by its time in microseconds alone: late before
  \<open>ceil(next_frame * 1000000 / sample_rate)\<close>, excess from
  \<open>ceil((next_frame + n_slots * buffer_size) * 1000000 / sample_rate)\<close> on, success between.
\<close>

theorem scheduling_window_in_microseconds:
  assumes "wf_queue q" and "free_list q \<noteq> []" and "0 < sint (q_sample_rate q)"
    and "unat t * nat (sint (q_sample_rate q)) < 2 ^ 64"
    and "frames_of_us (unat t) (nat (sint (q_sample_rate q))) < 2 ^ 32"
    and "fof_queue_add q t args = Some (st, evs, q')"
  defines "sr \<equiv> nat (sint (q_sample_rate q))"
    and "first \<equiv> unat (q_next_frame q)" and "bound \<equiv> unat (q_next_frame q) + n_slots q * buf_size q"
  shows "st = (if unat t < ceil_us_of_frames first sr then JFOFS_FOF_LATE_WARNING
               else if ceil_us_of_frames bound sr \<le> unat t then JFOFS_FOF_EXCESS_INFO
               else JFOFS_SUCCESS)"
proof -
  have r: "0 < sr" using assms(3) by (simp add: sr_def)
  have sf: "start_frame q t = frames_of_us (unat t) sr"
    using assms(3-5) by (simp add: start_frame_def unat_time_to_nframes sr_def)
  have "spec_add (abs_queue q) (t, args) = (st, abs_queue q')"
    using add_refines [OF assms(1), of t args] assms(6) by auto
  then have "st = (if start_frame q t < first then JFOFS_FOF_LATE_WARNING
      else if bound \<le> start_frame q t then JFOFS_FOF_EXCESS_INFO else JFOFS_SUCCESS)"
    using assms(2) wf_queueD(4) [OF assms(1)]
    by (auto simp: spec_add_def Let_def first_def bound_def split: if_splits)
  then show ?thesis
    using frames_of_us_ge_iff [OF r, of first "unat t"] frames_of_us_ge_iff [OF r, of bound "unat t"]
    by (simp add: sf not_le [symmetric] del: not_le)
qed

theorem scheduling_window_in_microseconds_witness:
  "JFOFS_SUCCESS = (if 17 < ceil_us_of_frames 0 1000000 then JFOFS_FOF_LATE_WARNING
     else if ceil_us_of_frames 32 1000000 \<le> 17 then JFOFS_FOF_EXCESS_INFO else JFOFS_SUCCESS)"
proof -
  have v: "nat (sint (q_sample_rate ex_queue)) = 1000000" "unat (17 :: u64) = 17"
    "unat (q_next_frame ex_queue) = 0" "n_slots ex_queue * buf_size ex_queue = 32"
    by (simp_all add: ex_defs)
  have f: "free_list ex_queue \<noteq> []" "0 < sint (q_sample_rate ex_queue)" by code_simp+
  show ?thesis
    using scheduling_window_in_microseconds [OF ex_wf_queue f _ _ ex_add] unfolding v
    by (simp add: frames_of_us_def ceil_us_of_frames_def)
qed

end
