(* ===== verification/Queue_Pool.thy ===== *)
theory Queue_Pool
  imports Queue_Life Interfaces
begin

text \<open>
  The free list of the queue as a pool of cells: \<open>fof_queue_allocate_fof\<close> and
  \<open>fof_queue_free_fof\<close> satisfy the laws of \<open>cell_pool\<close>, so no cell is handed out twice and none
  is lost between one caller and the list.
\<close>

text \<open>The cells that are in none of the queue's lists are in the hands of the caller.\<close>

definition held :: "fof_queue \<Rightarrow> nat set" where
  "held q = {..<length (q_mem q)} - set (free_list q) - set (concat (slot_lists q)) - set (excess_list q)"

definition pool_ok :: "fof_queue \<Rightarrow> bool" where
  "pool_ok q \<longleftrightarrow> owns q (free_list q) (slot_lists q) (excess_list q) (sorted_list_of_set (held q))"

definition pool_get :: "fof_queue \<Rightarrow> (cell_ptr \<times> fof_queue) option" where
  "pool_get q = map_option (\<lambda>(p, st, q'). (p, q')) (fof_queue_allocate_fof q)"

definition pool_put :: "nat \<Rightarrow> fof_queue \<Rightarrow> fof_queue option" where
  "pool_put a q = fof_queue_free_fof q (Some a)"

lemma finite_held [simp]: "finite (held q)"
  by (simp add: held_def)

lemma owns_held:
  assumes "owns q fs ss ex out"
  shows "held q = set out" "pool_ok q"
proof -
  note l = owns_lists [OF assms]
  show h: "held q = set out" using assms unfolding held_def l by (auto simp: owns_def)
  show "pool_ok q" unfolding pool_ok_def l h
    by (rule owns_perm [OF assms]) simp_all
qed

lemma pool_okD:
  "pool_ok q \<Longrightarrow> owns q (free_list q) (slot_lists q) (excess_list q) (sorted_list_of_set (held q))"
  by (simp add: pool_ok_def)

lemma allocate_pool:
  assumes "pool_ok q" and "free_list q = a # fs"
  obtains q' where "fof_queue_allocate_fof q = Some (Some a, JFOFS_SUCCESS, q')"
    "pool_ok q'" "free_list q' = fs" "held q' = insert a (held q)"
    "slot_lists q' = slot_lists q" "excess_list q' = excess_list q" "q_free_cnt q' = q_free_cnt q - 1"
proof -
  let ?q' = "set_next a None (q\<lparr>q_free_fofs := nexts q a, q_free_cnt := q_free_cnt q - 1\<rparr>)"
  have o: "owns q (a # fs) (slot_lists q) (excess_list q) (sorted_list_of_set (held q))"
    using pool_okD [OF assms(1)] assms(2) by simp
  have "q_free_fofs q = Some a" "a < length (q_mem q)"
    using o owns_range(1) [OF o] by (auto simp: owns_def)
  then have al: "fof_queue_allocate_fof q = Some (Some a, JFOFS_SUCCESS, ?q')"
    by (simp add: allocate_cons)
  have o': "owns ?q' fs (slot_lists q) (excess_list q) (a # sorted_list_of_set (held q))"
    using o by (rule owns_alloc)
  show thesis
    using that [OF al owns_held(2) [OF o'] owns_lists(1) [OF o']] owns_held(1) [OF o']
      owns_lists(2,3) [OF o'] by simp
qed

lemma free_pool:
  assumes "pool_ok q" and "a \<in> held q"
  obtains q' where "fof_queue_free_fof q (Some a) = Some q'"
    "pool_ok q'" "free_list q' = a # free_list q" "held q' = held q - {a}"
    "slot_lists q' = slot_lists q" "excess_list q' = excess_list q" "q_free_cnt q' = q_free_cnt q + 1"
proof -
  let ?q1 = "q\<lparr>q_free_cnt := q_free_cnt q + 1\<rparr>"
  let ?q' = "(set_next a (q_free_fofs q) ?q1)\<lparr>q_free_fofs := Some a\<rparr>"
  let ?out = "sorted_list_of_set (held q - {a})"
  have s: "set (a # ?out) = held q" "distinct (a # ?out)" using assms(2) by auto
  have o: "owns q (free_list q) (slot_lists q) (excess_list q) (a # ?out)"
    using s by (intro owns_perm [OF pool_okD [OF assms(1)]]) simp_all
  have a: "a < length (q_mem q)" using assms(2) by (simp add: held_def)
  have fr: "fof_queue_free_fof q (Some a) = Some ?q'" using a by (simp add: free_fof_eq)
  have "owns (set_next a (q_free_fofs q) ?q1) (free_list q) (slot_lists q) (excess_list q) (a # ?out)"
    using o by (intro owns_set_next) (simp_all add: owns_cong [of ?q1 q])
  then have o': "owns ?q' (a # free_list q) (slot_lists q) (excess_list q) ?out"
    using a by (auto simp: owns_def)
  show thesis
    using that [OF fr owns_held(2) [OF o'] owns_lists(1) [OF o']] owns_held(1) [OF o']
      owns_lists(2,3) [OF o'] by simp
qed

interpretation fof_pool: cell_pool pool_ok free_list pool_get pool_put held
proof
  fix q
  assume q: "pool_ok q"
  show "distinct (free_list q)" using pool_okD [OF q] by (simp add: owns_def)
  show "set (free_list q) \<inter> held q = {}" by (auto simp: held_def)
  show "pool_get q = Some (None, q)" if "free_list q = []"
    using pool_okD [OF q] that by (simp add: pool_get_def allocate_empty owns_def)
  show "\<exists>q'. pool_get q = Some (Some c, q') \<and> pool_ok q' \<and> free_list q' = cs \<and>
      held q' = insert c (held q)" if "free_list q = c # cs" for c cs
    by (rule allocate_pool [OF q that]) (auto simp: pool_get_def)
  show "\<exists>q'. pool_put c q = Some q' \<and> pool_ok q' \<and> free_list q' = c # free_list q \<and>
      held q' = held q - {c}" if "c \<in> held q" for c
    by (rule free_pool [OF q that]) (auto simp: pool_put_def)
qed

end
