(* ===== verification/Queue_Limits.thy ===== *)
theory Queue_Limits
  imports Delivery
begin

text \<open>
  Where the queue stops doing what its clients expect: the frame counter past 32 bits, the
  excess list that only a flush empties, and additions for the cycle in progress while the
  transport rolls.
\<close>

subsection \<open>The frame counter past 32 bits\<close>

text \<open>
  C33: \<open>jfofs_time_to_nframes\<close> cuts the start frame to 32 bits while \<open>next_frame\<close> counts on 64.
  Once \<open>next_frame\<close> has passed \<open>2 ^ 32\<close> (a day at 48 kHz), no fof is ever accepted again: every
  addition is late, or refused for want of a cell, whatever its time, and changes nothing.
\<close>

theorem nothing_accepted_past_32_bits:
  assumes "wf_queue q" and "2 ^ 32 \<le> unat (q_next_frame q)"
  shows "\<exists>st q'. fof_queue_add q t args = Some (st, add_events (abs_queue q) (t, args) st, q') \<and>
    st = (if free_list q = [] then JFOFS_FOF_LIMIT_ERROR else JFOFS_FOF_LATE_WARNING) \<and>
    wf_queue q' \<and> abs_queue q' = abs_queue q"
proof -
  obtain st q' where r: "fof_queue_add q t args = Some (st, add_events (abs_queue q) (t, args) st, q')"
    "wf_queue q'" "spec_add (abs_queue q) (t, args) = (st, abs_queue q')"
    by (rule add_refines [OF assms(1)])
  have "start_frame q t < unat (q_next_frame q)"
    using start_frame_less [of q t] assms(2) by (rule less_le_trans)
  then have "st = (if free_list q = [] then JFOFS_FOF_LIMIT_ERROR else JFOFS_FOF_LATE_WARNING)
      \<and> abs_queue q' = abs_queue q"
    using r(3) by (cases "free_list q = []") (simp_all add: spec_add_def Let_def)
  with r show ?thesis by blast
qed

theorem nothing_accepted_past_32_bits_witness:
  "\<exists>st q'. fof_queue_add (ex_queue\<lparr>q_next_frame := 2 ^ 32\<rparr>) 4294967300 []
      = Some (st, add_events (abs_queue (ex_queue\<lparr>q_next_frame := 2 ^ 32\<rparr>)) (4294967300, []) st, q') \<and>
    st = (if free_list (ex_queue\<lparr>q_next_frame := 2 ^ 32\<rparr>) = [] then JFOFS_FOF_LIMIT_ERROR
          else JFOFS_FOF_LATE_WARNING) \<and>
    wf_queue q' \<and> abs_queue q' = abs_queue (ex_queue\<lparr>q_next_frame := 2 ^ 32\<rparr>)"
proof (rule nothing_accepted_past_32_bits)
  show "wf_queue (ex_queue\<lparr>q_next_frame := 2 ^ 32\<rparr>)"
    using ex_wf_queue by (subst wf_queue_cong(1)) simp_all
  show "2 ^ 32 \<le> unat (q_next_frame (ex_queue\<lparr>q_next_frame := 2 ^ 32\<rparr>))" by simp
qed

subsection \<open>The excess list\<close>

fun engine_excess :: "'b engine \<Rightarrow> event list" where
  "engine_excess (ctrl, q, dsps) = overflow (abs_queue q)"

lemma engine_add_excess:
  assumes "engine_inv s" and "engine_add s e = Some (st, s')"
  shows "engine_excess s' = (if st = JFOFS_FOF_EXCESS_INFO then [e] else []) @ engine_excess s"
proof -
  obtain ctrl q dsps where s: "s = (ctrl, q, dsps)" by (cases s)
  have wf: "wf_queue q" using assms(1) by (simp add: s engine_inv_def in_step_def)
  obtain st1 q' where r: "fof_queue_add q (fst e) (snd e)
      = Some (st1, add_events (abs_queue q) (fst e, snd e) st1, q')"
    "spec_add (abs_queue q) (fst e, snd e) = (st1, abs_queue q')"
    by (rule add_refines [OF wf])
  then have s': "st1 = st" "s' = (ctrl, q', dsps)" using assms(2) by (simp_all add: s engine_add_def)
  from r(2) have "overflow (abs_queue q')
      = (if st1 = JFOFS_FOF_EXCESS_INFO then [e] else []) @ overflow (abs_queue q)"
    by (cases rule: spec_add_cases; simp only: prod.collapse; simp)
  then show ?thesis by (simp add: s s')
qed

lemma engine_cycle_excess:
  assumes "engine_inv s" and "audio_cycle lib clk s = Some s'"
  shows "engine_excess s' = engine_excess s"
proof -
  obtain ctrl q dsps where s: "s = (ctrl, q, dsps)" by (cases s)
  have i: "wf_queue q" "in_step ctrl q dsps" using assms(1) by (simp_all add: s engine_inv_def)
  show ?thesis
    by (rule in_step_cycle [OF i, of lib clk]) (use assms(2) in \<open>auto simp: s cycled_def\<close>)
qed

text \<open>
  C34: a fof answered with excess is lost, cell included: no sequence of additions and audio
  cycles ever takes a cell out of the excess list again, so every such answer shrinks the pool
  until a flush.
\<close>

theorem excess_cells_never_return:
  assumes "engine_inv s" and "n_cycles ops \<le> engine_cycles_left s"
  shows "\<exists>s' new. run_ops engine_add (audio_cycle lib) ops s = Some s' \<and> engine_inv s' \<and>
    engine_excess s' = new @ engine_excess s"
  using assms
proof (induction ops arbitrary: s rule: n_cycles.induct)
  case 1
  then show ?case by simp
next
  case (2 e ops)
  obtain st s1 where a: "engine_add s e = Some (st, s1)" "engine_inv s1"
    "engine_cycles_left s1 = engine_cycles_left s"
    using engine_add_law [OF 2(2), of e] by blast
  with 2(1) [OF a(2)] 2(3) engine_add_excess [OF 2(2) a(1)] show ?case by auto
next
  case (3 clk ops)
  obtain s1 where c: "audio_cycle lib clk s = Some s1" "engine_inv s1"
    "engine_cycles_left s1 = engine_cycles_left s - 1"
    using engine_cycle_law [OF 3(2), of lib clk] 3(3) by auto
  moreover have "n_cycles ops \<le> engine_cycles_left s1" using 3(3) c(3) by simp
  ultimately show ?case using 3(1) [OF c(2)] engine_cycle_excess [OF 3(2) c(1)] by auto
qed

theorem excess_cells_never_return_witness:
  "\<exists>s' new. run_ops engine_add (audio_cycle ex_lib) [Add_Op (100, []), Cycle_Op ex_clock]
      (ex_ctrl, ex_queue, ex_dsps) = Some s' \<and> engine_inv s' \<and>
    engine_excess s' = new @ engine_excess (ex_ctrl, ex_queue, ex_dsps)"
  by (rule excess_cells_never_return [OF ex_engine]) (use ex_cycles in simp)

subsection \<open>Additions for the cycle in progress\<close>

text \<open>The slot that is due one block after a 32-bit frame.\<close>

lemma due_slot_after_block:
  assumes "wf_config q" and "unat (m :: u32) + buf_size q < 2 ^ 32"
  shows "due_slot q (ucast (m + q_buffer_size q)) = Suc (unat m div buf_size q) mod n_slots q"
    and "(ucast (m + q_buffer_size q) :: u64) = ucast m + ucast (q_buffer_size q)"
proof -
  have b: "0 < buf_size q" by (rule wf_config_pos(2) [OF assms(1)])
  have "sint (q_buffer_size q) = uint (q_buffer_size q)"
    using assms(1) by (intro sint_nonneg_uint) (simp add: wf_config_def)
  then have bu: "unat (q_buffer_size q) = buf_size q" by (simp only: unat_eq_nat_uint)
  then have "unat m + unat (q_buffer_size q) < 2 ^ LENGTH(32)" using assms(2) by simp
  then have s: "unat (m + q_buffer_size q) = unat m + buf_size q"
    using bu by (simp only: unat_add_lem [THEN iffD1])
  then show "due_slot q (ucast (m + q_buffer_size q)) = Suc (unat m div buf_size q) mod n_slots q"
    using b by (simp add: due_slot_def unat_u64_of_u32 div_add_self2)
  have "unat (ucast m :: u64) + unat (ucast (q_buffer_size q) :: u64) < 2 ^ LENGTH(64)"
    using assms(2) unfolding unat_u64_of_u32 bu by simp
  then have "unat ((ucast m :: u64) + ucast (q_buffer_size q)) = unat m + buf_size q"
    using bu by (simp only: unat_add_lem [THEN iffD1] unat_u64_of_u32)
  then show "(ucast (m + q_buffer_size q) :: u64) = ucast m + ucast (q_buffer_size q)"
    using s by (simp only: word_unat_eq_iff unat_u64_of_u32)
qed

text \<open>An addition inside the window, in terms of the events of each slot.\<close>

lemma add_to_slot:
  assumes "wf_queue q" and "free_list q \<noteq> []" and "in_window q (start_frame q t)"
  obtains evs q2 where "fof_queue_add q t args = Some (JFOFS_SUCCESS, evs, q2)" "wf_queue q2" "q_frame q2 = q_frame q"
    "ring (abs_queue q2) = (ring (abs_queue q))[target_slot q (start_frame q t) :=
       (t, args) # ring (abs_queue q) ! target_slot q (start_frame q t)]"
proof -
  obtain a fs where fs: "free_list q = a # fs" using assms(2) by (cases "free_list q") auto
  obtain q2 where r: "fof_queue_add q t args = Some (JFOFS_SUCCESS, add_events (abs_queue q) (t, args) JFOFS_SUCCESS, q2)"
    "wf_queue q2" "spec_add (abs_queue q) (t, args) = (JFOFS_SUCCESS, abs_queue q2)" "q_frame q2 = q_frame q"
    by (rule add_refines_slot [OF assms(1) fs assms(3)])
  have "length (ring (abs_queue q)) = n_slots q" using wf_queueD(4) [OF assms(1)] by simp
  with r(3) have "ring (abs_queue q2) = (ring (abs_queue q))[target_slot q (start_frame q t) :=
       (t, args) # ring (abs_queue q) ! target_slot q (start_frame q t)]"
    by (cases rule: spec_add_cases) (simp_all add: target_slot_def)
  with r show thesis by (intro that)
qed

text \<open>A steady cycle under the rolling transport, and what makes the next one steady again.\<close>

lemma transport_cycle:
  assumes "wf_queue q" and "wf_ctrl ctrl dsps" and "c_active ctrl \<noteq> 0"
    and tr: "jfofs_clock_uses_transport (c_clock_source ctrl)"
    and "\<not> resync_due clk nframes ctrl q" and roll: "jack_transport_query clk = (JackTransportRolling, m)"
  defines "i \<equiv> due_slot q (ucast m)"
  obtains ctrl' q' where
    "ctrl_client_process_cb lib clk nframes ctrl q dsps = Some (ctrl', q', deal lib (n_clients ctrl) (last_dsp ctrl)
       (ring (abs_queue q) ! i) (cycle_dsps lib ctrl (ucast m) dsps))"
    "wf_queue q'" "wf_ctrl ctrl' dsps" "ring (abs_queue q') = (ring (abs_queue q))[i := []]"
    "q_next_frame q' = ucast m" "q_n_slots q' = q_n_slots q" "q_buffer_size q' = q_buffer_size q"
    "q_sample_rate q' = q_sample_rate q" "q_clock_source q' = q_clock_source q"
    "free_list q \<noteq> [] \<longrightarrow> free_list q' \<noteq> []"
    "c_active ctrl' = c_active ctrl" "c_clock_source ctrl' = c_clock_source ctrl" "n_clients ctrl' = n_clients ctrl"
    "c_syncronized ctrl' \<noteq> 0" "c_transport_frame ctrl' = ucast m" "c_transport_state ctrl' = JackTransportRolling"
proof -
  have gf: "get_framestamp clk (c_clock_source ctrl) = (ucast m, JackTransportRolling)"
    using tr roll by (simp add: get_framestamp_def)
  have fr: "cycle_frame ctrl (ucast m) q = ucast m" "cycle_end ctrl nframes (ucast m) q = ucast m"
    using tr by (simp_all add: cycle_frame_def cycle_end_def)
  obtain ctrl' q' evs where c:
    "spec_cycle (abs_queue q) (unat (ucast m :: u64)) (unat (ucast m :: u64)) = (evs, abs_queue q')"
    "ctrl_client_process_cb lib clk nframes ctrl q dsps
       = Some (ctrl', q', deal lib (n_clients ctrl) (last_dsp ctrl) evs (cycle_dsps lib ctrl (ucast m) dsps))"
    "wf_queue q'" "wf_ctrl ctrl' dsps" "cycled [] q (due_slot q (ucast m)) (ucast m) (ucast m) q'"
    "ctrl' = ctrl\<lparr>c_transport_frame := ucast m, c_transport_state := JackTransportRolling,
       c_syncronized := (if c_syncronized ctrl = 0 \<or> jfofs_clock_uses_transport (c_clock_source ctrl)
                         then 1 else c_syncronized ctrl),
       c_last_dsp := of_nat ((last_dsp ctrl + length evs) mod n_clients ctrl)\<rparr>"
    using process_cb_steady [OF assms(1-3,5) gf, of lib, unfolded fr] by blast
  have i: "spec_due (abs_queue q) (unat (ucast m :: u64)) = i"
    using wf_queueD(4) [OF assms(1)] by (simp add: spec_due_def due_slot_def i_def)
  then have evs: "evs = ring (abs_queue q) ! i" using c(1) by (simp only: spec_cycle_def Let_def prod.inject)
  have "ring (abs_queue q') = (ring (abs_queue q))[i := []]"
    using c(5) by (simp add: cycled_def i_def map_update)
  from that [OF c(2) [unfolded evs] c(3,4) this] show thesis using c(5,6) tr by (simp add: cycled_def)
qed

text \<open>
  An addition for the cycle just played: it goes to the slot of that cycle, which is empty, and the
  next cycle, one block later, is a steady one.
\<close>

lemma transport_add:
  assumes "wf_queue q" and "wf_ctrl ctrl dsps" and "c_active ctrl \<noteq> 0"
    and tr: "jfofs_clock_uses_transport (c_clock_source ctrl)"
    and steady: "\<not> resync_due clk nframes ctrl q"
    and "jack_transport_query clk = (JackTransportRolling, m)"
    and next_block: "jack_transport_query clk2 = (JackTransportRolling, m + q_buffer_size q)"
    and "2 \<le> n_slots q" and small: "unat m + buf_size q < 2 ^ 32"
    and t: "unat m \<le> start_frame q t" "start_frame q t < unat m + buf_size q" and "free_list q \<noteq> []"
  obtains ctrl1 q1 dsps1 evs q2 where
    "ctrl_client_process_cb lib clk nframes ctrl q dsps = Some (ctrl1, q1, dsps1)"
    "fof_queue_add q1 t args = Some (JFOFS_SUCCESS, evs, q2)" "wf_queue q2" "wf_ctrl ctrl1 dsps1"
    "c_active ctrl1 \<noteq> 0" "c_clock_source ctrl1 = c_clock_source ctrl" "n_clients ctrl1 = n_clients ctrl"
    "ring (abs_queue q2) = (ring (abs_queue q))[due_slot q (ucast m) := [(t, args)]]"
    "\<forall>n. due_slot q2 n = due_slot q n" "\<not> resync_due clk2 (q_buffer_size q) ctrl1 q2"
proof -
  let ?i = "due_slot q (ucast m)" and ?m2 = "m + q_buffer_size q"
  note wf = wf_queueD [OF assms(1)]
  obtain ctrl1 q1 where c: "ctrl_client_process_cb lib clk nframes ctrl q dsps
      = Some (ctrl1, q1, deal lib (n_clients ctrl) (last_dsp ctrl) (ring (abs_queue q) ! ?i) (cycle_dsps lib ctrl (ucast m) dsps))"
    "wf_queue q1" "wf_ctrl ctrl1 dsps" "ring (abs_queue q1) = (ring (abs_queue q))[?i := []]"
    "q_next_frame q1 = ucast m" "q_n_slots q1 = q_n_slots q" "q_buffer_size q1 = q_buffer_size q"
    "q_sample_rate q1 = q_sample_rate q" "q_clock_source q1 = q_clock_source q" "free_list q1 \<noteq> []"
    "c_active ctrl1 \<noteq> 0" "c_clock_source ctrl1 = c_clock_source ctrl" "n_clients ctrl1 = n_clients ctrl"
    "c_syncronized ctrl1 \<noteq> 0" "c_transport_frame ctrl1 = ucast m" "c_transport_state ctrl1 = JackTransportRolling"
    by (rule transport_cycle [OF assms(1-6), of lib]) (use assms(3,12) in auto)
  have sf: "start_frame q1 t = start_frame q t" using c(8) by (simp add: start_frame_def)
  have "buf_size q \<le> n_slots q * buf_size q" using assms(8) by simp
  then have w: "in_window q1 (start_frame q1 t)"
    unfolding in_window_def c(5-7) sf unat_u64_of_u32 using t by linarith
  obtain evs q2 where a: "fof_queue_add q1 t args = Some (JFOFS_SUCCESS, evs, q2)" "wf_queue q2" "q_frame q2 = q_frame q1"
    "ring (abs_queue q2) = (ring (abs_queue q1))[target_slot q1 (start_frame q1 t) :=
       (t, args) # ring (abs_queue q1) ! target_slot q1 (start_frame q1 t)]"
    by (rule add_to_slot [OF c(2,10) w])
  have "target_slot q1 (start_frame q1 t) = ?i"
    using t by (simp add: target_slot_def slot_of_def due_slot_def c(5-7) sf unat_u64_of_u32)
  then have ring: "ring (abs_queue q2) = (ring (abs_queue q))[?i := [(t, args)]]"
    using a(4) c(4) due_slot_less [OF wf(1), of "ucast m"] wf(4) by simp
  have src: "ctrl_current_clock_source q2 = c_clock_source ctrl1"
    using a(3) c(9,12) steady by (auto simp: resync_due_def q_frame_def ctrl_current_clock_source_def)
  have gf: "get_framestamp clk2 (c_clock_source ctrl1) = (ucast ?m2, JackTransportRolling)"
    using tr next_block c(12) by (simp add: get_framestamp_def)
  have "\<not> resync_due clk2 (q_buffer_size q) ctrl1 q2"
    using due_slot_after_block(2) [OF wf(1) small]
    by (simp add: resync_due_def src gf ctrl_transport_discontinuity_def c(15,16) Let_def)
  moreover have "due_slot q2 n = due_slot q n" for n using a(3) c(6,7) by (simp add: due_slot_def q_frame_def)
  ultimately show thesis using that [OF c(1) a(1,2) wf_ctrl_length [OF _ c(3)] c(11-13) ring] by simp
qed

text \<open>
  C36: with the rolling transport as clock, the queue's \<open>next_frame\<close> is the frame of the cycle that has
  just been played. A fof that starts in this cycle is answered with success, but it goes to the slot
  played already and is alone there: the next cycle, one block later, deals exactly what the slot then
  due held before the addition, and the fof is still waiting in its slot afterwards.
\<close>

theorem rolling_transport_accepts_too_late:
  assumes "wf_queue q" and "wf_ctrl ctrl dsps" and "c_active ctrl \<noteq> 0"
    and "jfofs_clock_uses_transport (c_clock_source ctrl)"
    and "\<not> resync_due clk nframes ctrl q"
    and "jack_transport_query clk = (JackTransportRolling, m)"
    and "jack_transport_query clk2 = (JackTransportRolling, m + q_buffer_size q)"
    and "2 \<le> n_slots q" and "unat m + buf_size q < 2 ^ 32"
    and "unat m \<le> start_frame q t" and "start_frame q t < unat m + buf_size q"
    and "free_list q \<noteq> []"
  shows "\<exists>ctrl1 q1 dsps1 evs q2 ctrl3 q3.
    ctrl_client_process_cb lib clk nframes ctrl q dsps = Some (ctrl1, q1, dsps1) \<and>
    fof_queue_add q1 t args = Some (JFOFS_SUCCESS, evs, q2) \<and>
    (let played = due_slot q (ucast m); next = Suc played mod n_slots q in
      next \<noteq> played \<and> ring (abs_queue q2) ! played = [(t, args)] \<and>
      ctrl_client_process_cb lib clk2 (q_buffer_size q) ctrl1 q2 dsps1
        = Some (ctrl3, q3, deal lib (n_clients ctrl) (last_dsp ctrl1) (ring (abs_queue q) ! next)
                             (cycle_dsps lib ctrl1 (ucast (m + q_buffer_size q)) dsps1)) \<and>
      ring (abs_queue q3) ! played = [(t, args)])"
proof -
  let ?i = "due_slot q (ucast m)" and ?m2 = "m + q_buffer_size q"
  note wf = wf_queueD [OF assms(1)]
  obtain ctrl1 q1 dsps1 evs q2 where a:
    "ctrl_client_process_cb lib clk nframes ctrl q dsps = Some (ctrl1, q1, dsps1)"
    "fof_queue_add q1 t args = Some (JFOFS_SUCCESS, evs, q2)" "wf_queue q2" "wf_ctrl ctrl1 dsps1"
    "c_active ctrl1 \<noteq> 0" "c_clock_source ctrl1 = c_clock_source ctrl" "n_clients ctrl1 = n_clients ctrl"
    "ring (abs_queue q2) = (ring (abs_queue q))[?i := [(t, args)]]"
    "\<forall>n. due_slot q2 n = due_slot q n" "\<not> resync_due clk2 (q_buffer_size q) ctrl1 q2"
    by (rule transport_add [OF assms, of lib args])
  obtain ctrl3 q3 where d: "ctrl_client_process_cb lib clk2 (q_buffer_size q) ctrl1 q2 dsps1
      = Some (ctrl3, q3, deal lib (n_clients ctrl1) (last_dsp ctrl1) (ring (abs_queue q2) ! due_slot q2 (ucast ?m2))
                           (cycle_dsps lib ctrl1 (ucast ?m2) dsps1))"
    "ring (abs_queue q3) = (ring (abs_queue q2))[due_slot q2 (ucast ?m2) := []]"
    by (rule transport_cycle [OF a(3-5) _ a(10) assms(7), of lib]) (use a(6) assms(4) in simp_all)
  have j: "due_slot q2 (ucast ?m2) = Suc ?i mod n_slots q"
    using due_slot_after_block(1) [OF wf(1) assms(9)] unfolding a(9) [rule_format] by (simp add: due_slot_def unat_u64_of_u32 mod_Suc_eq)
  have i: "?i < n_slots q" "length (ring (abs_queue q)) = n_slots q"
    using due_slot_less [OF wf(1), of "ucast m"] wf(4) by simp_all
  have ne: "Suc ?i mod n_slots q \<noteq> ?i" using next_slot_differs [OF assms(8), of ?i] i(1) by simp
  have r: "ring (abs_queue q2) ! ?i = [(t, args)]"
    "ring (abs_queue q2) ! (Suc ?i mod n_slots q) = ring (abs_queue q) ! (Suc ?i mod n_slots q)"
    using a(8) ne i by (simp_all del: abs_queue_simps)
  have "ring (abs_queue q3) ! ?i = [(t, args)]" unfolding d(2) j using r(1) ne by simp
  with a(1,2) d(1) [unfolded j a(7) r(2)] ne r(1) show ?thesis unfolding Let_def by blast
qed

definition ex_transport :: ctrl_client where "ex_transport = ex_ctrl\<lparr>c_clock_source := 2\<rparr>"

definition ex_transport_queue :: fof_queue where "ex_transport_queue = ex_queue\<lparr>q_clock_source := 2\<rparr>"

definition ex_later :: jack_clock where
  "ex_later = ex_clock\<lparr>jack_transport_query := (JackTransportRolling, 32)\<rparr>"

theorem rolling_transport_accepts_too_late_witness:
  "\<exists>ctrl1 q1 dsps1 evs q2 ctrl3 q3.
    ctrl_client_process_cb ex_lib ex_clock 8 ex_transport ex_transport_queue ex_dsps = Some (ctrl1, q1, dsps1) \<and>
    fof_queue_add q1 25 [] = Some (JFOFS_SUCCESS, evs, q2) \<and>
    (let played = due_slot ex_transport_queue (ucast (24 :: u32)); next = Suc played mod n_slots ex_transport_queue in
      next \<noteq> played \<and> ring (abs_queue q2) ! played = [(25, [])] \<and>
      ctrl_client_process_cb ex_lib ex_later (q_buffer_size ex_transport_queue) ctrl1 q2 dsps1
        = Some (ctrl3, q3, deal ex_lib (n_clients ex_transport) (last_dsp ctrl1) (ring (abs_queue ex_transport_queue) ! next)
             (cycle_dsps ex_lib ctrl1 (ucast ((24 :: u32) + q_buffer_size ex_transport_queue)) dsps1)) \<and>
      ring (abs_queue q3) ! played = [(25, [])])"
proof (rule rolling_transport_accepts_too_late)
  show "wf_queue ex_transport_queue" unfolding ex_transport_queue_def using ex_wf_queue by (subst wf_queue_cong(1)) simp_all
  show "wf_ctrl ex_transport ex_dsps" unfolding ex_transport_def using ex_wf_ctrl by (subst wf_ctrl_cong) simp_all
  show "c_active ex_transport \<noteq> 0" "jfofs_clock_uses_transport (c_clock_source ex_transport)"
    "\<not> resync_due ex_clock 8 ex_transport ex_transport_queue" "free_list ex_transport_queue \<noteq> []" by code_simp+
  have "start_frame ex_transport_queue 25 = 25" by code_simp
  then show "unat (24 :: u32) \<le> start_frame ex_transport_queue 25"
    and "start_frame ex_transport_queue 25 < unat (24 :: u32) + buf_size ex_transport_queue"
    by (simp_all add: ex_transport_queue_def ex_defs)
qed (simp_all add: ex_transport_queue_def ex_later_def ex_defs)

end
