(* ===== verification/Mix_Client.thy ===== *)
theory Mix_Client
  imports Examples
begin

text \<open>
  The mix client of \<^verbatim>\<open>mix_client.c\<close>: one JACK client that passes every input channel to the
  output channel of the same number. Its constructor, its process callback on the port buffers,
  and what is left when constructors fail.
\<close>

record mix_client =
  x_j_client :: nat
  x_in_port :: "nat list"
  x_out_port :: "nat list"
  x_n_chans :: c_int

subsection \<open>Construction\<close>

text \<open>The ports are registered pairwise; the outer \<^const>\<open>None\<close> is an index out of range.\<close>

fun register_pairs ::
  "(string \<Rightarrow> nat option) \<Rightarrow> nat \<Rightarrow> nat \<Rightarrow> (nat \<times> nat) list option option" where
  "register_pairs port i 0 = Some (Some [])"
| "register_pairs port i (Suc k) =
     (if \<not> i < MAX_CHANNELS then None
      else case port (''in_'' @ decimal (i + 1)) of None \<Rightarrow> Some None
      | Some p \<Rightarrow> (case port (''out_'' @ decimal (i + 1)) of None \<Rightarrow> Some None
         | Some q \<Rightarrow> do { r \<leftarrow> register_pairs port (i + 1) k; Some (map_option ((#) (p, q)) r) }))"

definition mix_client_new ::
  "jack_setup \<Rightarrow> c_int \<Rightarrow> (mix_client option \<times> c_int \<times> resource list) option" where
  "mix_client_new env n_chans =
     (let status = env_memalign env in
      if status \<noteq> 0 then Some (None, status, [])
      else case env_client_open env of
        None \<Rightarrow> Some (None, status, [])
      | Some j \<Rightarrow>
          do { ports \<leftarrow> register_pairs (env_port env) 0 (nat (sint n_chans));
               (case ports of
                  None \<Rightarrow> Some (None, status, [Memory ''mix'', Jack_Client])
                | Some ps \<Rightarrow>
                    Some (Some \<lparr>x_j_client = j, x_in_port = map fst ps, x_out_port = map snd ps,
                                x_n_chans = n_chans\<rparr>,
                          status, [Memory ''mix'', Jack_Client])) })"

definition mix_client_activate :: "(nat \<Rightarrow> c_int) \<Rightarrow> mix_client \<Rightarrow> c_int" where
  "mix_client_activate jack_activate mix = jack_activate (x_j_client mix)"

definition mix_client_deactivate :: "(nat \<Rightarrow> c_int) \<Rightarrow> mix_client \<Rightarrow> c_int" where
  "mix_client_deactivate jack_deactivate mix = jack_deactivate (x_j_client mix)"

lemma register_pairs_ok:
  "i + k \<le> MAX_CHANNELS \<Longrightarrow> (\<And>name. port name \<noteq> None) \<Longrightarrow>
   \<exists>ps. register_pairs port i k = Some (Some ps) \<and> length ps = k"
proof (induction k arbitrary: i)
  case 0
  then show ?case by simp
next
  case (Suc k)
  obtain p q where "port (''in_'' @ decimal (i + 1)) = Some p" "port (''out_'' @ decimal (i + 1)) = Some q"
    using Suc.prems(2) by fastforce
  with Suc.IH [of "i + 1"] Suc.prems show ?case by auto
qed

lemma mix_client_new_ok:
  assumes "env_memalign env = 0" and "env_client_open env = Some j"
    and "\<And>name. env_port env name \<noteq> None" and "nat (sint n_chans) \<le> MAX_CHANNELS"
  obtains mix where "mix_client_new env n_chans = Some (Some mix, 0, [Memory ''mix'', Jack_Client])"
    "x_j_client mix = j" "length (x_in_port mix) = nat (sint n_chans)"
    "length (x_out_port mix) = nat (sint n_chans)" "x_n_chans mix = n_chans"
proof -
  obtain ps where "register_pairs (env_port env) 0 (nat (sint n_chans)) = Some (Some ps)"
    "length ps = nat (sint n_chans)"
    using register_pairs_ok [of 0 _ "env_port env"] assms(3,4) by auto
  with assms(1,2) that show thesis by (simp add: mix_client_new_def Let_def)
qed

subsection \<open>The process callback\<close>

text \<open>
  The buffers of all ports, by port. \<open>memcpy\<close> of the block is undefined when a buffer is missing
  or shorter than the block.
\<close>

type_synonym port_buffers = "nat \<Rightarrow> c_float list option"

fun mix_channels :: "nat \<Rightarrow> (nat \<times> nat) list \<Rightarrow> port_buffers \<Rightarrow> port_buffers option" where
  "mix_channels n [] bufs = Some bufs"
| "mix_channels n ((i, j) # ps) bufs =
     do { in_buf \<leftarrow> bufs i;
          out_buf \<leftarrow> bufs j;
          if n \<le> length in_buf \<and> n \<le> length out_buf
          then mix_channels n ps (bufs(j := Some (take n in_buf @ drop n out_buf)))
          else None }"

definition mix_client_process :: "jack_nframes_t \<Rightarrow> mix_client \<Rightarrow> port_buffers \<Rightarrow> port_buffers option" where
  "mix_client_process nframes mix bufs =
     mix_channels (unat nframes) (take (nat (sint (x_n_chans mix))) (zip (x_in_port mix) (x_out_port mix))) bufs"

lemma mix_channels_copies:
  assumes "distinct (map snd ps)" and "set (map fst ps) \<inter> set (map snd ps) = {}"
    and "\<forall>p\<in>set (map fst ps) \<union> set (map snd ps). \<exists>b. bufs p = Some b \<and> n \<le> length b"
  shows "\<exists>bufs'. mix_channels n ps bufs = Some bufs' \<and>
    (\<forall>(i, j)\<in>set ps. \<exists>a b. bufs i = Some a \<and> bufs' j = Some b \<and> take n b = take n a) \<and>
    (\<forall>p. p \<in> set (map snd ps) \<or> bufs' p = bufs p)"
  using assms
proof (induction n ps bufs rule: mix_channels.induct)
  case (1 n bufs)
  then show ?case by simp
next
  case (2 n i j ps bufs)
  obtain a b where ab: "bufs i = Some a" "n \<le> length a" "bufs j = Some b" "n \<le> length b"
    using 2(4) by auto
  let ?bufs = "bufs(j := Some (take n a @ drop n b))"
  have other: "?bufs p = bufs p" if "p \<in> set (map fst ps)" for p using that 2(3) by auto
  have h: "\<forall>p\<in>set (map fst ps) \<union> set (map snd ps). \<exists>c. ?bufs p = Some c \<and> n \<le> length c"
    using 2(4) ab by auto
  have d: "distinct (map snd ps)" "set (map fst ps) \<inter> set (map snd ps) = {}" using 2(2,3) by auto
  obtain bufs' where IH: "mix_channels n ps ?bufs = Some bufs'"
    "\<forall>(i, j)\<in>set ps. \<exists>a b. ?bufs i = Some a \<and> bufs' j = Some b \<and> take n b = take n a"
    "\<forall>p. p \<in> set (map snd ps) \<or> bufs' p = ?bufs p"
    using 2(1) [OF ab(1) ab(3) conjI [OF ab(2,4)] d h] by blast
  have j: "bufs' j = Some (take n a @ drop n b)" using IH(3) 2(2) by (metis distinct.simps(2) fun_upd_same list.simps(9) snd_conv)
  have "\<exists>a b. bufs k = Some a \<and> bufs' l = Some b \<and> take n b = take n a" if "(k, l) \<in> set ps" for k l
  proof -
    have "k \<in> set (map fst ps)" using that by force
    then show ?thesis using IH(2) that other by fastforce
  qed
  moreover have "p \<in> set (map snd ((i, j) # ps)) \<or> bufs' p = bufs p" for p using IH(3) by auto
  moreover have "mix_channels n ((i, j) # ps) bufs = Some bufs'" using ab IH(1) by simp
  ultimately show ?case using ab j by auto
qed

text \<open>
  C30: the mix client passes each channel through: after a block every output buffer starts with
  the block of the input buffer of its channel, and no other buffer has changed. (Ports of one
  client are different from each other; every buffer has room for the block.)
\<close>

theorem mix_passes_channels_through:
  assumes "distinct (x_out_port mix)" and "set (x_in_port mix) \<inter> set (x_out_port mix) = {}"
    and "length (x_in_port mix) = nat (sint (x_n_chans mix))"
    and "length (x_out_port mix) = nat (sint (x_n_chans mix))"
    and "\<forall>p\<in>set (x_in_port mix) \<union> set (x_out_port mix). \<exists>b. bufs p = Some b \<and> unat nframes \<le> length b"
  shows "\<exists>bufs'. mix_client_process nframes mix bufs = Some bufs' \<and>
    (\<forall>i<nat (sint (x_n_chans mix)). \<exists>a b. bufs (x_in_port mix ! i) = Some a \<and>
       bufs' (x_out_port mix ! i) = Some b \<and> take (unat nframes) b = take (unat nframes) a) \<and>
    (\<forall>p. p \<in> set (x_out_port mix) \<or> bufs' p = bufs p)"
proof -
  let ?ps = "zip (x_in_port mix) (x_out_port mix)"
  have m: "map fst ?ps = x_in_port mix" "map snd ?ps = x_out_port mix"
    "take (nat (sint (x_n_chans mix))) ?ps = ?ps" using assms(3,4) by simp_all
  obtain bufs' where r: "mix_channels (unat nframes) ?ps bufs = Some bufs'"
    "\<forall>(i, j)\<in>set ?ps. \<exists>a b. bufs i = Some a \<and> bufs' j = Some b \<and> take (unat nframes) b = take (unat nframes) a"
    "\<forall>p. p \<in> set (x_out_port mix) \<or> bufs' p = bufs p"
    using mix_channels_copies [of ?ps bufs "unat nframes"] assms(1,2,5) unfolding m by blast
  have "(x_in_port mix ! i, x_out_port mix ! i) \<in> set ?ps" if "i < nat (sint (x_n_chans mix))" for i
    using that assms(3,4) by (auto simp: set_zip)
  with r show ?thesis unfolding mix_client_process_def m by fastforce
qed

definition ex_mix :: mix_client where
  "ex_mix = \<lparr>x_j_client = 0, x_in_port = [1, 2], x_out_port = [3, 4], x_n_chans = 2\<rparr>"

theorem mix_passes_channels_through_witness:
  "\<exists>bufs'. mix_client_process 1 ex_mix (\<lambda>p. Some [of_nat p]) = Some bufs' \<and>
    (\<forall>i<nat (sint (x_n_chans ex_mix)). \<exists>a b. Some [of_nat (x_in_port ex_mix ! i)] = Some a \<and>
       bufs' (x_out_port ex_mix ! i) = Some b \<and> take (unat (1 :: u32)) b = take (unat (1 :: u32)) a) \<and>
    (\<forall>p. p \<in> set (x_out_port ex_mix) \<or> bufs' p = Some [of_nat p])"
  by (rule mix_passes_channels_through) (simp_all add: ex_mix_def)

subsection \<open>Dsp clients that cannot be made\<close>

text \<open>
  A dsp client that cannot be made is reported as a success: after the memory was allocated
  every failure returns no client with a zero status, and everything but the memory that is
  freed on the first two paths stays behind, the open JACK client always.
\<close>

theorem dsp_client_failure_has_status_zero:
  assumes "env_memalign env = 0" and "nat (sint (fof_ModeToChannels lib (s_mode setup))) \<le> MAX_CHANNELS"
  shows "\<exists>dsp res. dsp_client_new lib env setup = Some (dsp, status_code JFOFS_SUCCESS, res) \<and>
    (Jack_Client \<in> set res) = (env_client_open env \<noteq> None) \<and>
    (dsp = None) = (env_client_open env = None \<or>
      fof_newBank lib (env_sample_rate env) (s_mode setup) (s_n_preallocate_fofs setup) MAX_FOFS_BUF_SIZE = None \<or>
      env_port env ''in'' = None \<or>
      register_ports (env_port env) ''out_'' 0 (nat (sint (fof_ModeToChannels lib (s_mode setup)))) = Some None)"
proof -
  obtain r where "register_ports (env_port env) ''out_'' 0 (nat (sint (fof_ModeToChannels lib (s_mode setup)))) = Some r"
    using register_ports_defined [of 0 "nat (sint (fof_ModeToChannels lib (s_mode setup)))"
        "env_port env" "''out_''"] assms(2) by auto
  with assms(1) show ?thesis
    by (auto simp: dsp_client_new_def Let_def split: option.split)
qed

definition ex_jack_ports :: jack_setup where
  "ex_jack_ports = \<lparr>env_memalign = 0, env_client_open = Some 7, env_jstatus = 0,
     env_port = (\<lambda>name. None), env_sample_rate = 48000, env_buffer_size = 64\<rparr>"

theorem dsp_client_failure_has_status_zero_witness:
  "\<exists>dsp res. dsp_client_new ex_lib ex_jack_ports ex_setup = Some (dsp, status_code JFOFS_SUCCESS, res) \<and>
    Jack_Client \<in> set res \<and> dsp = None"
  using dsp_client_failure_has_status_zero [of ex_jack_ports ex_lib ex_setup]
  by (simp add: ex_jack_ports_def ex_lib_def ex_setup_def)

end
