(* ===== verification/Shmem.thy ===== *)
theory Shmem
  imports Schedule
begin

text \<open>
  The shared memory segment of \<^verbatim>\<open>shmem.c\<close> and \<^verbatim>\<open>shmem.h\<close>, with the statistics of
  \<^verbatim>\<open>statistics.c\<close> that live in it: the layout arithmetic, creation by the server, linking and
  unmapping by clients with the reference count, and the counters. What the compiler chooses
  (struct sizes) and what the operating system answers are arguments. A segment mapped by
  several processes is one value; \<open>g_shmem\<close> of a process is \<^const>\<open>None\<close> for \<open>NULL\<close>.
\<close>

subsection \<open>State\<close>

abbreviation CACHE_LINE_SIZE :: u64 where "CACHE_LINE_SIZE \<equiv> 64"
abbreviation MAX_SLOTS :: nat where "MAX_SLOTS \<equiv> 128"

record statistics =
  st_excess_cnt :: c_int
  st_late_cnt :: c_int
  st_n_slots :: c_int
  st_slot_cnt :: "c_int list"

record shmem =
  m_base :: u64
  m_size :: u64
  m_setup :: setup_t
  m_has_statistics :: c_int
  m_statistics :: statistics
  m_reference_cnt :: c_int
  m_q :: fof_queue

text \<open>The sizes the compiler gives the structs, and whether \<open>STATISTICS_ENABLE\<close> is defined.\<close>

record build =
  sizeof_shmem :: u64
  sizeof_fof :: u64
  statistics_enable :: bool

text \<open>Answers of the operating system: \<open>shm_open\<close>, \<open>ftruncate\<close>, the address \<open>mmap\<close> returns.\<close>

record os_shm =
  os_shm_open :: bool
  os_ftruncate :: bool
  os_mmap :: "u64 option"
  os_mmap_fixed :: "u64 option"

subsection \<open>Layout\<close>

definition shmem_aligning_ptr :: "u64 \<Rightarrow> u64 \<Rightarrow> u64 option" where
  "shmem_aligning_ptr ptr alignment_size =
     (if alignment_size = 0 then None
      else let rest = ptr mod alignment_size in
        Some (if rest = 0 then ptr else ptr + alignment_size - rest))"

text \<open>The size, the offset of the slots and the offset of the fofs.\<close>

definition shmem_layout :: "build \<Rightarrow> setup_t \<Rightarrow> (u64 \<times> u64 \<times> u64) option" where
  "shmem_layout b setup =
     do { slots_off \<leftarrow> shmem_aligning_ptr (sizeof_shmem b) CACHE_LINE_SIZE;
          fofs_off \<leftarrow> shmem_aligning_ptr (slots_off + 8 * u64_of_int (s_n_slots setup)) CACHE_LINE_SIZE;
          Some (fofs_off + sizeof_fof b * u64_of_int (s_n_max_fofs setup), slots_off, fofs_off) }"

definition shmem_get_fof_slots_ptr :: "build \<Rightarrow> u64 \<Rightarrow> setup_t \<Rightarrow> u64" where
  "shmem_get_fof_slots_ptr b shmem setup = shmem + sizeof_shmem b"

definition shmem_get_fof_mem_ptr :: "build \<Rightarrow> u64 \<Rightarrow> setup_t \<Rightarrow> u64" where
  "shmem_get_fof_mem_ptr b shmem setup =
     shmem + sizeof_shmem b + 8 * u64_of_int (s_n_slots setup)"

subsection \<open>Statistics\<close>

partial_function (option) zero_times :: "cell_ptr \<Rightarrow> fof_queue \<Rightarrow> fof_queue option" where
  [code]: "zero_times fof q =
     (case fof of None \<Rightarrow> Some q
      | Some i \<Rightarrow> if i < length (q_mem q)
          then zero_times (fof_next (q_mem q ! i)) (q\<lparr>q_mem := (q_mem q)[i := (q_mem q ! i)\<lparr>time_us := 0\<rparr>]\<rparr>)
          else None)"

definition zero_statistics :: "c_int \<Rightarrow> statistics" where
  "zero_statistics n = \<lparr>st_excess_cnt = 0, st_late_cnt = 0, st_n_slots = n,
     st_slot_cnt = replicate MAX_SLOTS 0\<rparr>"

definition statistics_init :: "shmem option \<Rightarrow> shmem option option" where
  "statistics_init g_shmem =
     (case g_shmem of None \<Rightarrow> Some None
      | Some shmem \<Rightarrow>
          let shmem1 = shmem\<lparr>m_statistics := zero_statistics (s_n_slots (m_setup shmem))\<rparr> in
          do { q \<leftarrow> zero_times (q_free_fofs (m_q shmem1)) (m_q shmem1);
               Some (Some (shmem1\<lparr>m_q := q\<rparr>)) })"

text \<open>The counter array has \<open>MAX_SLOTS\<close> entries; an increment beyond it is undefined.\<close>

definition incr_slot_cnt :: "c_int \<Rightarrow> shmem option \<Rightarrow> shmem option option" where
  "incr_slot_cnt slot g_shmem =
     (case g_shmem of None \<Rightarrow> Some None
      | Some shmem \<Rightarrow>
          let st = m_statistics shmem; i = nat (sint slot) in
          if 0 \<le> sint slot \<and> i < length (st_slot_cnt st)
          then Some (Some (shmem\<lparr>m_statistics :=
                 st\<lparr>st_slot_cnt := (st_slot_cnt st)[i := st_slot_cnt st ! i + 1]\<rparr>\<rparr>))
          else None)"

definition incr_late_cnt :: "shmem option \<Rightarrow> shmem option" where
  "incr_late_cnt g_shmem = map_option (\<lambda>shmem. shmem\<lparr>m_statistics :=
     (m_statistics shmem)\<lparr>st_late_cnt := st_late_cnt (m_statistics shmem) + 1\<rparr>\<rparr>) g_shmem"

definition incr_excess_cnt :: "shmem option \<Rightarrow> shmem option" where
  "incr_excess_cnt g_shmem = map_option (\<lambda>shmem. shmem\<lparr>m_statistics :=
     (m_statistics shmem)\<lparr>st_excess_cnt := st_excess_cnt (m_statistics shmem) + 1\<rparr>\<rparr>) g_shmem"

text \<open>The counting macros of \<open>fof_queue_add\<close>, by the events its model emits.\<close>

definition count_event :: "stat_event \<Rightarrow> shmem option \<Rightarrow> shmem option option" where
  "count_event e g_shmem = (case e of
       Incr_Slot slot \<Rightarrow> incr_slot_cnt slot g_shmem
     | Incr_Late \<Rightarrow> Some (incr_late_cnt g_shmem)
     | Incr_Excess \<Rightarrow> Some (incr_excess_cnt g_shmem))"

fun count_events :: "stat_event list \<Rightarrow> shmem option \<Rightarrow> shmem option option" where
  "count_events [] g_shmem = Some g_shmem"
| "count_events (e # es) g_shmem = do { g' \<leftarrow> count_event e g_shmem; count_events es g' }"

partial_function (option) count_used :: "cell_ptr \<Rightarrow> c_int \<Rightarrow> fof_queue \<Rightarrow> c_int option" where
  [code]: "count_used fof n q =
     (case fof of None \<Rightarrow> Some n
      | Some i \<Rightarrow> if i < length (q_mem q)
          then (if time_us (q_mem q ! i) = 0 then Some n
                else count_used (fof_next (q_mem q ! i)) (n + 1) q)
          else None)"

definition max_used_free_list :: "shmem option \<Rightarrow> c_int option" where
  "max_used_free_list g_shmem =
     (case g_shmem of None \<Rightarrow> Some 0
      | Some shmem \<Rightarrow> count_used (q_free_fofs (m_q shmem)) 0 (m_q shmem))"

fun sum_slots :: "nat \<Rightarrow> nat \<Rightarrow> c_int \<Rightarrow> statistics \<Rightarrow> c_int option" where
  "sum_slots 0 i acc st = Some acc"
| "sum_slots (Suc k) i acc st =
     (if i < length (st_slot_cnt st) then sum_slots k (Suc i) (acc + st_slot_cnt st ! i) st else None)"

text \<open>The numbers \<open>dump_statistics\<close> prints: total, sum of the slots, late, excess, cells used.\<close>

definition dump_statistics :: "shmem option \<Rightarrow> (c_int \<times> c_int \<times> c_int \<times> c_int \<times> c_int) option option" where
  "dump_statistics g_shmem =
     (case g_shmem of None \<Rightarrow> Some None
      | Some shmem \<Rightarrow>
          let stats = m_statistics shmem in
          do { sum \<leftarrow> sum_slots (nat (sint (st_n_slots stats))) 0 0 stats;
               used \<leftarrow> max_used_free_list g_shmem;
               Some (Some (sum + st_late_cnt stats + st_excess_cnt stats, sum,
                           st_late_cnt stats, st_excess_cnt stats, used)) })"

subsection \<open>Creating, linking and unmapping\<close>

text \<open>
  The memory of a new shared object reads as zeros, so the queue in it has null pointers only;
  \<open>slot\<close> and \<open>free_fofs\<close> are then pointed at the two arrays.
\<close>

definition zero_fof :: fof where
  "zero_fof = \<lparr>fof_next = None, time_us = 0, argv = replicate 11 0\<rparr>"

definition fresh_queue :: "setup_t \<Rightarrow> fof_queue" where
  "fresh_queue setup = \<lparr>q_next_frame = 0, q_next_frame_check = 0, q_frame_stamp = 0,
     q_current_slot = 0, q_clock_source = 0, q_n_slots = 0, q_sample_rate = 0, q_buffer_size = 0,
     q_max_fofs = 0, q_free_cnt = 0, q_active_cnt = 0, q_free_fofs = Some 0, q_first_fof = None,
     q_last_fof = None, q_excess = None, q_slot = replicate (nat (sint (s_n_slots setup))) None,
     q_mem = replicate (nat (sint (s_n_max_fofs setup))) zero_fof\<rparr>"

text \<open>The new \<open>g_shmem\<close>, the value of \<open>*status\<close> (kept on success), and what is still open.\<close>

definition shmem_create ::
  "build \<Rightarrow> os_shm \<Rightarrow> setup_t \<Rightarrow> c_int \<Rightarrow> (shmem option \<times> c_int \<times> resource list) option" where
  "shmem_create b os setup status =
     (if \<not> os_shm_open os then Some (None, status_code JFOFS_SHM_ERROR, [])
      else do { (size, slots_off, fofs_off) \<leftarrow> shmem_layout b setup;
        if \<not> os_ftruncate os then Some (None, status_code JFOFS_SHM_ERROR, [])
        else case os_mmap os of
          None \<Rightarrow> Some (None, status_code JFOFS_SHM_MAP_ERROR, [])
        | Some addr \<Rightarrow>
            let shmem = \<lparr>m_base = addr, m_size = size, m_setup = setup,
                  m_has_statistics = (if statistics_enable b then 1 else 0),
                  m_statistics = zero_statistics 0, m_reference_cnt = 0,
                  m_q = fresh_queue setup\<rparr> in
            do { g_shmem \<leftarrow> (if statistics_enable b then statistics_init (Some shmem)
                             else Some (Some shmem));
                 Some (g_shmem, status, []) } })"

text \<open>
  Linking: a first mapping reads base and size, a second one is forced to the same address. The
  setup is read before the second result is tested, which is undefined when that mapping failed.
\<close>

definition shmem_link ::
  "build \<Rightarrow> os_shm \<Rightarrow> shmem \<Rightarrow> c_int \<Rightarrow> (shmem option \<times> c_int \<times> shmem \<times> resource list) option" where
  "shmem_link b os shmem status =
     (if \<not> os_shm_open os then Some (None, status_code JFOFS_SHM_ERROR, shmem, [])
      else case os_mmap os of
        None \<Rightarrow> Some (None, status_code JFOFS_SHM_MAP_ERROR, shmem, [File_Descriptor])
      | Some first \<Rightarrow>
          (case os_mmap_fixed os of None \<Rightarrow> None
           | Some addr \<Rightarrow>
               do { layout \<leftarrow> shmem_layout b (m_setup shmem);
                    if addr \<noteq> m_base shmem
                    then Some (None, status_code JFOFS_SHM_MAP_ERROR, shmem, [])
                    else let shmem' = shmem\<lparr>m_reference_cnt := m_reference_cnt shmem + 1\<rparr> in
                      Some (Some shmem', status, shmem', []) }))"

text \<open>Unmapping: the segment and \<open>g_shmem\<close> of the process; \<open>same\<close> tells whether it pointed there.\<close>

definition shmem_unmap :: "bool \<Rightarrow> shmem \<Rightarrow> shmem option \<Rightarrow> shmem \<times> shmem option" where
  "shmem_unmap same shm g_shmem =
     (shm\<lparr>m_reference_cnt := m_reference_cnt shm - 1\<rparr>, if same then None else g_shmem)"

subsection \<open>The layout\<close>

lemma unat_aligned:
  assumes "unat ptr + 64 \<le> 2 ^ 64" and "shmem_aligning_ptr ptr CACHE_LINE_SIZE = Some p"
  shows "unat ptr \<le> unat p" "unat p < unat ptr + 64" "unat p mod 64 = 0"
proof -
  have r: "unat (ptr mod 64) = unat ptr mod 64" by (simp add: unat_mod)
  have *: "unat p = unat ptr + (if unat ptr mod 64 = 0 then 0 else 64 - unat ptr mod 64)"
  proof (cases "ptr mod 64 = 0")
    case True
    then have "unat ptr mod 64 = 0" using r by simp
    with True assms(2) show ?thesis by (simp add: shmem_aligning_ptr_def Let_def)
  next
    case False
    then have n: "unat ptr mod 64 \<noteq> 0" using r by (metis unat_eq_zero)
    have p: "p = ptr + (64 - ptr mod 64)"
      using False assms(2) by (simp add: shmem_aligning_ptr_def Let_def add_diff_eq)
    have "ptr mod 64 \<le> 64" using r by (simp add: word_le_nat_alt less_imp_le)
    then have d: "unat (64 - ptr mod 64) = 64 - unat ptr mod 64" using r by (simp add: unat_minus)
    have "unat ptr + unat (64 - ptr mod 64) < 2 ^ LENGTH(64)" unfolding d using assms(1) n by simp
    then have "unat p = unat ptr + unat (64 - ptr mod 64)" unfolding p by (rule unat_add_lem [THEN iffD1])
    then show ?thesis using n d by simp
  qed
  have m: "unat ptr mod 64 < 64" by simp
  show "unat ptr \<le> unat p" "unat p < unat ptr + 64" using * m by simp_all
  have "(unat ptr + (64 - unat ptr mod 64)) mod 64 = 0"
  proof -
    have "unat ptr + (64 - unat ptr mod 64) = 64 * (unat ptr div 64) + 64"
      using m mult_div_mod_eq [of 64 "unat ptr"] by linarith
    then show ?thesis by simp
  qed
  then show "unat p mod 64 = 0" using * by (cases "unat ptr mod 64 = 0") simp_all
qed

lemma unat_scaled:
  assumes "0 \<le> sint n" and "unat (c :: u64) < 2 ^ 32"
  shows "unat (c * u64_of_int n) = unat c * nat (sint n)"
    and "unat c * nat (sint n) < 2 ^ 63"
proof -
  have n: "nat (sint n) < 2 ^ 31" using sint_lt [of n] by (simp add: nat_less_iff)
  have "unat c * nat (sint n) \<le> (2 ^ 32 - 1) * (2 ^ 31 - 1)" using assms(2) n by (intro mult_le_mono) simp_all
  also have "\<dots> < (2::nat) ^ 63" by simp
  finally show l: "unat c * nat (sint n) < 2 ^ 63" .
  then have "unat c * unat (u64_of_int n) < 2 ^ LENGTH(64)" using assms(1) by (simp add: unat_u64_of_int)
  then show "unat (c * u64_of_int n) = unat c * nat (sint n)"
    using assms(1) by (simp add: unat_mult_lem [THEN iffD1] unat_u64_of_int)
qed

text \<open>The sizes a compiler can give: both structs smaller than four gigabytes.\<close>

definition wf_build :: "build \<Rightarrow> bool" where
  "wf_build b \<longleftrightarrow> unat (sizeof_shmem b) < 2 ^ 32 \<and> unat (sizeof_fof b) < 2 ^ 32"

definition ex_build :: build where
  "ex_build = \<lparr>sizeof_shmem = 708, sizeof_fof = 64, statistics_enable = True\<rparr>"

lemma shmem_layout_values:
  assumes "wf_build b" and "0 \<le> sint (s_n_slots setup)" and "0 \<le> sint (s_n_max_fofs setup)"
  shows "\<exists>size slots_off fofs_off. shmem_layout b setup = Some (size, slots_off, fofs_off) \<and>
    unat (sizeof_shmem b) \<le> unat slots_off \<and> unat slots_off mod 64 = 0 \<and>
    unat slots_off + 8 * nat (sint (s_n_slots setup)) \<le> unat fofs_off \<and> unat fofs_off mod 64 = 0 \<and>
    unat size = unat fofs_off + unat (sizeof_fof b) * nat (sint (s_n_max_fofs setup))"
proof -
  note w = assms(1) [unfolded wf_build_def]
  note slots = unat_scaled [OF assms(2), of 8] and fofs = unat_scaled [OF assms(3), of "sizeof_fof b"]
  have "nat (sint (s_n_slots setup)) < 2 ^ 31"
    using sint_lt [of "s_n_slots setup"] by (simp add: nat_less_iff)
  then have n: "8 * nat (sint (s_n_slots setup)) < 2 ^ 34" by simp
  obtain so where so: "shmem_aligning_ptr (sizeof_shmem b) CACHE_LINE_SIZE = Some so"
    by (simp add: shmem_aligning_ptr_def Let_def)
  have so': "unat (sizeof_shmem b) \<le> unat so" "unat so < 2 ^ 33" "unat so mod 64 = 0"
    using unat_aligned [OF _ so] w by simp_all
  let ?e = "so + 8 * u64_of_int (s_n_slots setup)"
  have "unat so + unat (8 * u64_of_int (s_n_slots setup)) < 2 ^ LENGTH(64)"
    using so'(2) slots n by simp
  then have e: "unat ?e = unat so + 8 * nat (sint (s_n_slots setup))"
    using slots by (simp add: unat_add_lem [THEN iffD1])
  obtain fo where fo: "shmem_aligning_ptr ?e CACHE_LINE_SIZE = Some fo"
    by (simp add: shmem_aligning_ptr_def Let_def)
  have fo': "unat ?e \<le> unat fo" "unat fo < 2 ^ 36" "unat fo mod 64 = 0"
    using unat_aligned [OF _ fo] e so'(2) n by simp_all
  have "unat fo + unat (sizeof_fof b * u64_of_int (s_n_max_fofs setup)) < 2 ^ LENGTH(64)"
    using fo'(2) fofs w by simp
  then have "unat (fo + sizeof_fof b * u64_of_int (s_n_max_fofs setup))
      = unat fo + unat (sizeof_fof b) * nat (sint (s_n_max_fofs setup))"
    using fofs w by (simp add: unat_add_lem [THEN iffD1])
  then show ?thesis using so so' fo fo' e by (simp add: shmem_layout_def)
qed

text \<open>
  C27: the layout of the shared segment: for non-negative counts both arrays start on a cache
  line, the slot array lies behind the header, the fof array behind the slot array, and the
  segment ends where the fof array ends; no computation of it wraps around.
\<close>

theorem shmem_layout_disjoint:
  assumes "wf_build b" and "0 \<le> sint (s_n_slots setup)" and "0 \<le> sint (s_n_max_fofs setup)"
  shows "\<exists>size slots_off fofs_off. shmem_layout b setup = Some (size, slots_off, fofs_off) \<and>
    unat (sizeof_shmem b) \<le> unat slots_off \<and> unat slots_off mod 64 = 0 \<and>
    unat slots_off + 8 * nat (sint (s_n_slots setup)) \<le> unat fofs_off \<and> unat fofs_off mod 64 = 0 \<and>
    unat size = unat fofs_off + unat (sizeof_fof b) * nat (sint (s_n_max_fofs setup))"
  by (rule shmem_layout_values [OF assms])

theorem shmem_layout_disjoint_witness:
  "\<exists>size slots_off fofs_off. shmem_layout ex_build ex_setup = Some (size, slots_off, fofs_off) \<and>
    unat (sizeof_shmem ex_build) \<le> unat slots_off \<and> unat slots_off mod 64 = 0 \<and>
    unat slots_off + 8 * nat (sint (s_n_slots ex_setup)) \<le> unat fofs_off \<and> unat fofs_off mod 64 = 0 \<and>
    unat size = unat fofs_off + unat (sizeof_fof ex_build) * nat (sint (s_n_max_fofs ex_setup))"
  by (rule shmem_layout_disjoint) (simp_all add: wf_build_def ex_build_def ex_setup_def)

subsection \<open>The segment after its creation\<close>

lemma zero_times_eq:
  assumes "chain (nexts q) p xs" and "set xs \<subseteq> {..<length (q_mem q)}"
  obtains q' where "zero_times p q = Some q'" "nexts q' = nexts q" "length (q_mem q') = length (q_mem q)"
    "q' = q\<lparr>q_mem := q_mem q'\<rparr>"
    "\<And>i. i < length (q_mem q) \<Longrightarrow> time_us (q_mem q' ! i) = (if i \<in> set xs then 0 else time_us (q_mem q ! i))"
  using assms
proof (induction xs arbitrary: p q thesis)
  case Nil
  then show ?case by (intro Nil.prems(1) [of q]) (simp_all add: zero_times.simps)
next
  case (Cons a xs)
  let ?q1 = "q\<lparr>q_mem := (q_mem q)[a := (q_mem q ! a)\<lparr>time_us := 0\<rparr>]\<rparr>"
  have a: "a < length (q_mem q)" "p = Some a" using Cons.prems by simp_all
  have n: "nexts ?q1 = nexts q" using a by (auto simp: nexts_def nth_list_update fun_eq_iff)
  obtain q' where r: "zero_times (nexts q a) ?q1 = Some q'" "nexts q' = nexts ?q1"
    "length (q_mem q') = length (q_mem ?q1)" "q' = ?q1\<lparr>q_mem := q_mem q'\<rparr>"
    "\<And>i. i < length (q_mem ?q1) \<Longrightarrow> time_us (q_mem q' ! i) = (if i \<in> set xs then 0 else time_us (q_mem ?q1 ! i))"
    using Cons.IH [of "nexts q a" ?q1] Cons.prems(2,3) n by auto
  have z: "zero_times p q = zero_times (nexts q a) ?q1"
    using a by (subst zero_times.simps) (simp add: nexts_def)
  show ?case
  proof (rule Cons.prems(1) [of q'])
    show "zero_times p q = Some q'" using z r(1) by simp
    show "q' = q\<lparr>q_mem := q_mem q'\<rparr>" using r(4) by simp
  qed (use r n a in \<open>auto simp: nth_list_update\<close>)
qed

lemma fresh_raw: "raw_queue (fresh_queue setup) setup"
  by (simp add: raw_queue_def fresh_queue_def)

lemma shmem_create_ok:
  assumes "os_shm_open os" "os_ftruncate os" "os_mmap os = Some addr"
    and "wf_build b" "wf_setup setup"
  obtains shmem size slots_off fofs_off where
    "shmem_create b os setup status = Some (Some shmem, status, [])"
    "shmem_layout b setup = Some (size, slots_off, fofs_off)" "m_base shmem = addr" "m_size shmem = size"
    "m_setup shmem = setup" "m_reference_cnt shmem = 0" "raw_queue (m_q shmem) setup"
    "m_statistics shmem = zero_statistics (if statistics_enable b then s_n_slots setup else 0)"
proof -
  have n: "0 \<le> sint (s_n_slots setup)" "0 < sint (s_n_max_fofs setup)"
    using assms(5) by (auto simp: wf_setup_def sint_pow2)
  then obtain size sl fo where l: "shmem_layout b setup = Some (size, sl, fo)"
    using shmem_layout_values [OF assms(4), of "setup"] by auto
  have c: "chain (nexts (fresh_queue setup)) (q_free_fofs (fresh_queue setup)) [0]"
    using n(2) by (simp add: fresh_queue_def nexts_def zero_fof_def)
  have r: "set [0] \<subseteq> {..<length (q_mem (fresh_queue setup))}" using n(2) by (simp add: fresh_queue_def)
  obtain q' where q': "zero_times (q_free_fofs (fresh_queue setup)) (fresh_queue setup) = Some q'"
    "length (q_mem q') = length (q_mem (fresh_queue setup))" "q' = (fresh_queue setup)\<lparr>q_mem := q_mem q'\<rparr>"
    using zero_times_eq [OF c r] by blast
  have "q_free_fofs q' = q_free_fofs (fresh_queue setup)" "q_slot q' = q_slot (fresh_queue setup)"
    by (subst q'(3); simp)+
  then have "raw_queue q' setup" using fresh_raw [of "setup"] q'(2) by (simp add: raw_queue_def)
  then show thesis
    using assms(1-3) l q'(1) fresh_raw [of "setup"] that
    by (cases "statistics_enable b")
       (simp_all add: shmem_create_def statistics_init_def Let_def zero_statistics_def)
qed

definition ex_os :: os_shm where
  "ex_os = \<lparr>os_shm_open = True, os_ftruncate = True, os_mmap = Some 4096, os_mmap_fixed = Some 4096\<rparr>"

text \<open>
  What the server creates can be used: when the operating system answers every request, the
  segment has the size of the layout, no client is counted, and initialising the queue in it
  gives a well-formed queue with every cell free.
\<close>

theorem shmem_create_then_init:
  assumes "os_shm_open os" and "os_ftruncate os" and "os_mmap os = Some addr"
    and "wf_build b" and "wf_setup setup"
  shows "\<exists>shmem q size slots_off fofs_off.
    shmem_create b os setup status = Some (Some shmem, status, []) \<and>
    shmem_layout b setup = Some (size, slots_off, fofs_off) \<and> m_size shmem = size \<and>
    m_base shmem = addr \<and> m_setup shmem = setup \<and> m_reference_cnt shmem = 0 \<and>
    fof_queue_init (m_q shmem) setup = Some q \<and> wf_queue q \<and>
    length (free_list q) = nat (sint (s_n_max_fofs setup))"
proof -
  obtain shmem size sl fo where r: "shmem_create b os setup status = Some (Some shmem, status, [])"
    "shmem_layout b setup = Some (size, sl, fo)" "m_base shmem = addr" "m_size shmem = size"
    "m_setup shmem = setup" "m_reference_cnt shmem = 0" "raw_queue (m_q shmem) setup"
    by (rule shmem_create_ok [OF assms])
  obtain q where "fof_queue_init (m_q shmem) setup = Some q" "wf_queue q"
    "owns q [0..<nat (sint (s_n_max_fofs setup))] (replicate (nat (sint (s_n_slots setup))) []) [] []"
    by (rule init_owns [OF r(7) assms(5)])
  with r show ?thesis by (auto dest: owns_lists(1))
qed

theorem shmem_create_then_init_witness:
  "\<exists>shmem q size slots_off fofs_off.
    shmem_create ex_build ex_os ex_setup 0 = Some (Some shmem, 0, []) \<and>
    shmem_layout ex_build ex_setup = Some (size, slots_off, fofs_off) \<and> m_size shmem = size \<and>
    m_base shmem = 4096 \<and> m_setup shmem = ex_setup \<and> m_reference_cnt shmem = 0 \<and>
    fof_queue_init (m_q shmem) ex_setup = Some q \<and> wf_queue q \<and>
    length (free_list q) = nat (sint (s_n_max_fofs ex_setup))"
  by (rule shmem_create_then_init [OF _ _ _ _ ex_wf_setup])
     (simp_all add: ex_os_def wf_build_def ex_build_def)

subsection \<open>Counting used cells\<close>

lemma count_used_eq:
  assumes "chain (nexts q) p xs" and "set xs \<subseteq> {..<length (q_mem q)}"
  shows "count_used p n q
    = Some (n + of_nat (length (takeWhile (\<lambda>i. time_us (q_mem q ! i) \<noteq> 0) xs)))"
  using assms
proof (induction xs arbitrary: p n)
  case Nil
  then show ?case by (simp add: count_used.simps)
next
  case (Cons a xs)
  then show ?case by (subst count_used.simps) (auto simp: nexts_def)
qed

text \<open>
  The statistics report as \<open>max used\<close> the length of the longest initial part of the free
  list whose cells carry a time; right after the creation and initialisation it is zero.
\<close>

theorem max_used_free_list_counts:
  assumes "wf_queue (m_q shmem)"
  shows "max_used_free_list (Some shmem) = Some (of_nat (length
    (takeWhile (\<lambda>i. time_us (q_mem (m_q shmem) ! i) \<noteq> 0) (free_list (m_q shmem)))))"
proof -
  note o = wf_queueD(3) [OF assms]
  have "chain (nexts (m_q shmem)) (q_free_fofs (m_q shmem)) (free_list (m_q shmem))"
    using o by (simp add: owns_def)
  then show ?thesis
    using count_used_eq [OF _ owns_range(1) [OF o], of _ 0] by (simp add: max_used_free_list_def)
qed

definition ex_shmem :: shmem where
  "ex_shmem = \<lparr>m_base = 4096, m_size = 1024, m_setup = ex_setup, m_has_statistics = 1,
     m_statistics = zero_statistics 4, m_reference_cnt = 0, m_q = ex_queue\<rparr>"

theorem max_used_free_list_counts_witness: "max_used_free_list (Some ex_shmem) = Some 0"
proof -
  have "takeWhile (\<lambda>i. time_us (q_mem (m_q ex_shmem) ! i) \<noteq> 0) (free_list (m_q ex_shmem)) = []"
    by code_simp
  moreover have "wf_queue (m_q ex_shmem)" using ex_wf_queue by (simp add: ex_shmem_def)
  ultimately show ?thesis using max_used_free_list_counts [of ex_shmem] by simp
qed

end
