(* ===== verification/Manager.thy ===== *)
theory Manager
  imports Mix_Client Shmem Delivery
begin

text \<open>
  The server side of \<^verbatim>\<open>manager.c\<close>: it creates the segment, the control, mix and dsp clients,
  activates and connects them, and takes everything down again. JACK's answers are arguments;
  what the manager asks of JACK and of the operating system is returned as a list of events.
  \<^const>\<open>None\<close> is a null pointer dereferenced or an array index out of range.
\<close>

record mgr_env =
  mj_alloc :: c_int             \<comment> \<open>\<open>posix_memalign\<close> for the manager\<close>
  mj_ctrl :: jack_setup
  mj_mix :: jack_setup
  mj_dsp :: "nat \<Rightarrow> jack_setup"
  mj_activate :: "nat \<Rightarrow> c_int"
  mj_deactivate :: "nat \<Rightarrow> c_int"
  mj_connect :: "nat \<Rightarrow> nat \<Rightarrow> c_int"

datatype mgr_event =
  Activated nat | Deactivated nat | Closed nat | Connected nat nat | Bank_Freed nat | Unlinked

record 'b manager =
  mg_ctrl :: ctrl_client
  mg_dsp :: "'b dsp_client option list"
  mg_mix :: mix_client
  mg_setup :: setup_t
  mg_shmem :: shmem

abbreviation mgr_clients :: "'b manager \<Rightarrow> nat" where
  "mgr_clients mgr \<equiv> nat (sint (s_n_clients (mg_setup mgr)))"

subsection \<open>Construction\<close>

text \<open>The loop over the dsp clients, from \<open>i\<close> on: a client that could not be made is stored as \<open>NULL\<close>.\<close>

fun new_dsps ::
  "'b fofs_lib \<Rightarrow> (nat \<Rightarrow> jack_setup) \<Rightarrow> setup_t \<Rightarrow> nat \<Rightarrow> nat \<Rightarrow> c_int \<times> ctrl_client \<times> 'b dsp_client option list
     \<Rightarrow> (c_int \<times> ctrl_client \<times> 'b dsp_client option list) option"
where
  "new_dsps lib env setup i 0 s = Some s"
| "new_dsps lib env setup i (Suc k) (status, ctrl, dsps) =
     do { (dsp, status', res) \<leftarrow> dsp_client_new lib (env i) setup;
          if i < MAX_DSP_CLIENTS
          then new_dsps lib env setup (i + 1) k
                 (status', ctrl\<lparr>c_dsp := (c_dsp ctrl)[i := map_option (\<lambda>d. i) dsp]\<rparr>, dsps[i := dsp])
          else None }"

text \<open>The manager, the value of \<open>*status\<close>, and the caller's setup as updated from JACK.\<close>

definition manager_new ::
  "'b fofs_lib \<Rightarrow> mgr_env \<Rightarrow> shmem \<Rightarrow> setup_t \<Rightarrow> ('b manager option \<times> c_int \<times> setup_t) option" where
  "manager_new lib env shmem setup =
     (if mj_alloc env \<noteq> 0 then Some (None, mj_alloc env, setup)
      else case ctrl_client_new (mj_ctrl env) setup of (ctrl, st1, res1) \<Rightarrow>
        do { (mix, st2, res2) \<leftarrow> mix_client_new (mj_mix env) (fof_ModeToChannels lib (s_mode setup));
             mix \<leftarrow> mix;
             ctrl \<leftarrow> ctrl;
             let setup' = setup\<lparr>s_sample_rate := env_sample_rate (mj_ctrl env),
                                s_max_buffer_size := env_buffer_size (mj_ctrl env)\<rparr>;
             q \<leftarrow> fof_queue_init (m_q shmem) setup';
             (status, ctrl', dsps) \<leftarrow> new_dsps lib (mj_dsp env) setup' 0 (nat (sint (s_n_clients setup)))
                                       (st2, ctrl, replicate MAX_DSP_CLIENTS None);
             Some (Some \<lparr>mg_ctrl = ctrl', mg_dsp = dsps, mg_mix = mix, mg_setup = setup,
                         mg_shmem = shmem\<lparr>m_q := q\<rparr>\<rparr>, status, setup') })"

subsection \<open>Activation and connection\<close>

text \<open>A JACK call per client until one fails: the status and the calls made.\<close>

fun each_dsp ::
  "('b dsp_client \<Rightarrow> c_int) \<Rightarrow> (nat \<Rightarrow> mgr_event) \<Rightarrow> 'b dsp_client option list
     \<Rightarrow> (c_int \<times> mgr_event list) option"
where
  "each_dsp call ev [] = Some (0, [])"
| "each_dsp call ev (d # ds) =
     do { dsp \<leftarrow> d;
          if call dsp \<noteq> 0 then Some (call dsp, [ev (d_j_client dsp)])
          else do { (status, evs) \<leftarrow> each_dsp call ev ds; Some (status, ev (d_j_client dsp) # evs) } }"

definition manager_activate_clients ::
  "mgr_env \<Rightarrow> 'b manager \<Rightarrow> (c_int \<times> mgr_event list \<times> 'b manager) option" where
  "manager_activate_clients env mgr =
     (let status = mix_client_activate (mj_activate env) (mg_mix mgr);
          ev = Activated (x_j_client (mg_mix mgr)) in
      if status \<noteq> 0 then Some (status, [ev], mgr)
      else do { (status, evs) \<leftarrow> each_dsp (dsp_client_activate (mj_activate env)) Activated
                                   (take (mgr_clients mgr) (mg_dsp mgr));
                if status \<noteq> 0 then Some (status, ev # evs, mgr)
                else case ctrl_client_activate (mj_activate env) (mg_ctrl mgr) of (status, ctrl) \<Rightarrow>
                  Some (status, ev # evs @ [Activated (c_j_client ctrl)], mgr\<lparr>mg_ctrl := ctrl\<rparr>) })"

definition manager_deactivate_clients ::
  "mgr_env \<Rightarrow> 'b manager \<Rightarrow> (c_int \<times> mgr_event list \<times> 'b manager) option" where
  "manager_deactivate_clients env mgr =
     (case ctrl_client_deactivate (mj_deactivate env) (mg_ctrl mgr) of (status, ctrl) \<Rightarrow>
        let mgr1 = mgr\<lparr>mg_ctrl := ctrl\<rparr>; ev = Deactivated (c_j_client ctrl) in
        if status \<noteq> 0 then Some (status, [ev], mgr1)
        else do { (status, evs) \<leftarrow> each_dsp (dsp_client_deactivate (mj_deactivate env)) Deactivated
                                     (take (mgr_clients mgr) (mg_dsp mgr));
                  if status \<noteq> 0 then Some (status, ev # evs, mgr1)
                  else Some (mix_client_deactivate (mj_deactivate env) (mg_mix mgr),
                             ev # evs @ [Deactivated (x_j_client (mg_mix mgr))], mgr1) })"

text \<open>The control client's port to the input of every dsp client.\<close>

fun connect_ctrl ::
  "(nat \<Rightarrow> nat \<Rightarrow> c_int) \<Rightarrow> nat option \<Rightarrow> 'b dsp_client option list \<Rightarrow> (c_int \<times> mgr_event list) option"
where
  "connect_ctrl connect port [] = Some (0, [])"
| "connect_ctrl connect port (d # ds) =
     do { p \<leftarrow> port;
          dsp \<leftarrow> d;
          if connect p (d_in_port dsp) \<noteq> 0
          then Some (connect p (d_in_port dsp), [Connected p (d_in_port dsp)])
          else do { (status, evs) \<leftarrow> connect_ctrl connect port ds;
                    Some (status, Connected p (d_in_port dsp) # evs) } }"

text \<open>The first \<open>k\<close> channels of a dsp client to the mix client's inputs.\<close>

fun connect_chans ::
  "(nat \<Rightarrow> nat \<Rightarrow> c_int) \<Rightarrow> nat \<Rightarrow> nat list \<Rightarrow> nat list \<Rightarrow> (c_int \<times> mgr_event list) option"
where
  "connect_chans connect 0 outs ins = Some (0, [])"
| "connect_chans connect (Suc k) (p # outs) (r # ins) =
     (if connect p r \<noteq> 0 then Some (connect p r, [Connected p r])
      else do { (status, evs) \<leftarrow> connect_chans connect k outs ins; Some (status, Connected p r # evs) })"
| "connect_chans connect (Suc k) outs ins = None"

fun connect_dsps ::
  "(nat \<Rightarrow> nat \<Rightarrow> c_int) \<Rightarrow> nat list \<Rightarrow> 'b dsp_client option list \<Rightarrow> (c_int \<times> mgr_event list) option"
where
  "connect_dsps connect ins [] = Some (0, [])"
| "connect_dsps connect ins (d # ds) =
     do { dsp \<leftarrow> d;
          (status, evs) \<leftarrow> connect_chans connect (nat (sint (d_n_chans dsp))) (d_out_port dsp) ins;
          if status \<noteq> 0 then Some (status, evs)
          else do { (status, evs') \<leftarrow> connect_dsps connect ins ds; Some (status, evs @ evs') } }"

definition manager_connect_clients ::
  "mgr_env \<Rightarrow> 'b manager \<Rightarrow> (c_int \<times> mgr_event list) option" where
  "manager_connect_clients env mgr =
     (let dsps = take (mgr_clients mgr) (mg_dsp mgr) in
      do { (status, evs) \<leftarrow> connect_ctrl (mj_connect env) (c_port (mg_ctrl mgr)) dsps;
           if status \<noteq> 0 then Some (status, evs)
           else do { (status, evs') \<leftarrow> connect_dsps (mj_connect env) (x_in_port (mg_mix mgr)) dsps;
                     Some (if status \<noteq> 0 then status else status_code JFOFS_SUCCESS, evs @ evs') } })"

subsection \<open>Taking down\<close>

text \<open>
  Each client frees itself: it is deactivated, whatever its state, and closed; a dsp client then
  frees its bank (named by the JACK client).
\<close>

definition ctrl_client_free :: "ctrl_client \<Rightarrow> mgr_event list" where
  "ctrl_client_free ctrl = [Deactivated (c_j_client ctrl), Closed (c_j_client ctrl)]"

definition mix_client_free :: "mix_client \<Rightarrow> mgr_event list" where
  "mix_client_free mix = [Deactivated (x_j_client mix), Closed (x_j_client mix)]"

definition dsp_client_free :: "'b dsp_client \<Rightarrow> mgr_event list" where
  "dsp_client_free dsp = [Deactivated (d_j_client dsp), Closed (d_j_client dsp), Bank_Freed (d_j_client dsp)]"

fun free_dsps :: "'b dsp_client option list \<Rightarrow> mgr_event list" where
  "free_dsps [] = []"
| "free_dsps (None # ds) = free_dsps ds"
| "free_dsps (Some d # ds) = dsp_client_free d @ free_dsps ds"

definition manager_free :: "mgr_env \<Rightarrow> 'b manager \<Rightarrow> mgr_event list option" where
  "manager_free env mgr =
     do { (status, evs, mgr1) \<leftarrow> manager_deactivate_clients env mgr;
          Some (evs @ mix_client_free (mg_mix mgr)
            @ free_dsps (take (mgr_clients mgr) (mg_dsp mgr))
            @ ctrl_client_free (mg_ctrl mgr) @ [Unlinked]) }"

text \<open>The manager, the value of \<open>*status\<close>, the caller's setup and all events.\<close>

definition manager_create ::
  "'b fofs_lib \<Rightarrow> build \<Rightarrow> os_shm \<Rightarrow> mgr_env \<Rightarrow> setup_t
     \<Rightarrow> ('b manager option \<times> c_int \<times> setup_t \<times> mgr_event list) option" where
  "manager_create lib b os env setup =
     do { (shmem, status, res) \<leftarrow> shmem_create b os setup 0;
          (case shmem of None \<Rightarrow> Some (None, status, setup, [])
           | Some shmem \<Rightarrow>
               do { (mgr, status, setup') \<leftarrow> manager_new lib env shmem setup;
                    (case mgr of None \<Rightarrow> Some (None, status_code JFOFS_MEMORY_ERROR, setup', [])
                     | Some mgr \<Rightarrow>
                         do { (status, evs, mgr1) \<leftarrow> manager_activate_clients env mgr;
                              if status \<noteq> 0
                              then do { evs' \<leftarrow> manager_free env mgr1; Some (None, status, setup', evs @ evs') }
                              else do { (status, evs1) \<leftarrow> manager_connect_clients env mgr1;
                                        if status \<noteq> 0
                                        then do { evs' \<leftarrow> manager_free env mgr1;
                                                  Some (None, status, setup', evs @ evs1 @ evs') }
                                        else Some (Some mgr1, 0, setup', evs @ evs1) } }) }) }"

definition manager_add :: "'b manager \<Rightarrow> u64 \<Rightarrow> c_float list \<Rightarrow> (jfofs_status \<times> stat_event list \<times> 'b manager) option" where
  "manager_add mgr t args =
     do { (st, evs, q) \<leftarrow> fof_queue_add (m_q (mg_shmem mgr)) t args;
          Some (st, evs, mgr\<lparr>mg_shmem := (mg_shmem mgr)\<lparr>m_q := q\<rparr>\<rparr>) }"

text \<open>
  The time stamp in microseconds, from the seconds and nanoseconds that \<open>clock_gettime\<close> stored.
  The nanoseconds are multiplied where they had to be divided, so the stamp is right at whole
  seconds only and can go back by more than eleven days when a second is completed.
\<close>

definition systime :: "64 word \<Rightarrow> 64 word \<Rightarrow> jfofs_time_t" where
  "systime tv_sec tv_nsec = tv_sec * 1000000 + tv_nsec * 1000"

lemma systime_jumps_back:
  assumes "unat sec < 2 ^ 40"
  shows "unat (systime sec 999999999) = unat (systime (sec + 1) 0) + 999998999000"
proof -
  define k where "k = unat sec"
  have k: "sec = of_nat k" "k < 2 ^ 40" using assms by (simp_all add: k_def)
  have v: "unat (of_nat m :: u64) = m" if "m < 2 ^ 64" for m
    using that by (simp add: unat_of_nat take_bit_nat_eq_self)
  have "systime sec 999999999 = of_nat (k * 1000000 + 999999999000)"
    "systime (sec + 1) 0 = of_nat (Suc k * 1000000)"
    by (simp_all add: systime_def k(1))
  moreover have "k * 1000000 + 999999999000 < 2 ^ 64" "Suc k * 1000000 < 2 ^ 64" using k(2) by simp_all
  ultimately show ?thesis by (simp only: v) simp
qed

subsection \<open>A manager that can be made\<close>

text \<open>JACK and the library answer every request of the server.\<close>

definition client_works :: "jack_setup \<Rightarrow> bool" where
  "client_works e \<longleftrightarrow> env_memalign e = 0 \<and> env_client_open e \<noteq> None \<and> (\<forall>name. env_port e name \<noteq> None)"

definition jack_works :: "'b fofs_lib \<Rightarrow> mgr_env \<Rightarrow> bool" where
  "jack_works lib env \<longleftrightarrow> mj_alloc env = 0 \<and> client_works (mj_ctrl env) \<and> client_works (mj_mix env) \<and>
     (\<forall>i. client_works (mj_dsp env i)) \<and> (\<forall>r m p s. fof_newBank lib r m p s \<noteq> None) \<and>
     (\<forall>j. mj_activate env j = 0) \<and> (\<forall>p r. mj_connect env p r = 0)"

text \<open>The setup as the manager completes it from JACK.\<close>

definition jack_setup_of :: "mgr_env \<Rightarrow> setup_t \<Rightarrow> setup_t" where
  "jack_setup_of env setup = setup\<lparr>s_sample_rate := env_sample_rate (mj_ctrl env),
     s_max_buffer_size := env_buffer_size (mj_ctrl env)\<rparr>"

text \<open>The settings a server accepts: counts in range, and a block size of at least two frames.\<close>

definition server_setup :: "'b fofs_lib \<Rightarrow> mgr_env \<Rightarrow> setup_t \<Rightarrow> bool" where
  "server_setup lib env setup \<longleftrightarrow> wf_setup setup \<and> wf_setup (jack_setup_of env setup) \<and>
     0 < sint (s_n_clients setup) \<and> nat (sint (s_n_clients setup)) \<le> MAX_DSP_CLIENTS \<and>
     nat (sint (fof_ModeToChannels lib (s_mode setup))) \<le> MAX_CHANNELS"

text \<open>The dsp clients with a given number of channels from place \<open>i\<close> on, \<open>k\<close> of them, are in the tables.\<close>

definition dsp_fits :: "c_int \<Rightarrow> 'b dsp_client \<Rightarrow> bool" where
  "dsp_fits chans d \<longleftrightarrow> d_n_chans d = chans \<and> length (d_out_port d) = nat (sint chans)"

definition filled ::
  "c_int \<Rightarrow> nat \<Rightarrow> nat \<Rightarrow> nat option list \<Rightarrow> 'b dsp_client option list
     \<Rightarrow> nat option list \<Rightarrow> 'b dsp_client option list \<Rightarrow> bool" where
  "filled chans i k ptrs dsps ptrs' dsps' \<longleftrightarrow>
     length ptrs' = MAX_DSP_CLIENTS \<and> length dsps' = MAX_DSP_CLIENTS \<and>
     (\<forall>j<MAX_DSP_CLIENTS.
        if i \<le> j \<and> j < i + k then ptrs' ! j = Some j \<and> (\<exists>d. dsps' ! j = Some d \<and> dsp_fits chans d)
        else ptrs' ! j = ptrs ! j \<and> dsps' ! j = dsps ! j)"

lemma filled_Suc:
  assumes "filled chans (i + 1) k (ptrs[i := Some i]) (dsps[i := Some d]) ptrs' dsps'" and "dsp_fits chans d"
    and "i < MAX_DSP_CLIENTS" and "length ptrs = MAX_DSP_CLIENTS" and "length dsps = MAX_DSP_CLIENTS"
  shows "filled chans i (Suc k) ptrs dsps ptrs' dsps'"
proof -
  have "if i \<le> j \<and> j < i + Suc k then ptrs' ! j = Some j \<and> (\<exists>d. dsps' ! j = Some d \<and> dsp_fits chans d)
        else ptrs' ! j = ptrs ! j \<and> dsps' ! j = dsps ! j" if "j < MAX_DSP_CLIENTS" for j
    using assms that by (cases "j = i") (auto simp: filled_def split: if_splits)
  then show ?thesis using assms(1) by (simp add: filled_def)
qed

lemma new_dsps_ok:
  assumes "\<And>i. client_works (env i)" and "\<And>r m p s. fof_newBank lib r m p s \<noteq> None"
    and "nat (sint (fof_ModeToChannels lib (s_mode setup))) \<le> MAX_CHANNELS"
    and "i + k \<le> MAX_DSP_CLIENTS" and "length dsps = MAX_DSP_CLIENTS" and "length (c_dsp ctrl) = MAX_DSP_CLIENTS"
    and "st = 0"
  shows "\<exists>dsps' ptrs. new_dsps lib env setup i k (st, ctrl, dsps) = Some (0, ctrl\<lparr>c_dsp := ptrs\<rparr>, dsps') \<and>
    filled (fof_ModeToChannels lib (s_mode setup)) i k (c_dsp ctrl) dsps ptrs dsps'"
  using assms(4-7)
proof (induction k arbitrary: i st ctrl dsps)
  case 0
  then show ?case by (intro exI [of _ dsps] exI [of _ "c_dsp ctrl"]) (auto simp: filled_def)
next
  case (Suc k)
  let ?chans = "fof_ModeToChannels lib (s_mode setup)"
  obtain j bank where e: "env_memalign (env i) = 0" "env_client_open (env i) = Some j"
    "fof_newBank lib (env_sample_rate (env i)) (s_mode setup) (s_n_preallocate_fofs setup) MAX_FOFS_BUF_SIZE = Some bank"
    "\<And>name. env_port (env i) name \<noteq> None"
    using assms(1) [of i] assms(2) unfolding client_works_def by blast
  obtain dsp where d: "dsp_client_new lib (env i) setup = Some (Some dsp, 0, [Memory ''dsp'', Jack_Client, Fof_Bank])"
    "dsp_fits ?chans dsp"
    by (rule dsp_client_new_ok [OF e assms(3)]) (auto simp: dsp_fits_def)
  let ?ctrl = "ctrl\<lparr>c_dsp := (c_dsp ctrl)[i := Some i]\<rparr>"
  have "\<exists>dsps' ptrs. new_dsps lib env setup (i + 1) k (0, ?ctrl, dsps[i := Some dsp])
      = Some (0, ?ctrl\<lparr>c_dsp := ptrs\<rparr>, dsps') \<and>
    filled ?chans (i + 1) k (c_dsp ?ctrl) (dsps[i := Some dsp]) ptrs dsps'"
    using Suc.prems by (intro Suc.IH) simp_all
  then obtain dsps' ptrs where r: "new_dsps lib env setup (i + 1) k (0, ?ctrl, dsps[i := Some dsp])
      = Some (0, ?ctrl\<lparr>c_dsp := ptrs\<rparr>, dsps')"
    "filled ?chans (i + 1) k ((c_dsp ctrl)[i := Some i]) (dsps[i := Some dsp]) ptrs dsps'" by auto
  have i: "i < MAX_DSP_CLIENTS" using Suc.prems(1) by simp
  have "new_dsps lib env setup i (Suc k) (st, ctrl, dsps) = Some (0, ctrl\<lparr>c_dsp := ptrs\<rparr>, dsps')"
    using d(1) i r(1) by simp
  with filled_Suc [OF r(2) d(2) i Suc.prems(3,2)] show ?case by blast
qed

lemma each_dsp_ok:
  assumes "None \<notin> set ds" and "\<And>d. call d = 0"
  shows "each_dsp call ev ds = Some (0, map (\<lambda>d. ev (d_j_client (the d))) ds)"
  using assms
proof (induction ds)
  case (Cons a ds)
  then show ?case by (cases a) auto
qed simp

text \<open>The connections asked for: the control client to each dsp client, every channel to the mix client.\<close>

definition ctrl_links :: "nat option \<Rightarrow> 'b dsp_client list \<Rightarrow> mgr_event list" where
  "ctrl_links port ds = map (\<lambda>d. Connected (the port) (d_in_port d)) ds"

definition chan_links :: "nat list \<Rightarrow> 'b dsp_client list \<Rightarrow> mgr_event list" where
  "chan_links ins ds = concat (map (\<lambda>d. map2 Connected (d_out_port d) ins) ds)"

lemma connect_ctrl_ok:
  assumes "None \<notin> set ds" and "\<And>p r. connect p r = 0" and "port \<noteq> None"
  shows "connect_ctrl connect port ds = Some (0, ctrl_links port (map the ds))"
  using assms
proof (induction ds)
  case (Cons a ds)
  then show ?case by (cases a) (auto simp: ctrl_links_def)
qed (simp add: ctrl_links_def)

lemma connect_chans_ok:
  assumes "length outs = k" and "length ins = k" and "\<And>p r. connect p r = 0"
  shows "connect_chans connect k outs ins = Some (0, map2 Connected outs ins)"
  using assms
proof (induction k arbitrary: outs ins)
  case 0
  then show ?case by simp
next
  case (Suc k)
  obtain p ps where o: "outs = p # ps" using Suc.prems(1) by (cases outs) auto
  obtain r rs where i: "ins = r # rs" using Suc.prems(2) by (cases ins) auto
  show ?case using Suc o i by simp
qed

lemma connect_dsps_ok:
  assumes "None \<notin> set ds" and "\<And>p r. connect p r = 0"
    and "\<And>d. Some d \<in> set ds \<Longrightarrow> length (d_out_port d) = nat (sint (d_n_chans d)) \<and>
           length ins = nat (sint (d_n_chans d))"
  shows "connect_dsps connect ins ds = Some (0, chan_links ins (map the ds))"
  using assms
proof (induction ds)
  case (Cons a ds)
  then obtain d where a: "a = Some d" by (cases a) auto
  with Cons.prems have "connect_chans connect (nat (sint (d_n_chans d))) (d_out_port d) ins
      = Some (0, map2 Connected (d_out_port d) ins)"
    by (intro connect_chans_ok) auto
  moreover have "connect_dsps connect ins ds = Some (0, chan_links ins (map the ds))"
    using Cons.prems by (intro Cons.IH) auto
  ultimately show ?case using a by (simp add: chan_links_def)
qed (simp add: chan_links_def)

text \<open>A manager whose clients are all there and have the ports their connections need.\<close>

abbreviation live_dsps :: "'b manager \<Rightarrow> 'b dsp_client option list" where
  "live_dsps mgr \<equiv> take (mgr_clients mgr) (mg_dsp mgr)"

definition manager_ready :: "'b manager \<Rightarrow> bool" where
  "manager_ready mgr \<longleftrightarrow> wf_ctrl (mg_ctrl mgr) (map the (live_dsps mgr)) \<and> c_port (mg_ctrl mgr) \<noteq> None \<and>
     None \<notin> set (live_dsps mgr) \<and>
     (\<forall>d. Some d \<in> set (live_dsps mgr) \<longrightarrow> length (d_out_port d) = nat (sint (d_n_chans d)) \<and>
        length (x_in_port (mg_mix mgr)) = nat (sint (d_n_chans d)))"

lemma filled_ready:
  assumes "filled chans 0 (mgr_clients mgr) ptrs dsps (c_dsp (mg_ctrl mgr)) (mg_dsp mgr)"
    and "0 < sint (s_n_clients (mg_setup mgr))" and "mgr_clients mgr \<le> MAX_DSP_CLIENTS"
    and "c_n_clients (mg_ctrl mgr) = s_n_clients (mg_setup mgr)" and "c_last_dsp (mg_ctrl mgr) = 0"
    and "c_port (mg_ctrl mgr) \<noteq> None" and "length (x_in_port (mg_mix mgr)) = nat (sint chans)"
  shows "manager_ready mgr"
proof -
  note f = assms(1) [unfolded filled_def]
  have d: "\<exists>d. x = Some d \<and> dsp_fits chans d" if "x \<in> set (live_dsps mgr)" for x
    using that f assms(3) by (auto simp: in_set_conv_nth)
  have "wf_ctrl (mg_ctrl mgr) (map the (live_dsps mgr))" using f assms(2-5) by (simp add: wf_ctrl_def)
  moreover have "None \<notin> set (live_dsps mgr)" using d by fastforce
  moreover have "length (d_out_port e) = nat (sint (d_n_chans e)) \<and>
    length (x_in_port (mg_mix mgr)) = nat (sint (d_n_chans e))" if "Some e \<in> set (live_dsps mgr)" for e
    using d [OF that] assms(7) by (simp add: dsp_fits_def)
  ultimately show ?thesis using assms(6) by (simp add: manager_ready_def)
qed

lemma manager_new_ok:
  assumes "jack_works lib env" and "server_setup lib env setup"
    and "raw_queue (m_q shmem) setup" and "m_setup shmem = setup"
  obtains mgr q where "manager_new lib env shmem setup = Some (Some mgr, 0, jack_setup_of env setup)"
    "fof_queue_init (m_q shmem) (jack_setup_of env setup) = Some q" "mg_shmem mgr = shmem\<lparr>m_q := q\<rparr>"
    "mg_setup mgr = setup" "manager_ready mgr"
    "c_clock_source (mg_ctrl mgr) = clock_code (jfofs_clock_source_normalize (s_clock_source setup))"
    "length (x_in_port (mg_mix mgr)) = nat (sint (fof_ModeToChannels lib (s_mode setup)))"
    "length (live_dsps mgr) = nat (sint (s_n_clients setup))"
proof -
  note w = assms(1) [unfolded jack_works_def] and ss = assms(2) [unfolded server_setup_def]
  let ?n = "nat (sint (s_n_clients setup))" and ?completed = "jack_setup_of env setup"
    and ?chans = "fof_ModeToChannels lib (s_mode setup)"
  obtain jc where jc: "env_memalign (mj_ctrl env) = 0" "env_client_open (mj_ctrl env) = Some jc"
    "\<And>name. env_port (mj_ctrl env) name \<noteq> None" using w unfolding client_works_def by blast
  obtain jm where jm: "env_memalign (mj_mix env) = 0" "env_client_open (mj_mix env) = Some jm"
    "\<And>name. env_port (mj_mix env) name \<noteq> None" using w unfolding client_works_def by blast
  obtain ctrl where c: "fst (ctrl_client_new (mj_ctrl env) setup) = Some ctrl" "c_port ctrl \<noteq> None"
    "c_n_clients ctrl = s_n_clients setup" "c_last_dsp ctrl = 0" "length (c_dsp ctrl) = MAX_DSP_CLIENTS"
    "c_clock_source ctrl = clock_code (jfofs_clock_source_normalize (s_clock_source setup))"
    using jc by (simp add: ctrl_client_new_def)
  have ch: "nat (sint ?chans) \<le> MAX_CHANNELS" using ss by simp
  obtain mix where mix: "mix_client_new (mj_mix env) ?chans = Some (Some mix, 0, [Memory ''mix'', Jack_Client])"
    "length (x_in_port mix) = nat (sint ?chans)"
    by (rule mix_client_new_ok [OF jm ch]) auto
  have raw: "raw_queue (m_q shmem) ?completed" using assms(3) by (simp add: raw_queue_def jack_setup_of_def)
  have wfs: "wf_setup ?completed" using ss by simp
  obtain q where q: "fof_queue_init (m_q shmem) ?completed = Some q" by (rule init_owns [OF raw wfs])
  have m: "s_mode ?completed = s_mode setup" by (simp add: jack_setup_of_def)
  obtain dsps ptrs where d: "new_dsps lib (mj_dsp env) ?completed 0 ?n (0, ctrl, replicate MAX_DSP_CLIENTS None)
      = Some (0, ctrl\<lparr>c_dsp := ptrs\<rparr>, dsps)"
    "filled ?chans 0 ?n (c_dsp ctrl) (replicate MAX_DSP_CLIENTS None) ptrs dsps"
    using new_dsps_ok [of "mj_dsp env" lib ?completed 0 ?n "replicate MAX_DSP_CLIENTS None" ctrl 0] w ss c(5) m by auto
  let ?mgr = "\<lparr>mg_ctrl = ctrl\<lparr>c_dsp := ptrs\<rparr>, mg_dsp = dsps, mg_mix = mix, mg_setup = setup,
    mg_shmem = shmem\<lparr>m_q := q\<rparr>\<rparr>"
  have new: "manager_new lib env shmem setup = Some (Some ?mgr, 0, ?completed)"
    using w c(1) mix(1) q d(1) by (auto simp: manager_new_def jack_setup_of_def Let_def split: prod.split)
  have ready: "manager_ready ?mgr"
    using filled_ready [of ?chans ?mgr "c_dsp ctrl" "replicate MAX_DSP_CLIENTS None"] d(2) ss c(2-4) mix(2) by simp
  show thesis by (rule that [OF new q _ _ ready]) (use ss mix(2) d(2) in \<open>simp_all add: c(6) filled_def\<close>)
qed

lemma activate_ok:
  assumes "None \<notin> set (take (mgr_clients mgr) (mg_dsp mgr))" and "\<And>j. mj_activate env j = 0"
  shows "manager_activate_clients env mgr = Some (0,
    Activated (x_j_client (mg_mix mgr)) #
      map (\<lambda>d. Activated (d_j_client (the d))) (take (mgr_clients mgr) (mg_dsp mgr))
      @ [Activated (c_j_client (mg_ctrl mgr))],
    mgr\<lparr>mg_ctrl := (mg_ctrl mgr)\<lparr>c_active := 1\<rparr>\<rparr>)"
  using each_dsp_ok [OF assms(1), of "dsp_client_activate (mj_activate env)" Activated] assms(2)
  by (simp add: manager_activate_clients_def mix_client_activate_def ctrl_client_activate_def
      dsp_client_activate_def Let_def)

lemma connect_ok:
  assumes "manager_ready mgr" and "\<And>p r. mj_connect env p r = 0"
  shows "manager_connect_clients env mgr = Some (0, ctrl_links (c_port (mg_ctrl mgr)) (map the (live_dsps mgr))
    @ chan_links (x_in_port (mg_mix mgr)) (map the (live_dsps mgr)))"
  using assms connect_ctrl_ok [of "live_dsps mgr" "mj_connect env" "c_port (mg_ctrl mgr)"]
    connect_dsps_ok [of "live_dsps mgr" "mj_connect env" "x_in_port (mg_mix mgr)"]
  by (simp add: manager_ready_def manager_connect_clients_def Let_def)

text \<open>What \<open>manager_create\<close> asks of JACK when all goes well: each client is activated, each link made.\<close>

definition bring_up :: "'b manager \<Rightarrow> mgr_event list" where
  "bring_up mgr = (let ds = map the (live_dsps mgr) in
     Activated (x_j_client (mg_mix mgr)) # map (\<lambda>d. Activated (d_j_client d)) ds @ [Activated (c_j_client (mg_ctrl mgr))]
     @ ctrl_links (c_port (mg_ctrl mgr)) ds @ chan_links (x_in_port (mg_mix mgr)) ds)"

lemma manager_create_ok:
  assumes "os_shm_open os" "os_ftruncate os" "os_mmap os = Some addr"
    and "wf_build b" and "jack_works lib env" and "server_setup lib env setup"
  obtains mgr where
    "manager_create lib b os env setup = Some (Some mgr, 0, jack_setup_of env setup, bring_up mgr)"
    "wf_queue (m_q (mg_shmem mgr))" "wf_ctrl (mg_ctrl mgr) (map the (take (mgr_clients mgr) (mg_dsp mgr)))"
    "c_active (mg_ctrl mgr) = 1" "c_clock_source (mg_ctrl mgr) = ctrl_current_clock_source (m_q (mg_shmem mgr))"
    "q_sample_rate (m_q (mg_shmem mgr)) = env_sample_rate (mj_ctrl env)"
    "q_buffer_size (m_q (mg_shmem mgr)) = env_buffer_size (mj_ctrl env)"
    "m_setup (mg_shmem mgr) = setup" "mg_setup mgr = setup"
    "q_clock_source (m_q (mg_shmem mgr)) = clock_code (jfofs_clock_source_normalize (s_clock_source setup))"
    "length (free_list (m_q (mg_shmem mgr))) = nat (sint (s_n_max_fofs setup))"
    "length (q_mem (m_q (mg_shmem mgr))) = nat (sint (s_n_max_fofs setup))"
    "q_n_slots (m_q (mg_shmem mgr)) = s_n_slots setup"
    "length (st_slot_cnt (m_statistics (mg_shmem mgr))) = MAX_SLOTS"
    "length (live_dsps mgr) = nat (sint (s_n_clients setup))" "c_port (mg_ctrl mgr) \<noteq> None"
    "length (x_in_port (mg_mix mgr)) = nat (sint (fof_ModeToChannels lib (s_mode setup)))"
    "\<forall>d\<in>set (map the (live_dsps mgr)). length (d_out_port d) = length (x_in_port (mg_mix mgr))"
proof -
  have ws: "wf_setup setup" "wf_setup (jack_setup_of env setup)" using assms(6) by (simp_all add: server_setup_def)
  obtain shmem where sh: "shmem_create b os setup 0 = Some (Some shmem, 0, [])" "m_setup shmem = setup"
    "raw_queue (m_q shmem) setup" "length (st_slot_cnt (m_statistics shmem)) = MAX_SLOTS"
    by (rule shmem_create_ok [OF assms(1-4) ws(1), where status = 0]) (auto simp: zero_statistics_def)
  obtain mgr q where m: "manager_new lib env shmem setup = Some (Some mgr, 0, jack_setup_of env setup)"
    "fof_queue_init (m_q shmem) (jack_setup_of env setup) = Some q" "mg_shmem mgr = shmem\<lparr>m_q := q\<rparr>"
    "mg_setup mgr = setup" "manager_ready mgr"
    "c_clock_source (mg_ctrl mgr) = clock_code (jfofs_clock_source_normalize (s_clock_source setup))"
    "length (x_in_port (mg_mix mgr)) = nat (sint (fof_ModeToChannels lib (s_mode setup)))"
    "length (live_dsps mgr) = nat (sint (s_n_clients setup))"
    by (rule manager_new_ok [OF assms(5,6) sh(3,2)])
  have raw: "raw_queue (m_q shmem) (jack_setup_of env setup)"
    using sh(3) by (simp add: raw_queue_def jack_setup_of_def)
  have mx: "s_n_max_fofs (jack_setup_of env setup) = s_n_max_fofs setup" by (simp add: jack_setup_of_def)
  have q: "wf_queue q" "initialised (jack_setup_of env setup) q"
    "owns q [0..<nat (sint (s_n_max_fofs setup))] (replicate (nat (sint (s_n_slots (jack_setup_of env setup)))) []) [] []"
    by (rule init_owns [OF raw ws(2)]; simp add: m(2) mx)+
  have cells: "length (free_list q) = nat (sint (s_n_max_fofs setup))"
    "length (q_mem q) = nat (sint (s_n_max_fofs setup))"
    using owns_lists(1) [OF q(3)] owns_count [OF q(3)] by simp_all
  let ?mgr = "mgr\<lparr>mg_ctrl := (mg_ctrl mgr)\<lparr>c_active := 1\<rparr>\<rparr>"
  have wf: "wf_ctrl (mg_ctrl ?mgr) (map the (live_dsps ?mgr))"
    using m(5) unfolding manager_ready_def
    by (subst wf_ctrl_cong [of _ "mg_ctrl mgr" _ "map the (live_dsps mgr)"]) simp_all
  have ready: "manager_ready ?mgr" using m(5) wf by (simp add: manager_ready_def)
  have c: "\<And>p r. mj_connect env p r = 0" "\<And>j. mj_activate env j = 0"
    using assms(5) by (simp_all add: jack_works_def)
  have none: "None \<notin> set (live_dsps mgr)" using m(5) by (simp add: manager_ready_def)
  have "map (\<lambda>d. Activated (d_j_client (the d))) (live_dsps mgr) = map (\<lambda>d. Activated (d_j_client d)) (map the (live_dsps mgr))"
    by simp
  then have create: "manager_create lib b os env setup = Some (Some ?mgr, 0, jack_setup_of env setup, bring_up ?mgr)"
    using connect_ok [of ?mgr env, OF ready c(1)] sh(1) m(1) activate_ok [of mgr env, OF none c(2)]
    by (simp add: manager_create_def bring_up_def Let_def)
  have ports: "length (d_out_port (the x)) = length (x_in_port (mg_mix mgr))" if x: "x \<in> set (live_dsps mgr)" for x
  proof -
    note r = m(5) [unfolded manager_ready_def]
    obtain d where "x = Some d" using x none by (metis option.exhaust)
    then show "length (d_out_port (the x)) = length (x_in_port (mg_mix mgr))" using x r by auto
  qed
  have port: "c_port (mg_ctrl mgr) \<noteq> None" using m(5) by (simp add: manager_ready_def)
  show thesis
  proof (rule that [OF create _ wf])
  qed (use m(3,4,6-8) q(1,2) sh(2,4) cells ports port in \<open>simp_all add: initialised_def jack_setup_of_def ctrl_current_clock_source_def\<close>)
qed

text \<open>
  C25: the server comes up ready to play: when the operating system, JACK and the library answer
  every request and the settings are in range, \<open>manager_create\<close> returns a manager with status
  zero, having asked JACK for exactly this: to activate the mix client, each of the \<open>n_clients\<close> dsp
  clients and last the control client, to connect the control client's port to each dsp client, and every
  output channel of every dsp client to the mix client's input of that channel. The queue is well formed, and the
  active control client points to all dsp clients and follows the queue's clock source.
  With JACK's frame time it meets the premises of the
  delivery properties. The rate and block size in the queue are JACK's; the setup published in
  the shared segment keeps the ones it was called with.
\<close>

theorem manager_create_running:
  assumes "os_shm_open os" and "os_ftruncate os" and "os_mmap os = Some addr"
    and "wf_build b" and "jack_works lib env" and "server_setup lib env setup"
  shows "\<exists>mgr dsps port. manager_create lib b os env setup = Some (Some mgr, 0, jack_setup_of env setup,
      Activated (x_j_client (mg_mix mgr)) # map (\<lambda>d. Activated (d_j_client d)) dsps
      @ [Activated (c_j_client (mg_ctrl mgr))]
      @ map (\<lambda>d. Connected port (d_in_port d)) dsps
      @ concat (map (\<lambda>d. map2 Connected (d_out_port d) (x_in_port (mg_mix mgr))) dsps)) \<and>
    c_port (mg_ctrl mgr) = Some port \<and> dsps = map the (take (mgr_clients mgr) (mg_dsp mgr)) \<and>
    length dsps = nat (sint (s_n_clients setup)) \<and>
    length (x_in_port (mg_mix mgr)) = nat (sint (fof_ModeToChannels lib (s_mode setup))) \<and>
    (\<forall>d\<in>set dsps. length (d_out_port d) = nat (sint (fof_ModeToChannels lib (s_mode setup)))) \<and>
    wf_queue (m_q (mg_shmem mgr)) \<and> c_active (mg_ctrl mgr) = 1 \<and> wf_ctrl (mg_ctrl mgr) dsps \<and>
    engine_inv (mg_ctrl mgr, m_q (mg_shmem mgr), dsps) = (\<not> jfofs_clock_uses_transport (s_clock_source setup)) \<and>
    q_sample_rate (m_q (mg_shmem mgr)) = env_sample_rate (mj_ctrl env) \<and>
    q_buffer_size (m_q (mg_shmem mgr)) = env_buffer_size (mj_ctrl env) \<and>
    m_setup (mg_shmem mgr) = setup"
  by (rule manager_create_ok [OF assms])
     (auto simp: engine_inv_def in_step_def jfofs_clock_uses_transport_def bring_up_def ctrl_links_def chan_links_def Let_def)

definition ex_client :: jack_setup where
  "ex_client = \<lparr>env_memalign = 0, env_client_open = Some 7, env_jstatus = 0,
     env_port = (\<lambda>name. Some (length name)), env_sample_rate = 1000000, env_buffer_size = 8\<rparr>"

definition ex_env :: mgr_env where
  "ex_env = \<lparr>mj_alloc = 0, mj_ctrl = ex_client, mj_mix = ex_client, mj_dsp = (\<lambda>i. ex_client),
     mj_activate = (\<lambda>j. 0), mj_deactivate = (\<lambda>j. 0), mj_connect = (\<lambda>p r. 0)\<rparr>"

lemma ex_server: "jack_works ex_lib ex_env" "server_setup ex_lib ex_env ex_setup"
proof -
  have "wf_setup (jack_setup_of ex_env ex_setup)"
    using ex_wf_setup by (simp add: jack_setup_of_def ex_env_def ex_client_def wf_setup_def)
  then show "server_setup ex_lib ex_env ex_setup"
    using ex_wf_setup by (simp add: server_setup_def ex_setup_def ex_lib_def)
qed (simp add: jack_works_def client_works_def ex_env_def ex_client_def ex_lib_def)

theorem manager_create_running_witness:
  "\<exists>mgr dsps port. manager_create ex_lib ex_build ex_os ex_env ex_setup = Some (Some mgr, 0, jack_setup_of ex_env ex_setup,
      Activated (x_j_client (mg_mix mgr)) # map (\<lambda>d. Activated (d_j_client d)) dsps
      @ [Activated (c_j_client (mg_ctrl mgr))]
      @ map (\<lambda>d. Connected port (d_in_port d)) dsps
      @ concat (map (\<lambda>d. map2 Connected (d_out_port d) (x_in_port (mg_mix mgr))) dsps)) \<and>
    c_port (mg_ctrl mgr) = Some port \<and> dsps = map the (take (mgr_clients mgr) (mg_dsp mgr)) \<and>
    length dsps = nat (sint (s_n_clients ex_setup)) \<and>
    length (x_in_port (mg_mix mgr)) = nat (sint (fof_ModeToChannels ex_lib (s_mode ex_setup))) \<and>
    (\<forall>d\<in>set dsps. length (d_out_port d) = nat (sint (fof_ModeToChannels ex_lib (s_mode ex_setup)))) \<and>
    wf_queue (m_q (mg_shmem mgr)) \<and> c_active (mg_ctrl mgr) = 1 \<and> wf_ctrl (mg_ctrl mgr) dsps \<and>
    engine_inv (mg_ctrl mgr, m_q (mg_shmem mgr), dsps) = (\<not> jfofs_clock_uses_transport (s_clock_source ex_setup)) \<and>
    q_sample_rate (m_q (mg_shmem mgr)) = env_sample_rate (mj_ctrl ex_env) \<and>
    q_buffer_size (m_q (mg_shmem mgr)) = env_buffer_size (mj_ctrl ex_env) \<and>
    m_setup (mg_shmem mgr) = ex_setup"
proof -
  have o: "os_shm_open ex_os" "os_ftruncate ex_os" "os_mmap ex_os = Some (the (os_mmap ex_os))" "wf_build ex_build"
    by (simp_all add: ex_os_def wf_build_def ex_build_def)
  show ?thesis using manager_create_running [OF o ex_server] .
qed

lemma each_dsp_prefix:
  assumes "None \<notin> set ds"
  shows "\<exists>status k. each_dsp call ev ds = Some (status, take k (map (\<lambda>d. ev (d_j_client (the d))) ds)) \<and>
    k \<le> length ds \<and> (status = 0 \<longrightarrow> k = length ds)"
  using assms
proof (induction ds)
  case Nil
  then show ?case by simp
next
  case (Cons a ds)
  then obtain d where a: "a = Some d" by (cases a) auto
  obtain status k where IH: "each_dsp call ev ds
      = Some (status, take k (map (\<lambda>d. ev (d_j_client (the d))) ds))" "k \<le> length ds"
    "status = 0 \<longrightarrow> k = length ds"
    using Cons by auto
  show ?case
  proof (cases "call d = 0")
    case True
    with IH a show ?thesis by (intro exI [of _ status] exI [of _ "Suc k"]) simp
  next
    case False
    with a show ?thesis by (intro exI [of _ "call d"] exI [of _ "Suc 0"]) simp
  qed
qed

text \<open>
  Audio never runs on a half-built graph: clients are activated in the order of the signal
  path, mix client first, dsp clients by index, and the control client, which starts the
  scheduling, last; the first refusal stops the activation and leaves the control client
  inactive.
\<close>

theorem activation_order:
  assumes "None \<notin> set (take (mgr_clients mgr) (mg_dsp mgr))"
  shows "\<exists>status evs mgr' k. manager_activate_clients env mgr = Some (status, evs, mgr') \<and>
    evs = take k (Activated (x_j_client (mg_mix mgr)) #
      map (\<lambda>d. Activated (d_j_client (the d))) (take (mgr_clients mgr) (mg_dsp mgr))
      @ [Activated (c_j_client (mg_ctrl mgr))]) \<and>
    (c_active (mg_ctrl mgr') = c_active (mg_ctrl mgr) \<or>
      k = length (take (mgr_clients mgr) (mg_dsp mgr)) + 2)"
proof -
  let ?ds = "take (mgr_clients mgr) (mg_dsp mgr)"
  obtain status k where e: "each_dsp (dsp_client_activate (mj_activate env)) Activated ?ds
      = Some (status, take k (map (\<lambda>d. Activated (d_j_client (the d))) ?ds))" "k \<le> length ?ds"
    "status = 0 \<longrightarrow> k = length ?ds"
    using each_dsp_prefix [OF assms] by blast
  show ?thesis
  proof (cases "mix_client_activate (mj_activate env) (mg_mix mgr) = 0")
    case False
    then show ?thesis
      by (intro exI conjI [OF _ conjI] exI [of _ "Suc 0"]) (auto simp: manager_activate_clients_def Let_def)
  next
    case True
    show ?thesis
    proof (cases "status = 0")
      case False
      with True e show ?thesis
        by (intro exI [of _ status] exI exI [of _ mgr] exI [of _ "Suc k"])
           (simp add: manager_activate_clients_def Let_def)
    next
      case True': True
      with True e show ?thesis
        by (intro exI exI [of _ "mgr\<lparr>mg_ctrl := (mg_ctrl mgr)\<lparr>c_active := 1\<rparr>\<rparr>"]
              exI [of _ "length ?ds + 2"] conjI [OF _ conjI])
           (simp_all add: manager_activate_clients_def ctrl_client_activate_def Let_def)
    qed
  qed
qed

definition ex_manager :: "event list manager" where
  "ex_manager = \<lparr>mg_ctrl = ex_ctrl, mg_dsp = [Some (ex_dsp []), Some (ex_dsp [])], mg_mix = ex_mix,
     mg_setup = ex_setup, mg_shmem = ex_shmem\<rparr>"

theorem activation_order_witness:
  "\<exists>status evs mgr' k. manager_activate_clients ex_env ex_manager = Some (status, evs, mgr') \<and>
    evs = take k [Activated 0, Activated 0, Activated 0, Activated 0] \<and>
    (c_active (mg_ctrl mgr') = c_active (mg_ctrl ex_manager) \<or> k = 4)"
proof -
  have m: "take (mgr_clients ex_manager) (mg_dsp ex_manager) = [Some (ex_dsp []), Some (ex_dsp [])]"
    and c: "x_j_client (mg_mix ex_manager) = 0" "c_j_client (mg_ctrl ex_manager) = 0"
      "d_j_client (ex_dsp b) = 0" for b :: "event list"
    by (simp_all add: ex_manager_def ex_mix_def ex_dsp_def ex_ctrl_def ex_setup_def)
  show ?thesis using activation_order [of ex_manager ex_env] unfolding m by (simp add: c numeral_eq_Suc)
qed

end
