(* ===== verification/Api.thy ===== *)
theory Api
  imports Shmem
begin

text \<open>
  The client library of \<^verbatim>\<open>api.c\<close>: opening and closing a client, adding fofs with the statistics
  they count, reading the clock and choosing the clock source. The segment all processes share
  is an argument and a result of every operation.
\<close>

record jfofs =
  a_j_client :: nat
  a_is_shmem_linked :: bool

subsection \<open>Opening and closing\<close>

text \<open>
  \<open>given\<close>: the caller passes the segment (server process) instead of linking it. The results are
  the client, the value of \<open>*status\<close>, the segment and the resources held.
\<close>

definition jfofs_new ::
  "build \<Rightarrow> jack_setup \<Rightarrow> os_shm \<Rightarrow> bool \<Rightarrow> shmem \<Rightarrow> (jfofs option \<times> c_int \<times> shmem \<times> resource list) option" where
  "jfofs_new b env os given shmem =
     (if env_memalign env \<noteq> 0 then Some (None, status_code JFOFS_MEMORY_ERROR, shmem, [])
      else case env_client_open env of
        None \<Rightarrow> Some (None, status_code JFOFS_JACK_ERROR_MASK OR env_jstatus env, shmem, [Memory ''jfofs''])
      | Some j \<Rightarrow>
          (if given
           then Some (Some \<lparr>a_j_client = j, a_is_shmem_linked = False\<rparr>, status_code JFOFS_SUCCESS,
                      shmem\<lparr>m_reference_cnt := m_reference_cnt shmem + 1\<rparr>, [Memory ''jfofs'', Jack_Client])
           else do { (linked, status, shmem', res) \<leftarrow> shmem_link b os shmem (env_memalign env);
             (case linked of
                None \<Rightarrow> Some (None, (if status = status_code JFOFS_SHM_MAP_ERROR then status
                                    else status_code JFOFS_SHM_ERROR),
                             shmem', [Memory ''jfofs'', Jack_Client] @ res)
              | Some m \<Rightarrow> Some (Some \<lparr>a_j_client = j, a_is_shmem_linked = True\<rparr>,
                               status_code JFOFS_SUCCESS, m, [Memory ''jfofs'', Jack_Client] @ res)) }))"

definition jfofs_free :: "jfofs \<Rightarrow> shmem \<Rightarrow> shmem" where
  "jfofs_free jfofs shmem =
     (if a_is_shmem_linked jfofs then fst (shmem_unmap True shmem (Some shmem))
      else shmem\<lparr>m_reference_cnt := m_reference_cnt shmem - 1\<rparr>)"

subsection \<open>Adding\<close>

text \<open>\<open>counting\<close>: this process is built with statistics and its \<open>g_shmem\<close> is the segment.\<close>

definition jfofs_add ::
  "bool \<Rightarrow> shmem \<Rightarrow> u64 \<Rightarrow> c_float list \<Rightarrow> (jfofs_status \<times> shmem) option" where
  "jfofs_add counting shmem t args =
     do { (status, evs, q) \<leftarrow> fof_queue_add (m_q shmem) t args;
          let shmem1 = shmem\<lparr>m_q := q\<rparr>;
          if counting
          then do { g_shmem \<leftarrow> count_events evs (Some shmem1);
                    shmem2 \<leftarrow> g_shmem;
                    Some (status, shmem2) }
          else Some (status, shmem1) }"

subsection \<open>Clock and settings\<close>

definition current_frame :: "jack_clock \<Rightarrow> shmem \<Rightarrow> u64" where
  "current_frame clk shmem =
     (let q = m_q shmem;
          next_frame = q_next_frame q;
          frame_stamp = q_frame_stamp q;
          current_source_frame =
            (if jfofs_clock_uses_transport (s_clock_source (m_setup shmem))
             then ucast (jack_get_current_transport_frame clk) else ucast (jack_frame_time clk)) in
      if current_source_frame \<le> frame_stamp then next_frame
      else next_frame + (current_source_frame - frame_stamp))"

definition jfofs_get_frame :: "jack_clock \<Rightarrow> shmem \<Rightarrow> u64" where
  "jfofs_get_frame clk shmem = current_frame clk shmem"

definition jfofs_get_queue_next_frame :: "shmem \<Rightarrow> u64" where
  "jfofs_get_queue_next_frame shmem = q_next_frame (m_q shmem)"

definition jfofs_set_clock_source :: "shmem \<Rightarrow> c_int \<Rightarrow> jfofs_status \<times> shmem" where
  "jfofs_set_clock_source shmem clock_source =
     (if clock_source = clock_code JFOFS_CLOCK_OFFLINE_FREE_RUNNING then (JFOFS_FAILURE, shmem)
      else let normalized = clock_code (jfofs_clock_source_normalize clock_source) in
        (JFOFS_SUCCESS,
         shmem\<lparr>m_q := (m_q shmem)\<lparr>q_clock_source := normalized\<rparr>,
               m_setup := (m_setup shmem)\<lparr>s_clock_source := normalized\<rparr>\<rparr>))"

definition jfofs_get_clock_source :: "shmem \<Rightarrow> jfofs_clock_source" where
  "jfofs_get_clock_source shmem = jfofs_clock_source_normalize (q_clock_source (m_q shmem))"

text \<open>\<^const>\<open>None\<close> is a division by a zero sample rate.\<close>

definition jfofs_get_time :: "jack_clock \<Rightarrow> shmem \<Rightarrow> u64 option" where
  "jfofs_get_time clk shmem =
     (if u64_of_int (q_sample_rate (m_q shmem)) = 0 then None
      else Some (current_frame clk shmem * 1000000 div u64_of_int (q_sample_rate (m_q shmem))))"

definition jfofs_sample_rate :: "shmem \<Rightarrow> c_int" where
  "jfofs_sample_rate shmem = q_sample_rate (m_q shmem)"

definition jfofs_buffer_size :: "shmem \<Rightarrow> c_int" where
  "jfofs_buffer_size shmem = q_buffer_size (m_q shmem)"

definition jfofs_get_setup :: "shmem \<Rightarrow> setup_t" where
  "jfofs_get_setup shmem = m_setup shmem"

definition jfofs_get_reference_cnt :: "shmem \<Rightarrow> c_int" where
  "jfofs_get_reference_cnt shmem = m_reference_cnt shmem"

definition jfofs_has_statistics :: "build \<Rightarrow> shmem \<Rightarrow> c_int" where
  "jfofs_has_statistics b shmem = (if statistics_enable b then m_has_statistics shmem else 0)"

definition jfofs_get_statistics :: "build \<Rightarrow> shmem \<Rightarrow> statistics option" where
  "jfofs_get_statistics b shmem =
     (if statistics_enable b \<and> m_has_statistics shmem \<noteq> 0 then Some (m_statistics shmem) else None)"

subsection \<open>What the statistics count\<close>

definition st_sum :: "statistics \<Rightarrow> c_int" where
  "st_sum st = sum_list (take (nat (sint (st_n_slots st))) (st_slot_cnt st))"

definition wf_counters :: "shmem \<Rightarrow> bool" where
  "wf_counters shmem \<longleftrightarrow> wf_queue (m_q shmem) \<and>
     st_n_slots (m_statistics shmem) = q_n_slots (m_q shmem) \<and>
     n_slots (m_q shmem) \<le> MAX_SLOTS \<and> length (st_slot_cnt (m_statistics shmem)) = MAX_SLOTS"

text \<open>The distance of a fof from the queue's clock in slots, and the counters after its addition.\<close>

definition slots_ahead :: "fof_queue \<Rightarrow> event \<Rightarrow> nat" where
  "slots_ahead q e = (start_frame q (fst e) - unat (q_next_frame q)) div buf_size q"

definition counted :: "jfofs_status \<Rightarrow> nat \<Rightarrow> statistics \<Rightarrow> statistics" where
  "counted st k stats =
     (if st = JFOFS_SUCCESS then stats\<lparr>st_slot_cnt := (st_slot_cnt stats)[k := st_slot_cnt stats ! k + 1]\<rparr>
      else if st = JFOFS_FOF_EXCESS_INFO then stats\<lparr>st_excess_cnt := st_excess_cnt stats + 1\<rparr>
      else if st = JFOFS_FOF_LATE_WARNING then stats\<lparr>st_late_cnt := st_late_cnt stats + 1\<rparr> else stats)"

lemma counted_fields [simp]:
  "st_n_slots (counted st k stats) = st_n_slots stats"
  "length (st_slot_cnt (counted st k stats)) = length (st_slot_cnt stats)"
  by (simp_all add: counted_def)

lemma sum_list_incr:
  "i < n \<Longrightarrow> i < length xs \<Longrightarrow> sum_list (take n (xs[i := xs ! i + 1])) = sum_list (take n xs) + (1 :: c_int)"
proof (induction xs arbitrary: i n)
  case Nil
  then show ?case by simp
next
  case (Cons a xs)
  then show ?case by (cases i; cases n) (simp_all add: ac_simps)
qed

lemma sum_slots_eq:
  "k + i \<le> length (st_slot_cnt st) \<Longrightarrow>
   sum_slots k i acc st = Some (acc + sum_list (take k (drop i (st_slot_cnt st))))"
proof (induction k arbitrary: i acc)
  case 0
  then show ?case by simp
next
  case (Suc k)
  then have "drop i (st_slot_cnt st) = st_slot_cnt st ! i # drop (Suc i) (st_slot_cnt st)"
    by (simp add: Cons_nth_drop_Suc)
  with Suc show ?case by (simp add: add.assoc)
qed

lemma accepted_slots_ahead:
  assumes "wf_queue q" and "spec_add (abs_queue q) e = (JFOFS_SUCCESS, a)"
  shows "slots_ahead q e < n_slots q"
proof -
  have "start_frame q (fst e) < unat (q_next_frame q) + n_slots q * buf_size q"
    and "unat (q_next_frame q) \<le> start_frame q (fst e)"
    using assms(2) wf_queueD(4) [OF assms(1)] by (auto simp: spec_add_def Let_def split: if_splits)
  then show ?thesis using wf_config_pos(2) [OF wf_queueD(1) [OF assms(1)]]
    by (simp add: slots_ahead_def div_less_iff_less_mult less_diff_conv2)
qed

text \<open>An addition is defined when each slot has a counter, or nothing is counted, and counts its fof once.\<close>

lemma jfofs_add_counts:
  assumes wf: "wf_queue (m_q shmem)"
    and cnt: "counting \<Longrightarrow> n_slots (m_q shmem) \<le> length (st_slot_cnt (m_statistics shmem))"
  obtains st shmem' where "jfofs_add counting shmem t args = Some (st, shmem')" "wf_queue (m_q shmem')"
    "spec_add (abs_queue (m_q shmem)) (t, args) = (st, abs_queue (m_q shmem'))"
    "q_frame (m_q shmem') = q_frame (m_q shmem)"
    "m_statistics shmem' = (if counting then counted st (slots_ahead (m_q shmem) (t, args)) (m_statistics shmem)
       else m_statistics shmem)"
proof -
  let ?q = "m_q shmem" and ?stats = "m_statistics shmem" and ?k = "slots_ahead (m_q shmem) (t, args)"
  obtain st q' where r: "fof_queue_add ?q t args = Some (st, add_events (abs_queue ?q) (t, args) st, q')"
    "wf_queue q'" "spec_add (abs_queue ?q) (t, args) = (st, abs_queue q')" "q_frame q' = q_frame ?q"
    by (rule add_refines [OF wf])
  have k: "?k < length (st_slot_cnt ?stats) \<and> sint (of_nat ?k :: c_int) = int ?k" if "st = JFOFS_SUCCESS" counting
    using accepted_slots_ahead [OF wf] r(3) that cnt n_slots_less [of ?q] by (fastforce simp: sint_of_nat)
  define shmem' where "shmem' = shmem\<lparr>m_q := q', m_statistics := (if counting then counted st ?k ?stats else ?stats)\<rparr>"
  have st: "st = JFOFS_SUCCESS \<or> st = JFOFS_FOF_EXCESS_INFO \<or> st = JFOFS_FOF_LATE_WARNING \<or>
      st = JFOFS_FOF_LIMIT_ERROR"
    using r(3) by (auto simp: spec_add_def Let_def split: if_splits)
  have ev: "add_events (abs_queue ?q) (t, args) JFOFS_SUCCESS = [Incr_Slot (of_nat ?k)]"
    by (simp add: add_events_def slots_ahead_def)
  show thesis
  proof (rule that [of st shmem'])
    show "jfofs_add counting shmem t args = Some (st, shmem')"
    proof (cases "st = JFOFS_SUCCESS")
      case True
      with r(1) k show ?thesis
        by (auto simp: jfofs_add_def ev counted_def shmem'_def count_event_def incr_slot_cnt_def Let_def)
    next
      case False
      with r(1) st show ?thesis
        by (auto simp: jfofs_add_def add_events_def counted_def shmem'_def count_event_def
            incr_late_cnt_def incr_excess_cnt_def Let_def)
    qed
  qed (use r in \<open>simp_all add: shmem'_def\<close>)
qed

lemma jfofs_add_total:
  assumes "wf_counters shmem"
  obtains st shmem' where "jfofs_add True shmem t args = Some (st, shmem')" "wf_counters shmem'"
    "m_statistics shmem' = counted st (slots_ahead (m_q shmem) (t, args)) (m_statistics shmem)"
    "spec_add (abs_queue (m_q shmem)) (t, args) = (st, abs_queue (m_q shmem'))"
    "q_frame (m_q shmem') = q_frame (m_q shmem)"
proof -
  have w: "wf_queue (m_q shmem)" "n_slots (m_q shmem) \<le> length (st_slot_cnt (m_statistics shmem))"
    using assms by (simp_all add: wf_counters_def)
  obtain st shmem' where r: "jfofs_add True shmem t args = Some (st, shmem')" "wf_queue (m_q shmem')"
    "spec_add (abs_queue (m_q shmem)) (t, args) = (st, abs_queue (m_q shmem'))"
    "q_frame (m_q shmem') = q_frame (m_q shmem)"
    "m_statistics shmem' = counted st (slots_ahead (m_q shmem) (t, args)) (m_statistics shmem)"
    using jfofs_add_counts [OF w(1), of True t args] w(2) by auto
  then have "wf_counters shmem'" using assms by (auto simp: wf_counters_def q_frame_def)
  with r that show thesis by blast
qed

fun add_all :: "event list \<Rightarrow> shmem \<Rightarrow> (jfofs_status list \<times> shmem) option" where
  "add_all [] shmem = Some ([], shmem)"
| "add_all (e # es) shmem =
     do { (st, shmem1) \<leftarrow> jfofs_add True shmem (fst e) (snd e);
          (sts, shmem2) \<leftarrow> add_all es shmem1;
          Some (st # sts, shmem2) }"

text \<open>The counters after several additions, each with its status.\<close>

fun counted_all :: "fof_queue \<Rightarrow> (event \<times> jfofs_status) list \<Rightarrow> statistics \<Rightarrow> statistics" where
  "counted_all q [] stats = stats"
| "counted_all q ((e, st) # rs) stats = counted_all q rs (counted st (slots_ahead q e) stats)"

lemma add_all_total:
  assumes "wf_counters shmem"
  obtains sts shmem' where "add_all es shmem = Some (sts, shmem')" "wf_counters shmem'" "length sts = length es"
    "m_statistics shmem' = counted_all (m_q shmem) (zip es sts) (m_statistics shmem)"
    "\<forall>(e, st)\<in>set (zip es sts). st = JFOFS_SUCCESS \<longrightarrow> slots_ahead (m_q shmem) e < n_slots (m_q shmem)"
  using assms
proof (induction es arbitrary: shmem thesis)
  case Nil
  then show ?case by simp
next
  case (Cons e es)
  have w: "wf_queue (m_q shmem)" using Cons.prems(2) by (simp add: wf_counters_def)
  obtain st shmem1 where a: "jfofs_add True shmem (fst e) (snd e) = Some (st, shmem1)" "wf_counters shmem1"
    "m_statistics shmem1 = counted st (slots_ahead (m_q shmem) e) (m_statistics shmem)"
    "spec_add (abs_queue (m_q shmem)) e = (st, abs_queue (m_q shmem1))"
    "q_frame (m_q shmem1) = q_frame (m_q shmem)"
    using jfofs_add_total [OF Cons.prems(2), of "fst e" "snd e"] by auto
  have same: "slots_ahead (m_q shmem1) x = slots_ahead (m_q shmem) x" "n_slots (m_q shmem1) = n_slots (m_q shmem)" for x
    using a(5) by (simp_all add: slots_ahead_def start_frame_def q_frame_def)
  have all: "counted_all (m_q shmem1) rs stats = counted_all (m_q shmem) rs stats" for rs stats
    by (induction rs arbitrary: stats) (auto simp: same)
  obtain sts shmem' where b: "add_all es shmem1 = Some (sts, shmem')" "wf_counters shmem'" "length sts = length es"
    "m_statistics shmem' = counted_all (m_q shmem1) (zip es sts) (m_statistics shmem1)"
    "\<forall>(e, st)\<in>set (zip es sts). st = JFOFS_SUCCESS \<longrightarrow> slots_ahead (m_q shmem1) e < n_slots (m_q shmem1)"
    using Cons.IH [OF _ a(2)] by blast
  show ?case
    by (rule Cons.prems(1) [of "st # sts" shmem'])
       (use a b accepted_slots_ahead [OF w, of e] in \<open>auto simp: all same\<close>)
qed

text \<open>Each counter after several additions is the number of fofs that had its answer.\<close>

lemma counted_all_counters:
  assumes "length sts = length es"
  shows "st_late_cnt (counted_all q (zip es sts) stats) = st_late_cnt stats + of_nat (count_list sts JFOFS_FOF_LATE_WARNING)"
    and "st_excess_cnt (counted_all q (zip es sts) stats) = st_excess_cnt stats + of_nat (count_list sts JFOFS_FOF_EXCESS_INFO)"
    and "st_n_slots (counted_all q (zip es sts) stats) = st_n_slots stats"
  using assms by (induction sts es arbitrary: stats rule: list_induct2) (auto simp: counted_def)

lemma counted_all_slots:
  assumes "length sts = length es" and "k < length (st_slot_cnt stats)"
  shows "st_slot_cnt (counted_all q (zip es sts) stats) ! k
      = st_slot_cnt stats ! k + of_nat (length [(e, st) \<leftarrow> zip es sts. st = JFOFS_SUCCESS \<and> slots_ahead q e = k])"
  using assms by (induction sts es arbitrary: stats rule: list_induct2) (auto simp: counted_def nth_list_update)

lemma counted_all_sum:
  assumes "length sts = length es" and "n_slots q \<le> length (st_slot_cnt stats)" and "st_n_slots stats = q_n_slots q"
    and "\<forall>(e, st)\<in>set (zip es sts). st = JFOFS_SUCCESS \<longrightarrow> slots_ahead q e < n_slots q"
  shows "st_sum (counted_all q (zip es sts) stats) = st_sum stats + of_nat (count_list sts JFOFS_SUCCESS)"
  using assms
proof (induction sts es arbitrary: stats rule: list_induct2)
  case (Cons st sts e es)
  have "st_sum (counted st (slots_ahead q e) stats) = st_sum stats + (if st = JFOFS_SUCCESS then 1 else 0)"
    using Cons.prems sum_list_incr [of "slots_ahead q e" "n_slots q" "st_slot_cnt stats"]
    by (auto simp: st_sum_def counted_def)
  moreover have "st_sum (counted_all q (zip es sts) (counted st (slots_ahead q e) stats))
      = st_sum (counted st (slots_ahead q e) stats) + of_nat (count_list sts JFOFS_SUCCESS)"
    using Cons.prems by (intro Cons.IH) auto
  ultimately show ?case by simp
qed simp

lemma max_used_defined:
  assumes "wf_queue (m_q shmem)"
  shows "\<exists>used. max_used_free_list (Some shmem) = Some used"
proof -
  note o = wf_queueD(3) [OF assms]
  have "chain (nexts (m_q shmem)) (q_free_fofs (m_q shmem)) (free_list (m_q shmem))"
    using o by (simp add: owns_def)
  then show ?thesis using count_used_eq [OF _ owns_range(1) [OF o], of _ 0] by (simp add: max_used_free_list_def)
qed

lemma dump_total:
  assumes "wf_counters shmem"
  obtains used where "dump_statistics (Some shmem) = Some (Some
    (st_sum (m_statistics shmem) + st_late_cnt (m_statistics shmem) + st_excess_cnt (m_statistics shmem),
     st_sum (m_statistics shmem), st_late_cnt (m_statistics shmem), st_excess_cnt (m_statistics shmem), used))"
proof -
  obtain used where "max_used_free_list (Some shmem) = Some used"
    using max_used_defined assms unfolding wf_counters_def by blast
  then show thesis
    using assms that
    by (simp add: dump_statistics_def Let_def sum_slots_eq wf_counters_def st_sum_def)
qed

lemma ex_wf_counters: "wf_counters ex_shmem"
  using ex_wf_queue by (simp add: wf_counters_def ex_shmem_def zero_statistics_def ex_defs)

text \<open>
  C28: the statistics are exact: whatever fofs are added, the counter of each slot grows by the number
  of fofs that were accepted at its distance from the clock, and the numbers that
  \<open>dump_statistics\<close> prints grow by what was answered: the slots together by the fofs accepted, the late
  counter by those refused as late, the excess counter by those put into the excess list. A
  fof refused for want of a cell is in no counter. (At most \<open>MAX_SLOTS\<close> slots; the counters are 32-bit.)
\<close>

theorem statistics_count_every_fof:
  fixes shmem :: shmem
  defines "stats \<equiv> m_statistics shmem"
  assumes "wf_counters shmem"
  shows "\<exists>sts shmem' used. add_all es shmem = Some (sts, shmem') \<and> length sts = length es \<and>
    (\<forall>k<n_slots (m_q shmem). st_slot_cnt (m_statistics shmem') ! k
       = st_slot_cnt stats ! k + of_nat (length [(e, st) \<leftarrow> zip es sts. st = JFOFS_SUCCESS \<and> slots_ahead (m_q shmem) e = k])) \<and>
    (let slots = st_sum stats + of_nat (count_list sts JFOFS_SUCCESS);
         late = st_late_cnt stats + of_nat (count_list sts JFOFS_FOF_LATE_WARNING);
         excess = st_excess_cnt stats + of_nat (count_list sts JFOFS_FOF_EXCESS_INFO) in
     dump_statistics (Some shmem') = Some (Some (slots + late + excess, slots, late, excess, used)))"
proof -
  obtain sts shmem' where a: "add_all es shmem = Some (sts, shmem')" "wf_counters shmem'" "length sts = length es"
    "m_statistics shmem' = counted_all (m_q shmem) (zip es sts) stats"
    "\<forall>(e, st)\<in>set (zip es sts). st = JFOFS_SUCCESS \<longrightarrow> slots_ahead (m_q shmem) e < n_slots (m_q shmem)"
    unfolding stats_def by (rule add_all_total [OF assms(2)])
  have l: "n_slots (m_q shmem) \<le> length (st_slot_cnt stats)" "st_n_slots stats = q_n_slots (m_q shmem)"
    using assms(2) by (simp_all add: wf_counters_def stats_def)
  note c = counted_all_counters [OF a(3)] counted_all_sum [OF a(3) l a(5)]
  obtain used where "dump_statistics (Some shmem') = Some (Some
    (st_sum (m_statistics shmem') + st_late_cnt (m_statistics shmem') + st_excess_cnt (m_statistics shmem'),
     st_sum (m_statistics shmem'), st_late_cnt (m_statistics shmem'), st_excess_cnt (m_statistics shmem'), used))"
    by (rule dump_total [OF a(2)])
  then show ?thesis
    using a(1,3) l(1) counted_all_slots [OF a(3)] unfolding a(4) c Let_def
    by (intro exI [of _ sts] exI [of _ shmem'] exI [of _ used]) (simp add: a(4))
qed

theorem statistics_count_every_fof_witness:
  "\<exists>sts shmem' used. add_all [(3, []), (100, []), (9, []), (1, [])] ex_shmem = Some (sts, shmem') \<and> length sts = 4 \<and>
    (let slots = st_sum (m_statistics ex_shmem) + of_nat (count_list sts JFOFS_SUCCESS);
         late = st_late_cnt (m_statistics ex_shmem) + of_nat (count_list sts JFOFS_FOF_LATE_WARNING);
         excess = st_excess_cnt (m_statistics ex_shmem) + of_nat (count_list sts JFOFS_FOF_EXCESS_INFO) in
     dump_statistics (Some shmem') = Some (Some (slots + late + excess, slots, late, excess, used)))"
  using statistics_count_every_fof [OF ex_wf_counters, of "[(3, []), (100, []), (9, []), (1, [])]"] by auto

definition ex_wide :: shmem where
  "ex_wide = ex_shmem\<lparr>m_q := ex_queue\<lparr>q_n_slots := 256, q_slot := replicate 256 None\<rparr>\<rparr>"

text \<open>
  The counter array is too small for a setup with more than \<open>MAX_SLOTS\<close> slots, which no
  code rejects: with 256 slots an addition in the 200th slot is a valid one for the queue, but
  its statistics write outside the array.
\<close>

theorem statistics_overrun_beyond_max_slots:
  "wf_queue (m_q ex_wide) \<and> map_option fst (jfofs_add False ex_wide 1600 []) = Some JFOFS_SUCCESS \<and>
   jfofs_add True ex_wide 1600 [] = None"
proof (intro conjI)
  have "owns (m_q ex_wide) [0, 1, 2] (replicate 256 []) [] []"
    by (simp add: owns_iff ex_wide_def ex_shmem_def ex_defs nexts_def list_all2_conv_all_nth
        lessThan_Suc numeral_3_eq_3 atLeast0LessThan)
  moreover have "wf_config (m_q ex_wide)"
    by (auto simp: wf_config_def ex_wide_def ex_shmem_def ex_defs intro!: exI [of _ "8::nat"])
  moreover have "cache_ok (m_q ex_wide)" by (simp add: cache_ok_def ex_wide_def ex_shmem_def ex_defs)
  ultimately show "wf_queue (m_q ex_wide)" by (rule wf_queueI [rotated 2])
  show "map_option fst (jfofs_add False ex_wide 1600 []) = Some JFOFS_SUCCESS" by code_simp
  show "jfofs_add True ex_wide 1600 [] = None" by code_simp
qed

subsection \<open>Clients come and go\<close>

text \<open>
  C31: the reference count is balanced: when a client can be opened, over a given or over a
  linked segment, it counts one more client, its status is success, and closing it again leaves
  the segment exactly as it was.
\<close>

theorem open_close_balanced:
  assumes "env_memalign env = 0" and "env_client_open env = Some j"
    and "given \<or> (os_shm_open os \<and> os_mmap os \<noteq> None \<and> os_mmap_fixed os = Some (m_base shmem))"
  shows "\<exists>jfofs shmem' res. jfofs_new b env os given shmem
      = Some (Some jfofs, status_code JFOFS_SUCCESS, shmem', res) \<and>
    jfofs_get_reference_cnt shmem' = jfofs_get_reference_cnt shmem + 1 \<and>
    jfofs_free jfofs shmem' = shmem"
  using assms
  by (cases "given") (auto simp: jfofs_new_def jfofs_free_def shmem_unmap_def shmem_link_def
      shmem_layout_def shmem_aligning_ptr_def Let_def jfofs_get_reference_cnt_def)

definition ex_jack :: jack_setup where
  "ex_jack = \<lparr>env_memalign = 0, env_client_open = Some 7, env_jstatus = 0,
     env_port = (\<lambda>name. Some (length name)), env_sample_rate = 1000000, env_buffer_size = 8\<rparr>"

theorem open_close_balanced_witness:
  "\<exists>jfofs shmem' res. jfofs_new ex_build ex_jack ex_os False ex_shmem
      = Some (Some jfofs, status_code JFOFS_SUCCESS, shmem', res) \<and>
    jfofs_get_reference_cnt shmem' = jfofs_get_reference_cnt ex_shmem + 1 \<and>
    jfofs_free jfofs shmem' = ex_shmem"
  by (rule open_close_balanced) (simp_all add: ex_jack_def ex_os_def ex_shmem_def)

text \<open>
  When the segment cannot be linked, opening a client reports the reason but keeps what it
  had acquired: the memory of the client and its running JACK client are lost, and so is the
  file descriptor when the first mapping fails.
\<close>

theorem failed_open_leaks:
  assumes "env_memalign env = 0" and "env_client_open env = Some j"
    and "\<not> os_shm_open os \<or> os_mmap os = None"
  shows "\<exists>status res. jfofs_new b env os False shmem = Some (None, status, shmem, res) \<and>
    status = status_code (if os_shm_open os then JFOFS_SHM_MAP_ERROR else JFOFS_SHM_ERROR) \<and>
    set res = {Memory ''jfofs'', Jack_Client} \<union> (if os_shm_open os then {File_Descriptor} else {})"
  using assms by (auto simp: jfofs_new_def shmem_link_def)

theorem failed_open_leaks_witness:
  "\<exists>status res. jfofs_new ex_build ex_jack (ex_os\<lparr>os_mmap := None\<rparr>) False ex_shmem
      = Some (None, status, ex_shmem, res) \<and>
    status = status_code JFOFS_SHM_MAP_ERROR \<and>
    set res = {File_Descriptor, Memory ''jfofs'', Jack_Client}"
  using failed_open_leaks [of ex_jack 7 "ex_os\<lparr>os_mmap := None\<rparr>" ex_build ex_shmem]
  by (simp add: ex_jack_def ex_os_def)

subsection \<open>The clock as clients see it\<close>

text \<open>
  The frame a client reads is the queue's next frame, moved on by the frames the clock has
  advanced since the last cycle stamped it, and never lies behind the queue's next frame.
\<close>

lemma current_frame_interpolates:
  defines "source clk shmem \<equiv>
    (if jfofs_clock_uses_transport (s_clock_source (m_setup shmem))
     then unat (jack_get_current_transport_frame clk) else unat (jack_frame_time clk))"
  assumes "unat (q_next_frame (m_q shmem)) + source clk shmem < 2 ^ 64"
  shows "unat (jfofs_get_frame clk shmem) = unat (jfofs_get_queue_next_frame shmem)
    + (source clk shmem - unat (q_frame_stamp (m_q shmem)))"
proof -
  define src :: u64 where "src = (if jfofs_clock_uses_transport (s_clock_source (m_setup shmem))
    then ucast (jack_get_current_transport_frame clk) else ucast (jack_frame_time clk))"
  have s: "unat src = source clk shmem" by (simp add: src_def source_def unat_u64_of_u32)
  have c: "jfofs_get_frame clk shmem = (if src \<le> q_frame_stamp (m_q shmem) then q_next_frame (m_q shmem)
      else q_next_frame (m_q shmem) + (src - q_frame_stamp (m_q shmem)))"
    by (simp add: jfofs_get_frame_def current_frame_def Let_def src_def)
  show ?thesis
  proof (cases "src \<le> q_frame_stamp (m_q shmem)")
    case True
    then show ?thesis using c s by (simp add: jfofs_get_queue_next_frame_def word_le_nat_alt)
  next
    case False
    then have d: "unat (src - q_frame_stamp (m_q shmem)) = source clk shmem - unat (q_frame_stamp (m_q shmem))"
      using s by (simp add: unat_minus)
    have "unat (q_next_frame (m_q shmem)) + unat (src - q_frame_stamp (m_q shmem)) < 2 ^ LENGTH(64)"
      using assms(2) d by simp
    then show ?thesis using c False d
      by (simp add: jfofs_get_queue_next_frame_def unat_add_lem [THEN iffD1])
  qed
qed

text \<open>
  A frame that is converted to microseconds and back is the same frame or the one before
  it, never another; so a client that schedules at the time it reads can be one frame early.
\<close>

theorem frame_time_roundtrip:
  assumes "0 < sint sr" and "sint sr \<le> 1000000" and "unat n < 2 ^ 32"
  shows "\<exists>t. jfofs_nframes_to_time n sr = Some t \<and>
    (unat (jfofs_time_to_nframes t sr) = unat n \<or> Suc (unat (jfofs_time_to_nframes t sr)) = unat n)"
proof -
  let ?r = "nat (sint sr)"
  have r: "0 < ?r" "?r \<le> 1000000" using assms(1,2) by simp_all
  have l: "unat n * 1000000 < 2 ^ 64" using assms(3) by simp
  obtain t where t: "jfofs_nframes_to_time n sr = Some t" "unat t = us_of_frames (unat n) ?r"
    using unat_nframes_to_time [OF assms(1) l] by blast
  have "unat t * ?r \<le> unat n * 1000000" by (simp add: t(2) us_of_frames_def)
  then have m: "unat t * ?r < 2 ^ 64" using l by simp
  note rt = frames_us_roundtrip [OF r, of "unat n", folded t(2)]
  have "unat (jfofs_time_to_nframes t sr) = frames_of_us (unat t) ?r mod 2 ^ 32"
    using assms(1) m by (intro unat_time_to_nframes) simp_all
  also have "\<dots> = frames_of_us (unat t) ?r" using rt(1) assms(3) by simp
  finally have "unat (jfofs_time_to_nframes t sr) = frames_of_us (unat t) ?r" .
  with t(1) rt show ?thesis by auto
qed

theorem frame_time_roundtrip_witness:
  "\<exists>t. jfofs_nframes_to_time 1 48000 = Some t \<and>
    (unat (jfofs_time_to_nframes t 48000) = unat (1 :: u64) \<or>
     Suc (unat (jfofs_time_to_nframes t 48000)) = unat (1 :: u64))"
  by (rule frame_time_roundtrip) simp_all

text \<open>
  Choosing the clock source: the offline source is refused and changes nothing; any other
  value is stored normalised, in the queue and in the setup, and is what is read back; the
  queue stays well formed.
\<close>

theorem set_clock_source_stores:
  "jfofs_set_clock_source shmem (clock_code JFOFS_CLOCK_OFFLINE_FREE_RUNNING) = (JFOFS_FAILURE, shmem) \<and>
   (c = clock_code JFOFS_CLOCK_OFFLINE_FREE_RUNNING \<or>
    (case jfofs_set_clock_source shmem c of (st, shmem') \<Rightarrow>
      st = JFOFS_SUCCESS \<and> jfofs_get_clock_source shmem' = jfofs_clock_source_normalize c \<and>
      jfofs_clock_uses_transport (s_clock_source (jfofs_get_setup shmem'))
        = (c = clock_code JFOFS_CLOCK_JACK_TRANSPORT) \<and>
      wf_queue (m_q shmem') = wf_queue (m_q shmem) \<and>
      abs_queue (m_q shmem') = abs_queue (m_q shmem)))"
proof -
  let ?q = "(m_q shmem)\<lparr>q_clock_source := clock_code (jfofs_clock_source_normalize c)\<rparr>"
  have q: "wf_queue ?q = wf_queue (m_q shmem)" "free_list ?q = free_list (m_q shmem)"
    "slot_lists ?q = slot_lists (m_q shmem)" "excess_list ?q = excess_list (m_q shmem)"
    "event_at ?q = event_at (m_q shmem)"
    by (rule wf_queue_cong; simp)+
  have "abs_queue ?q = abs_queue (m_q shmem)" unfolding abs_queue_def q by simp
  with q(1) show ?thesis
    by (simp add: jfofs_set_clock_source_def jfofs_get_clock_source_def Let_def jfofs_get_setup_def)
       (simp add: jfofs_clock_source_normalize_def)
qed

end
