(* ===== verification/System.thy ===== *)
theory System
  imports Manager Api
begin

text \<open>
  The server and its clients as one state machine over the shared segment, for executions in which
  no operation begins before the previous one has returned: clients open and close, add fofs with the
  statistics they count, choose the clock source; JACK runs cycles and reports overruns; the queue is
  flushed; in any order and any number. What happens when operations overlap is the subject
  of \<open>Slot_Race\<close>, \<open>Cache_Race\<close>, \<open>Free_List_Race\<close>, \<open>Single_Allocator\<close> and \<open>Add_Race\<close>: there cells can be
  lost or shared, so the properties below need the order that the step relation imposes.
\<close>

subsection \<open>Steps\<close>

type_synonym 'b server = "ctrl_client \<times> shmem \<times> 'b dsp_client list"

text \<open>\<open>counting\<close>: the clients are built with statistics.\<close>

inductive serial_step :: "bool \<Rightarrow> 'b fofs_lib \<Rightarrow> 'b server \<Rightarrow> 'b server \<Rightarrow> bool" for counting lib where
  add: "jfofs_add counting shmem t args = Some (st, shmem') \<Longrightarrow>
    serial_step counting lib (ctrl, shmem, dsps) (ctrl, shmem', dsps)"
| cycle: "ctrl_client_process_cb lib clk nframes ctrl (m_q shmem) dsps = Some (ctrl', q', dsps') \<Longrightarrow>
    serial_step counting lib (ctrl, shmem, dsps) (ctrl', shmem\<lparr>m_q := q'\<rparr>, dsps')"
| set_clock: "jfofs_set_clock_source shmem c = (st, shmem') \<Longrightarrow>
    serial_step counting lib (ctrl, shmem, dsps) (ctrl, shmem', dsps)"
| flush: "fof_queue_flush (m_q shmem) = Some q' \<Longrightarrow>
    serial_step counting lib (ctrl, shmem, dsps) (ctrl, shmem\<lparr>m_q := q'\<rparr>, dsps)"
| open_client: "jfofs_new b jack os given shmem = Some (client, st, shmem', res) \<Longrightarrow>
    serial_step counting lib (ctrl, shmem, dsps) (ctrl, shmem', dsps)"
| close_client: "serial_step counting lib (ctrl, shmem, dsps) (ctrl, jfofs_free client shmem, dsps)"
| xrun: "ctrl_client_xrun_cb ctrl = Some ctrl' \<Longrightarrow> serial_step counting lib (ctrl, shmem, dsps) (ctrl', shmem, dsps)"
| activate: "ctrl_client_activate call ctrl = (st, ctrl') \<Longrightarrow>
    serial_step counting lib (ctrl, shmem, dsps) (ctrl', shmem, dsps)"
| deactivate: "ctrl_client_deactivate call ctrl = (st, ctrl') \<Longrightarrow>
    serial_step counting lib (ctrl, shmem, dsps) (ctrl', shmem, dsps)"

inductive_cases serial_stepE: "serial_step counting lib s s'"

text \<open>The states that such an execution reaches once \<open>manager_create\<close> has brought the server up.\<close>

inductive serial_reach :: "bool \<Rightarrow> 'b fofs_lib \<Rightarrow> mgr_env \<Rightarrow> setup_t \<Rightarrow> 'b server \<Rightarrow> bool"
  for counting lib env conf where
  start: "manager_create lib b os env conf = Some (Some mgr, st, conf', evs) \<Longrightarrow>
    os_shm_open os \<Longrightarrow> os_ftruncate os \<Longrightarrow> os_mmap os = Some addr \<Longrightarrow> wf_build b \<Longrightarrow>
    serial_reach counting lib env conf (mg_ctrl mgr, mg_shmem mgr, map the (take (mgr_clients mgr) (mg_dsp mgr)))"
| step: "serial_reach counting lib env conf s \<Longrightarrow> serial_step counting lib s s' \<Longrightarrow>
    serial_reach counting lib env conf s'"

subsection \<open>The invariant\<close>

text \<open>\<open>n\<close> cells; a counter for every slot when additions are counted.\<close>

definition counters_fit :: "bool \<Rightarrow> shmem \<Rightarrow> bool" where
  "counters_fit counting shmem \<longleftrightarrow>
     (counting \<longrightarrow> n_slots (m_q shmem) \<le> length (st_slot_cnt (m_statistics shmem)))"

definition serial_inv :: "bool \<Rightarrow> nat \<Rightarrow> 'b server \<Rightarrow> bool" where
  "serial_inv counting n s = (case s of (ctrl, shmem, dsps) \<Rightarrow>
     wf_queue (m_q shmem) \<and> length (q_mem (m_q shmem)) = n \<and> wf_ctrl ctrl dsps \<and> counters_fit counting shmem)"

lemma open_keeps_queue:
  "jfofs_new b jack os given shmem = Some (client, st, shmem', res) \<Longrightarrow>
   m_q shmem' = m_q shmem \<and> m_statistics shmem' = m_statistics shmem"
  by (auto simp: jfofs_new_def shmem_link_def Let_def split: if_splits option.splits bind_splits)

lemma close_keeps_queue:
  "m_q (jfofs_free client shmem) = m_q shmem \<and> m_statistics (jfofs_free client shmem) = m_statistics shmem"
  by (simp add: jfofs_free_def shmem_unmap_def)

lemma set_clock_keeps_queue:
  assumes "jfofs_set_clock_source shmem c = (st, shmem')"
  shows "wf_queue (m_q shmem') = wf_queue (m_q shmem)" "q_mem (m_q shmem') = q_mem (m_q shmem)"
    "q_n_slots (m_q shmem') = q_n_slots (m_q shmem)" "m_statistics shmem' = m_statistics shmem"
  using assms wf_queue_cong(1) [of "m_q shmem'" "m_q shmem"]
  by (auto simp: jfofs_set_clock_source_def Let_def split: if_splits)

lemma serial_inv_add:
  assumes "jfofs_add counting shmem t args = Some (st, shmem')" and "serial_inv counting n (ctrl, shmem, dsps)"
  shows "serial_inv counting n (ctrl, shmem', dsps)"
proof -
  have w: "wf_queue (m_q shmem)" "counting \<Longrightarrow> n_slots (m_q shmem) \<le> length (st_slot_cnt (m_statistics shmem))"
    using assms(2) by (simp_all add: serial_inv_def counters_fit_def)
  obtain st2 shmem2 where "jfofs_add counting shmem t args = Some (st2, shmem2)" "wf_queue (m_q shmem2)"
    "q_frame (m_q shmem2) = q_frame (m_q shmem)"
    "length (st_slot_cnt (m_statistics shmem2)) = length (st_slot_cnt (m_statistics shmem))"
    by (rule jfofs_add_counts [of shmem counting t args, OF w]) auto
  then show ?thesis using assms by (auto simp: serial_inv_def counters_fit_def q_frame_def)
qed

lemma serial_inv_step:
  assumes "serial_step counting lib s s'" and "serial_inv counting n s"
  shows "serial_inv counting n s'"
  using assms
proof (cases rule: serial_step.cases)
  case (add shmem t args st shmem' ctrl dsps)
  then show ?thesis using serial_inv_add assms(2) by blast
next
  case (cycle clk nframes ctrl shmem dsps ctrl' q' dsps')
  have w: "wf_queue (m_q shmem)" "wf_ctrl ctrl dsps" using cycle assms(2) by (simp_all add: serial_inv_def)
  obtain c' r' d' where "ctrl_client_process_cb lib clk nframes ctrl (m_q shmem) dsps = Some (c', r', d')"
    "wf_queue r'" "wf_ctrl c' d'" "length (q_mem r') = length (q_mem (m_q shmem))" "n_slots r' = n_slots (m_q shmem)"
    by (rule process_cb_total [OF w, of lib clk nframes])
  then show ?thesis using cycle assms(2) by (simp add: serial_inv_def counters_fit_def)
next
  case (set_clock shmem c st shmem' ctrl dsps)
  note k = set_clock_keeps_queue [OF set_clock(3)]
  then show ?thesis using assms(2) unfolding set_clock(1,2)
    by (simp add: serial_inv_def counters_fit_def)
next
  case (flush shmem q' ctrl dsps)
  then have "wf_queue (m_q shmem)" using assms(2) by (simp add: serial_inv_def)
  then obtain r' where "fof_queue_flush (m_q shmem) = Some r'" "wf_queue r'" "q_n_slots r' = q_n_slots (m_q shmem)"
    "length (q_mem r') = length (q_mem (m_q shmem))"
    by (rule flush_refines) (simp add: flushed_def q_frame_def)
  then show ?thesis using flush assms(2) by (simp add: serial_inv_def counters_fit_def)
next
  case (open_client b jack os given shmem client st shmem' res ctrl dsps)
  then show ?thesis using open_keeps_queue [OF open_client(3)] assms(2)
    by (simp add: serial_inv_def counters_fit_def)
next
  case (close_client ctrl shmem dsps client)
  then show ?thesis using close_keeps_queue [of client shmem] assms(2)
    by (simp add: serial_inv_def counters_fit_def)
next
  case (xrun ctrl ctrl' shmem dsps)
  then show ?thesis using assms(2) wf_ctrl_cong [of ctrl' ctrl dsps dsps]
    by (auto simp: serial_inv_def ctrl_client_xrun_cb_def Let_def split: if_splits)
next
  case (activate call ctrl st ctrl' shmem dsps)
  then show ?thesis using assms(2) wf_ctrl_cong [of ctrl' ctrl dsps dsps]
    by (auto simp: serial_inv_def ctrl_client_activate_def)
next
  case (deactivate call ctrl st ctrl' shmem dsps)
  then show ?thesis using assms(2) wf_ctrl_cong [of ctrl' ctrl dsps dsps]
    by (auto simp: serial_inv_def ctrl_client_deactivate_def)
qed

text \<open>The server as it is brought up; what its setup allows for the counters.\<close>

abbreviation counting_allowed :: "bool \<Rightarrow> setup_t \<Rightarrow> bool" where
  "counting_allowed counting conf \<equiv> counting \<longrightarrow> sint (s_n_slots conf) \<le> int MAX_SLOTS"

lemma serial_inv_reach:
  assumes "serial_reach counting lib env conf s" and "jack_works lib env" and "server_setup lib env conf"
    and "counting_allowed counting conf"
  shows "serial_inv counting (nat (sint (s_n_max_fofs conf))) s"
  using assms(1)
proof induction
  case (start b os mgr st conf' evs addr)
  obtain mgr' where r: "manager_create lib b os env conf = Some (Some mgr', 0, jack_setup_of env conf, bring_up mgr')"
    "wf_queue (m_q (mg_shmem mgr'))" "wf_ctrl (mg_ctrl mgr') (map the (take (mgr_clients mgr') (mg_dsp mgr')))"
    "length (q_mem (m_q (mg_shmem mgr'))) = nat (sint (s_n_max_fofs conf))"
    "q_n_slots (m_q (mg_shmem mgr')) = s_n_slots conf"
    "length (st_slot_cnt (m_statistics (mg_shmem mgr'))) = MAX_SLOTS"
    by (rule manager_create_ok [OF start(2-5) assms(2,3)]) blast
  then show ?case using start(1) assms(4) by (auto simp: serial_inv_def counters_fit_def)
next
  case (step s s')
  then show ?case using serial_inv_step by blast
qed

text \<open>Without statistics the bound on the slots is not needed.\<close>

lemma serial_reach_queue:
  assumes "serial_reach counting lib env conf (ctrl, shmem, dsps)" and "jack_works lib env"
    and "server_setup lib env conf" and "counting_allowed counting conf"
  shows "wf_queue (m_q shmem)" "length (q_mem (m_q shmem)) = nat (sint (s_n_max_fofs conf))" "wf_ctrl ctrl dsps"
    "counting \<Longrightarrow> n_slots (m_q shmem) \<le> length (st_slot_cnt (m_statistics shmem))"
  using serial_inv_reach [OF assms] by (simp_all add: serial_inv_def counters_fit_def)

lemma ex_reach: "\<exists>s. serial_reach True ex_lib ex_env ex_setup (s :: event list server)"
proof -
  have o: "os_shm_open ex_os" "os_ftruncate ex_os" "os_mmap ex_os = Some 4096" "wf_build ex_build"
    by (simp_all add: ex_os_def wf_build_def ex_build_def)
  obtain mgr where "manager_create ex_lib ex_build ex_os ex_env ex_setup
      = Some (Some mgr, 0, jack_setup_of ex_env ex_setup, bring_up mgr)"
    by (rule manager_create_ok [OF o ex_server]) blast
  from serial_reach.start [OF this o] show ?thesis by blast
qed

lemma ex_counting: "counting_allowed True ex_setup"
  by (simp add: ex_setup_def)

subsection \<open>Properties of the server when operations do not overlap\<close>

text \<open>
  C6: no cell is ever lost or owned twice, as long as operations do not overlap: in every state that
  the server reaches by whole operations, one after the other, the free
  list, the slots and the excess list are well linked and hold every cell of the pool exactly
  once, so their lengths add up to \<open>n_max_fofs\<close>. (With overlapping additions this is false: see
  \<open>cell_allocated_twice\<close> and \<open>excess_list_loses_and_shares\<close>.) In a build that counts, at most \<open>MAX_SLOTS\<close> slots.
\<close>

theorem serial_operations_conserve_cells:
  assumes "serial_reach counting lib env conf (ctrl, shmem, dsps)" and "jack_works lib env"
    and "server_setup lib env conf" and "counting \<longrightarrow> sint (s_n_slots conf) \<le> int MAX_SLOTS"
  defines "q \<equiv> m_q shmem"
  shows "wf_queue q \<and> distinct (free_list q @ concat (slot_lists q) @ excess_list q) \<and>
    set (free_list q @ concat (slot_lists q) @ excess_list q) = {..<nat (sint (s_n_max_fofs conf))} \<and>
    length (free_list q) + length (concat (slot_lists q)) + length (excess_list q)
      = nat (sint (s_n_max_fofs conf))"
proof -
  note i = serial_reach_queue(1,2) [OF assms(1-4), folded q_def]
  note o = wf_queueD(3) [OF i(1)]
  show ?thesis using i o owns_count [OF o] unfolding owns_def by simp
qed

theorem serial_operations_conserve_cells_witness:
  "\<exists>ctrl shmem (dsps :: event list dsp_client list). serial_reach True ex_lib ex_env ex_setup (ctrl, shmem, dsps) \<and>
    length (free_list (m_q shmem)) + length (concat (slot_lists (m_q shmem))) + length (excess_list (m_q shmem)) = 3"
proof -
  obtain ctrl shmem and dsps :: "event list dsp_client list"
    where r: "serial_reach True ex_lib ex_env ex_setup (ctrl, shmem, dsps)"
    using ex_reach by (metis prod_cases3)
  have "nat (sint (s_n_max_fofs ex_setup)) = 3" by (simp add: ex_setup_def)
  with serial_operations_conserve_cells [OF r ex_server ex_counting] r show ?thesis by auto
qed



end
