(* ===== verification/Free_List_Race.thy ===== *)
theory Free_List_Race
  imports Prelude
begin

text \<open>
  The free list of \<^verbatim>\<open>fof_queue.c\<close> under several threads: \<open>fof_queue_allocate_fof\<close> and
  \<open>fof_queue_free_fof\<close> cut into their atomic steps, interleaved by an explicit schedule. The
  compare-and-swap compares the bare pointer, so it cannot see that the list has changed and
  come back in between. The audio thread's release of a whole list (\<open>fof_queue_free_fofs\<close>) pushes in
  the same way; it is cut into its steps in \<open>Slot_Race\<close>.
\<close>

subsection \<open>Threads and atomic steps\<close>

text \<open>Where a thread is: \<open>At_Load\<close> at the head of the loop of \<open>fof_queue_allocate_fof\<close>, and so on.\<close>

datatype thread_pc =
  Idle
| At_Load
| Got_Fof nat             \<comment> \<open>\<open>fof\<close> was loaded\<close>
| Got_Next nat cell_ptr   \<comment> \<open>\<open>fof->next\<close> was read for the compare-and-swap\<close>
| Got_Cell nat            \<comment> \<open>the swap succeeded, \<open>fof->next = NULL\<close> is left to do\<close>
| Free_Load nat           \<comment> \<open>at the head of the loop of \<open>fof_queue_free_fof\<close>\<close>
| Free_Store nat cell_ptr
| Free_Swap nat

record race =
  r_free :: cell_ptr
  r_next :: "cell_ptr list"
  r_pc :: "thread_pc list"
  r_held :: "nat list list" \<comment> \<open>the cells each thread was given and has not freed\<close>

datatype race_op = Allocate | Free nat | Continue

definition set_pc :: "nat \<Rightarrow> thread_pc \<Rightarrow> race \<Rightarrow> race" where
  "set_pc t pc s = s\<lparr>r_pc := (r_pc s)[t := pc]\<rparr>"

fun race_continue :: "nat \<Rightarrow> thread_pc \<Rightarrow> race \<Rightarrow> race option" where
  "race_continue t Idle s = None"
| "race_continue t At_Load s =
     Some (set_pc t (case r_free s of None \<Rightarrow> Idle | Some a \<Rightarrow> Got_Fof a) s)"
| "race_continue t (Got_Fof a) s =
     (if a < length (r_next s) then Some (set_pc t (Got_Next a (r_next s ! a)) s) else None)"
| "race_continue t (Got_Next a nxt) s =
     Some (if r_free s = Some a then set_pc t (Got_Cell a) (s\<lparr>r_free := nxt\<rparr>) else set_pc t At_Load s)"
| "race_continue t (Got_Cell a) s =
     (if a < length (r_next s)
      then Some (set_pc t Idle (s\<lparr>r_next := (r_next s)[a := None],
                                  r_held := (r_held s)[t := a # r_held s ! t]\<rparr>))
      else None)"
| "race_continue t (Free_Load a) s = Some (set_pc t (Free_Store a (r_free s)) s)"
| "race_continue t (Free_Store a p) s =
     (if a < length (r_next s) then Some (set_pc t (Free_Swap a) (s\<lparr>r_next := (r_next s)[a := p]\<rparr>)) else None)"
| "race_continue t (Free_Swap a) s =
     (if a < length (r_next s)
      then Some (if r_free s = r_next s ! a then set_pc t Idle (s\<lparr>r_free := Some a\<rparr>)
                 else set_pc t (Free_Load a) (s\<lparr>r_next := (r_next s)[a := r_free s]\<rparr>))
      else None)"

text \<open>A thread may call \<open>fof_queue_free_fof\<close> on a cell it was given.\<close>

fun race_step :: "nat \<times> race_op \<Rightarrow> race \<Rightarrow> race option" where
  "race_step (t, Allocate) s =
     (if t < length (r_pc s) \<and> r_pc s ! t = Idle then Some (set_pc t At_Load s) else None)"
| "race_step (t, Free a) s =
     (if t < length (r_pc s) \<and> r_pc s ! t = Idle \<and> a \<in> set (r_held s ! t)
      then Some (set_pc t (Free_Load a) (s\<lparr>r_held := (r_held s)[t := remove1 a (r_held s ! t)]\<rparr>))
      else None)"
| "race_step (t, Continue) s =
     (if t < length (r_pc s) then race_continue t (r_pc s ! t) s else None)"

fun race_run :: "(nat \<times> race_op) list \<Rightarrow> race \<Rightarrow> race option" where
  "race_run [] s = Some s"
| "race_run (o1 # os) s = do { s' \<leftarrow> race_step o1 s; race_run os s' }"

text \<open>\<open>n\<close> free cells in the order of the array and \<open>m\<close> idle threads.\<close>

definition race_init :: "nat \<Rightarrow> nat \<Rightarrow> race" where
  "race_init n m = \<lparr>r_free = (if n = 0 then None else Some 0),
     r_next = map (\<lambda>i. if Suc i < n then Some (Suc i) else None) [0..<n],
     r_pc = replicate m Idle, r_held = replicate m []\<rparr>"

subsection \<open>One thread alone\<close>

text \<open>Alone, the steps are the sequential operations: the first free cell is taken, the freed one is put first.\<close>

lemma alone_allocates:
  assumes "t < length (r_pc s)" "t < length (r_held s)" "r_pc s ! t = Idle" "r_free s = Some a" "a < length (r_next s)"
  shows "race_run [(t, Allocate), (t, Continue), (t, Continue), (t, Continue), (t, Continue)] s
    = Some (s\<lparr>r_free := r_next s ! a, r_next := (r_next s)[a := None],
              r_held := (r_held s)[t := a # r_held s ! t]\<rparr>)"
proof -
  have "(r_pc s)[t := Idle] = r_pc s" using assms(3) by (metis list_update_id)
  then show ?thesis using assms by (simp add: set_pc_def)
qed

lemma alone_frees:
  assumes "t < length (r_pc s)" "t < length (r_held s)" "r_pc s ! t = Idle" "a \<in> set (r_held s ! t)" "a < length (r_next s)"
  shows "race_run [(t, Free a), (t, Continue), (t, Continue), (t, Continue)] s
    = Some (s\<lparr>r_free := Some a, r_next := (r_next s)[a := r_free s],
              r_held := (r_held s)[t := remove1 a (r_held s ! t)]\<rparr>)"
proof -
  have "(r_pc s)[t := Idle] = r_pc s" using assms(3) by (metis list_update_id)
  then show ?thesis using assms by (simp add: set_pc_def)
qed

subsection \<open>Two threads\<close>

definition alloc_steps :: "nat \<Rightarrow> (nat \<times> race_op) list" where
  "alloc_steps t = [(t, Allocate), (t, Continue), (t, Continue), (t, Continue), (t, Continue)]"

definition free_steps :: "nat \<Rightarrow> nat \<Rightarrow> (nat \<times> race_op) list" where
  "free_steps t a = [(t, Free a), (t, Continue), (t, Continue), (t, Continue)]"

text \<open>
  C40: two API clients can be given the same cell. One thread is preempted in
  \<open>fof_queue_allocate_fof\<close> after reading \<open>fof->next\<close>; the other takes the first two cells and
  frees the first again; the first thread's compare-and-swap then succeeds on the stale value
  and its next allocation hands out a cell that the other thread holds.
\<close>

theorem cell_allocated_twice:
  "\<exists>sched s. race_run sched (race_init 3 2) = Some s \<and> r_pc s = [Idle, Idle] \<and>
    1 \<in> set (r_held s ! 0) \<and> 1 \<in> set (r_held s ! 1)"
proof (intro exI conjI)
  let ?sched = "[(0, Allocate), (0, Continue), (0, Continue)] @ alloc_steps 1 @ alloc_steps 1
    @ free_steps 1 0 @ [(0, Continue), (0, Continue)] @ alloc_steps 0"
  let ?s = "\<lparr>r_free = None, r_next = [None, None, None], r_pc = [Idle, Idle], r_held = [[1, 0], [1]]\<rparr>"
  show "race_run ?sched (race_init 3 2) = Some ?s" by code_simp
qed simp_all

end
