(* ===== verification/Single_Allocator.thy ===== *)
theory Single_Allocator
  imports Free_List_Race "HOL-Library.Multiset"
begin

text \<open>
  The free list of \<^verbatim>\<open>fof_queue.c\<close> with one allocating thread, which is how one client and the
  audio thread of the server use it: any number of threads give cells back, one takes them.
  Then the untagged compare-and-swap is sound, whatever the interleaving.
\<close>

subsection \<open>Steps\<close>

text \<open>
  The atomic steps of \<open>race_step\<close>, with \<open>Allocate\<close> for thread 0 only, and the hand-over of a
  cell from one thread to another through a slot of the queue.
\<close>

inductive single_step :: "race \<Rightarrow> race \<Rightarrow> bool" where
  atomic: "race_step (t, op) s = Some s' \<Longrightarrow> op = Allocate \<longrightarrow> t = 0 \<Longrightarrow> single_step s s'"
| hand_over: "t < length (r_held s) \<Longrightarrow> u < length (r_held s) \<Longrightarrow> t \<noteq> u \<Longrightarrow> a \<in> set (r_held s ! t) \<Longrightarrow>
    single_step s (s\<lparr>r_held := (r_held s)[t := remove1 a (r_held s ! t), u := a # r_held s ! u]\<rparr>)"

inductive single_reach :: "nat \<Rightarrow> nat \<Rightarrow> race \<Rightarrow> bool" for n m where
  start: "single_reach n m (race_init n m)"
| step: "single_reach n m s \<Longrightarrow> single_step s s' \<Longrightarrow> single_reach n m s'"

subsection \<open>The invariant\<close>

text \<open>The cell a thread is just taking or giving back, and all cells it owns.\<close>

fun moving :: "thread_pc \<Rightarrow> nat list" where
  "moving (Got_Cell a) = [a]"
| "moving (Free_Load a) = [a]"
| "moving (Free_Store a p) = [a]"
| "moving (Free_Swap a) = [a]"
| "moving pc = []"

definition owned :: "race \<Rightarrow> nat \<Rightarrow> nat list" where
  "owned s t = moving (r_pc s ! t) @ r_held s ! t"

text \<open>What a thread has read is still true; only thread 0 allocates.\<close>

fun read_ok :: "race \<Rightarrow> nat list \<Rightarrow> nat \<Rightarrow> thread_pc \<Rightarrow> bool" where
  "read_ok s L t (Got_Fof a) \<longleftrightarrow> t = 0 \<and> a \<in> set L"
| "read_ok s L t (Got_Next a nxt) \<longleftrightarrow> t = 0 \<and> a \<in> set L \<and> nxt = r_next s ! a"
| "read_ok s L t At_Load \<longleftrightarrow> t = 0"
| "read_ok s L t (Got_Cell a) \<longleftrightarrow> t = 0"
| "read_ok s L t pc \<longleftrightarrow> True"

definition single_inv :: "nat \<Rightarrow> race \<Rightarrow> nat list \<Rightarrow> bool" where
  "single_inv n s L \<longleftrightarrow> chain ((!) (r_next s)) (r_free s) L \<and> length (r_next s) = n \<and>
     length (r_held s) = length (r_pc s) \<and>
     mset L + (\<Sum>t<length (r_pc s). mset (owned s t)) = mset [0..<n] \<and>
     (\<forall>t<length (r_pc s). read_ok s L t (r_pc s ! t))"

text \<open>One thread and the list exchange cells; the others keep theirs.\<close>

lemma sum_change:
  fixes f g :: "nat \<Rightarrow> 'b multiset"
  assumes "t < m" and "\<And>u. u \<noteq> t \<Longrightarrow> g u = f u" and "K + g t = L + f t"
  shows "K + (\<Sum>u<m. g u) = L + (\<Sum>u<m. f u)"
proof -
  have "(\<Sum>u<m. h u) = h t + (\<Sum>u\<in>{..<m} - {t}. h u)" for h :: "nat \<Rightarrow> 'b multiset"
    using assms(1) by (simp add: sum.remove)
  moreover have "(\<Sum>u\<in>{..<m} - {t}. g u) = (\<Sum>u\<in>{..<m} - {t}. f u)"
    using assms(2) by (intro sum.cong) auto
  ultimately show ?thesis using assms(3) by (metis add.assoc)
qed

lemma single_inv_cells:
  assumes "single_inv n s L" and "t < length (r_pc s)" and "a \<in> set (owned s t)"
  shows "a \<notin> set L" "a < n" "t \<noteq> u \<Longrightarrow> u < length (r_pc s) \<Longrightarrow> a \<notin> set (owned s u)"
    "a \<in> set (moving (r_pc s ! t)) \<Longrightarrow> a \<notin> set (r_held s ! t)"
proof -
  let ?S = "\<lambda>T. \<Sum>u\<in>T. mset (owned s u)"
  have p: "mset L + (mset (owned s t) + ?S ({..<length (r_pc s)} - {t})) = mset [0..<n]"
    using assms(1,2) by (simp add: single_inv_def sum.remove)
  have one: "count (mset [0..<n]) x \<le> 1" for x
    using distinct_count_atmost_1 [of "[0..<n]"] by (auto split: if_splits)
  have ct: "count (mset (owned s t)) a \<ge> 1" using assms(3) by (simp add: count_greater_eq_one_iff)
  have eq: "count (mset L) a + (count (mset (owned s t)) a + count (?S ({..<length (r_pc s)} - {t})) a) \<le> 1"
    using one [of a] p by (metis count_union)
  have "count (mset L) a = 0" using eq ct by arith
  then show "a \<notin> set L" by (simp add: count_mset_0_iff)
  have "a \<in># mset [0..<n]" using p assms(3) by (metis set_mset_mset union_iff)
  then show "a < n" by simp
  show "a \<notin> set (owned s u)" if "t \<noteq> u" "u < length (r_pc s)"
  proof -
    have "?S ({..<length (r_pc s)} - {t}) = mset (owned s u) + ?S ({..<length (r_pc s)} - {t} - {u})"
      using that by (intro sum.remove) auto
    then have "count (?S ({..<length (r_pc s)} - {t})) a
        = count (mset (owned s u)) a + count (?S ({..<length (r_pc s)} - {t} - {u})) a"
      by (simp only: count_union)
    then have "count (mset (owned s u)) a = 0" using eq ct by arith
    then show ?thesis by (simp add: count_mset_0_iff)
  qed
  show "a \<notin> set (r_held s ! t)" if "a \<in> set (moving (r_pc s ! t))"
  proof -
    have "count (mset (moving (r_pc s ! t))) a \<ge> 1" using that by (simp add: count_greater_eq_one_iff)
    moreover have "count (mset (owned s t)) a = count (mset (moving (r_pc s ! t))) a + count (mset (r_held s ! t)) a"
      by (simp add: owned_def)
    ultimately have "count (mset (r_held s ! t)) a = 0" using eq by arith
    then show ?thesis by (simp add: count_mset_0_iff)
  qed
qed

text \<open>A step of thread \<open>t\<close>, with what it changes.\<close>

lemma single_inv_update:
  assumes inv: "single_inv n s L" and t: "t < length (r_pc s)"
    and s': "s' = s\<lparr>r_free := p, r_next := nx, r_pc := (r_pc s)[t := pc], r_held := (r_held s)[t := hs]\<rparr>"
    and "chain ((!) nx) p L'" and "length nx = n"
    and cells: "mset L' + mset (moving pc @ hs) = mset L + mset (owned s t)"
    and ok: "read_ok s' L' t pc"
    and keep: "t \<noteq> 0 \<Longrightarrow> set L \<subseteq> set L' \<and> (\<forall>a\<in>set L. nx ! a = r_next s ! a)"
  shows "single_inv n s' L'"
proof -
  have len: "length (r_held s) = length (r_pc s)" using inv by (simp add: single_inv_def)
  have "mset L' + (\<Sum>u<length (r_pc s). mset (owned s' u)) = mset L + (\<Sum>u<length (r_pc s). mset (owned s u))"
  proof (rule sum_change [OF t])
    show "mset (owned s' u) = mset (owned s u)" if "u \<noteq> t" for u using that by (simp add: owned_def s')
    show "mset L' + mset (owned s' t) = mset L + mset (owned s t)"
      using cells t len by (simp add: owned_def s')
  qed
  moreover have "read_ok s' L' u (r_pc s' ! u)" if "u < length (r_pc s)" for u
  proof (cases "u = t")
    case True
    then show ?thesis using ok t by (simp add: s')
  next
    case False
    have "read_ok s L u (r_pc s ! u)" using inv that by (simp add: single_inv_def)
    then have "read_ok s' L' u (r_pc s ! u)" using keep False
      by (cases "r_pc s ! u") (auto simp: s')
    then show ?thesis using False by (simp add: s')
  qed
  ultimately show ?thesis using assms by (simp add: single_inv_def)
qed

lemma single_inv_D:
  assumes "single_inv n s L" and "t < length (r_pc s)"
  shows "chain ((!) (r_next s)) (r_free s) L" "length (r_next s) = n" "length (r_held s) = length (r_pc s)"
    "read_ok s L t (r_pc s ! t)"
  using assms by (simp_all add: single_inv_def)

lemma chain_list_update: "a \<notin> set L \<Longrightarrow> chain ((!) (xs[a := v])) p L = chain ((!) xs) p L"
  by (rule chain_cong) (metis nth_list_update_neq)

text \<open>The two compare-and-swaps.\<close>

lemma single_inv_pop_swap:
  assumes inv: "single_inv n s L" and t: "t < length (r_pc s)" and Got_Next: "r_pc s ! t = Got_Next a nxt"
    and run: "race_continue t (Got_Next a nxt) s = Some s'"
  shows "\<exists>L'. single_inv n s' L'"
proof -
  note D = single_inv_D [OF inv t]
  note upd = single_inv_update [OF inv t, where hs = "r_held s ! t"]
  show ?thesis
  proof (cases "r_free s = Some a")
    case True
    then obtain K where L: "L = a # K" "chain ((!) (r_next s)) (r_next s ! a) K" using D(1) by (auto simp: chain_Some)
    have "single_inv n s' K"
      using run D Got_Next True L
      by (intro upd [where p = nxt and nx = "r_next s" and pc = "Got_Cell a"]) (auto simp: set_pc_def owned_def)
    then show ?thesis ..
  next
    case False
    have "single_inv n s' L"
      using run D Got_Next False
      by (intro upd [where p = "r_free s" and nx = "r_next s" and pc = At_Load]) (auto simp: set_pc_def owned_def)
    then show ?thesis ..
  qed
qed

lemma single_inv_push_swap:
  assumes inv: "single_inv n s L" and t: "t < length (r_pc s)" and Free_Swap: "r_pc s ! t = Free_Swap a"
    and run: "race_continue t (Free_Swap a) s = Some s'"
  shows "\<exists>L'. single_inv n s' L'"
proof -
  note D = single_inv_D [OF inv t]
  note upd = single_inv_update [OF inv t, where hs = "r_held s ! t"]
  have a: "a \<notin> set L" "a < n" using single_inv_cells [OF inv t, of a] Free_Swap by (simp_all add: owned_def)
  show ?thesis
  proof (cases "r_free s = r_next s ! a")
    case True
    have "single_inv n s' (a # L)"
      using run D Free_Swap True a
      by (intro upd [where p = "Some a" and nx = "r_next s" and pc = Idle]) (auto simp: set_pc_def owned_def)
    then show ?thesis ..
  next
    case False
    have "single_inv n s' L"
      using run D Free_Swap False a chain_list_update [OF a(1)]
      by (intro upd [where p = "r_free s" and nx = "(r_next s)[a := r_free s]" and pc = "Free_Load a"])
        (auto simp: set_pc_def owned_def nth_list_update)
    then show ?thesis ..
  qed
qed

lemma single_inv_continue:
  assumes inv: "single_inv n s L" and t: "t < length (r_pc s)"
    and run: "race_continue t (r_pc s ! t) s = Some s'"
  shows "\<exists>L'. single_inv n s' L'"
proof -
  note D = single_inv_D [OF inv t]
  have same: "(r_held s)[t := r_held s ! t] = r_held s" by simp
  note upd = single_inv_update [OF inv t, where hs = "r_held s ! t"]
  show ?thesis
  proof (cases "r_pc s ! t")
    case Idle
    then show ?thesis using run by simp
  next
    case At_Load
    have "single_inv n s' L"
      using run D At_Load
      by (intro upd [where p = "r_free s" and nx = "r_next s" and pc = "case r_free s of None \<Rightarrow> Idle | Some a \<Rightarrow> Got_Fof a"])
        (auto simp: set_pc_def owned_def chain_Some split: option.split)
    then show ?thesis ..
  next
    case (Got_Fof a)
    have "single_inv n s' L"
      using run D Got_Fof
      by (intro upd [where p = "r_free s" and nx = "r_next s" and pc = "Got_Next a (r_next s ! a)"])
        (auto simp: set_pc_def owned_def split: if_splits)
    then show ?thesis ..
  next
    case (Got_Next a nxt)
    then show ?thesis using single_inv_pop_swap [OF inv t] run by simp
  next
    case (Got_Cell a)
    have a: "a \<notin> set L" "a < n" using single_inv_cells [OF inv t, of a] Got_Cell by (simp_all add: owned_def)
    have "single_inv n s' L"
      using run D Got_Cell a chain_list_update [OF a(1)]
      by (intro single_inv_update [OF inv t, where p = "r_free s" and nx = "(r_next s)[a := None]" and pc = Idle
            and hs = "a # r_held s ! t"]) (auto simp: set_pc_def owned_def)
    then show ?thesis ..
  next
    case (Free_Load a)
    have "single_inv n s' L"
      using run D Free_Load
      by (intro upd [where p = "r_free s" and nx = "r_next s" and pc = "Free_Store a (r_free s)"])
        (auto simp: set_pc_def owned_def)
    then show ?thesis ..
  next
    case (Free_Store a p)
    have a: "a \<notin> set L" "a < n" using single_inv_cells [OF inv t, of a] Free_Store by (simp_all add: owned_def)
    have "single_inv n s' L"
      using run D Free_Store a chain_list_update [OF a(1)]
      by (intro upd [where p = "r_free s" and nx = "(r_next s)[a := p]" and pc = "Free_Swap a"])
        (auto simp: set_pc_def owned_def nth_list_update)
    then show ?thesis ..
  next
    case (Free_Swap a)
    then show ?thesis using single_inv_push_swap [OF inv t] run by simp
  qed
qed

lemma single_inv_hand_over:
  assumes inv: "single_inv n s L" and t: "t < length (r_held s)" "u < length (r_held s)" "t \<noteq> u"
    and a: "a \<in> set (r_held s ! t)"
  shows "single_inv n (s\<lparr>r_held := (r_held s)[t := remove1 a (r_held s ! t), u := a # r_held s ! u]\<rparr>) L"
    (is "single_inv n ?s L")
proof -
  let ?m = "length (r_pc s)"
  let ?s1 = "s\<lparr>r_held := (r_held s)[t := remove1 a (r_held s ! t)]\<rparr>"
  have len: "length (r_held s) = ?m" using inv by (simp add: single_inv_def)
  have "{#a#} + (\<Sum>v<?m. mset (owned ?s1 v)) = {#} + (\<Sum>v<?m. mset (owned s v))"
    using t a len by (intro sum_change [of t]) (auto simp: owned_def)
  moreover have "{#} + (\<Sum>v<?m. mset (owned ?s v)) = {#a#} + (\<Sum>v<?m. mset (owned ?s1 v))"
    using t a len by (intro sum_change [of u]) (auto simp: owned_def)
  ultimately have "(\<Sum>v<?m. mset (owned ?s v)) = (\<Sum>v<?m. mset (owned s v))" by simp
  moreover have "read_ok ?s L v pc = read_ok s L v pc" for v pc by (cases pc) simp_all
  ultimately show ?thesis using inv by (simp add: single_inv_def)
qed

lemma single_inv_step:
  assumes "single_step s s'" and inv: "single_inv n s L"
  shows "\<exists>L'. single_inv n s' L'"
  using assms(1)
proof cases
  case (atomic t op)
  show ?thesis
  proof (cases op)
    case Allocate
    with atomic have "single_inv n s' L"
      using single_inv_D [OF inv, of 0]
      by (intro single_inv_update [OF inv, where t = 0 and p = "r_free s" and nx = "r_next s" and pc = At_Load
            and hs = "r_held s ! 0"]) (auto simp: set_pc_def owned_def split: if_splits)
    then show ?thesis ..
  next
    case (Free a)
    with atomic have t: "t < length (r_pc s)" by (simp split: if_splits)
    with atomic Free have "single_inv n s' L"
      using single_inv_D [OF inv t]
      by (intro single_inv_update [OF inv t, where p = "r_free s" and nx = "r_next s" and pc = "Free_Load a"
            and hs = "remove1 a (r_held s ! t)"]) (auto simp: set_pc_def owned_def split: if_splits)
    then show ?thesis ..
  next
    case Continue
    with atomic show ?thesis using single_inv_continue [OF inv] by (simp split: if_splits)
  qed
next
  case (hand_over t u a)
  then show ?thesis using single_inv_hand_over [OF inv] by blast
qed

lemma race_step_threads:
  assumes "race_step (t, op) s = Some s'"
  shows "length (r_pc s') = length (r_pc s)"
proof (cases op)
  case Continue
  with assms show ?thesis
    by (cases "r_pc s ! t") (auto simp: set_pc_def Let_def split: if_splits)
qed (use assms in \<open>auto simp: set_pc_def split: if_splits\<close>)

lemma single_inv_init: "single_inv n (race_init n m) [0..<n]"
proof -
  let ?h = "\<lambda>i. if Suc i < n then Some (Suc i) else None"
  have "chain ?h (if k < n then Some k else None) [k..<n]" if "k \<le> n" for k
    using that
  proof (induction "n - k" arbitrary: k)
    case 0
    then show ?case by simp
  next
    case (Suc j)
    then have k: "k < n" by arith
    then have "chain ?h (?h k) [Suc k..<n]" using Suc(1) [of "Suc k"] Suc(2) by simp
    then show ?case using k by (simp add: upt_conv_Cons)
  qed
  from this [of 0] have "chain ?h (r_free (race_init n m)) [0..<n]"
    by (cases "n = 0") (simp_all add: race_init_def)
  moreover have "chain ((!) (map ?h [0..<n])) p [0..<n] = chain ?h p [0..<n]" for p
    by (rule chain_cong) simp
  ultimately have "chain ((!) (r_next (race_init n m))) (r_free (race_init n m)) [0..<n]"
    by (simp add: race_init_def)
  then show ?thesis by (simp add: single_inv_def race_init_def owned_def)
qed

lemma single_reach_inv: "single_reach n m s \<Longrightarrow> length (r_pc s) = m \<and> (\<exists>L. single_inv n s L)"
proof (induction rule: single_reach.induct)
  case start
  show ?case using single_inv_init [of n m] by (auto simp: race_init_def)
next
  case (step s s')
  from step(2) have "length (r_pc s') = length (r_pc s)" by cases (auto dest: race_step_threads)
  with step single_inv_step [OF step(2)] show ?case by auto
qed

subsection \<open>One allocating thread is enough\<close>

text \<open>
  C17: with one allocating thread the free list is safe under every interleaving: in each
  reachable state the free list is a proper list, and it and the cells in the hands of the
  \<open>m\<close> threads together hold every cell of the pool exactly once.
\<close>

theorem one_allocator_never_shares:
  assumes "single_reach n m s"
  shows "\<exists>free. chain ((!) (r_next s)) (r_free s) free \<and>
    distinct (free @ concat (map (owned s) [0..<m])) \<and>
    set (free @ concat (map (owned s) [0..<m])) = {..<n}"
proof -
  obtain L where L: "single_inv n s L" "length (r_pc s) = m" using single_reach_inv [OF assms] by blast
  let ?all = "L @ concat (map (owned s) [0..<m])"
  have "mset (concat (map (owned s) [0..<m])) = (\<Sum>t<m. mset (owned s t))"
    by (simp add: mset_concat comp_def interv_sum_list_conv_sum_set_nat atLeast0LessThan)
  then have all: "mset ?all = mset [0..<n]" using L by (simp add: single_inv_def)
  have "distinct ?all" using mset_eq_imp_distinct_iff [OF all] by simp
  moreover have "set ?all = {..<n}" using mset_eq_setD [OF all] by (simp add: atLeast0LessThan)
  ultimately show ?thesis using L(1) by (auto simp: single_inv_def)
qed

theorem one_allocator_never_shares_witness:
  "single_reach 3 2 (set_pc 0 At_Load (race_init 3 2)) \<and>
   (\<exists>free. chain ((!) (r_next (set_pc 0 At_Load (race_init 3 2)))) (r_free (set_pc 0 At_Load (race_init 3 2))) free \<and>
    distinct (free @ concat (map (owned (set_pc 0 At_Load (race_init 3 2))) [0..<2])) \<and>
    set (free @ concat (map (owned (set_pc 0 At_Load (race_init 3 2))) [0..<2])) = {..<3})"
proof -
  have "race_step (0, Allocate) (race_init 3 2) = Some (set_pc 0 At_Load (race_init 3 2))" by code_simp
  then have "single_reach 3 2 (set_pc 0 At_Load (race_init 3 2))"
    by (intro single_reach.step [OF single_reach.start] single_step.atomic [of 0 Allocate]) simp_all
  then show ?thesis using one_allocator_never_shares by blast
qed

end
