(* ===== verification/Stack.thy ===== *)
theory Stack
  imports Interfaces
begin

text \<open>
  The lock-free stack of \<^verbatim>\<open>stack.c\<close>, as one thread executes it: two linked stacks over one
  preallocated node buffer, their heads tagged with a counter. It is a stack of values bounded
  by the size of the buffer, and each of its two heads is a \<open>cell_pool\<close> of nodes.
\<close>

subsection \<open>State and operations\<close>

record 'v lstack_node =
  n_value :: 'v
  n_next :: cell_ptr

record lstack_head =
  h_aba :: u64
  h_node :: cell_ptr

record 'v lstack =
  l_buffer :: "'v lstack_node list"
  l_head :: lstack_head
  l_free :: lstack_head
  l_size :: u64

fun link_nodes :: "nat \<Rightarrow> nat \<Rightarrow> 'v lstack_node list \<Rightarrow> 'v lstack_node list" where
  "link_nodes 0 i buf = buf"
| "link_nodes (Suc k) i buf = link_nodes k (Suc i) (buf[i := (buf ! i)\<lparr>n_next := Some (Suc i)\<rparr>])"

text \<open>
  \<open>raw\<close> is what \<open>malloc\<close> returns; without memory the result is \<open>ENOMEM\<close> (the inner \<^const>\<open>None\<close>);
  with no nodes at all the code writes outside the buffer.
\<close>

definition lstack_init :: "'v lstack_node list option \<Rightarrow> 'v lstack option option" where
  "lstack_init raw = (case raw of None \<Rightarrow> Some None
     | Some buf \<Rightarrow> if buf = [] then None
         else let n = length buf; buf1 = link_nodes (n - 1) 0 buf in
           Some (Some \<lparr>l_buffer = buf1[n - 1 := (buf1 ! (n - 1))\<lparr>n_next := None\<rparr>],
                 l_head = \<lparr>h_aba = 0, h_node = None\<rparr>, l_free = \<lparr>h_aba = 0, h_node = Some 0\<rparr>,
                 l_size = 0\<rparr>))"

definition node_next :: "nat \<Rightarrow> 'v lstack_node list \<Rightarrow> cell_ptr option" where
  "node_next i buf = (if i < length buf then Some (n_next (buf ! i)) else None)"

definition pop :: "lstack_head \<Rightarrow> 'v lstack_node list \<Rightarrow> (cell_ptr \<times> lstack_head) option" where
  "pop head buf = (case h_node head of None \<Rightarrow> Some (None, head)
     | Some i \<Rightarrow> do { nxt \<leftarrow> node_next i buf;
                     Some (Some i, \<lparr>h_aba = h_aba head + 1, h_node = nxt\<rparr>) })"

definition push :: "nat \<Rightarrow> lstack_head \<Rightarrow> 'v lstack_node list \<Rightarrow> (lstack_head \<times> 'v lstack_node list) option" where
  "push i head buf = (if i < length buf
     then Some (\<lparr>h_aba = h_aba head + 1, h_node = Some i\<rparr>, buf[i := (buf ! i)\<lparr>n_next := h_node head\<rparr>])
     else None)"

text \<open>\<open>ENOMEM\<close> is the result \<open>False\<close>.\<close>

definition lstack_push :: "'v \<Rightarrow> 'v lstack \<Rightarrow> (bool \<times> 'v lstack) option" where
  "lstack_push v s =
     do { (node, free1) \<leftarrow> pop (l_free s) (l_buffer s);
          (case node of None \<Rightarrow> Some (False, s\<lparr>l_free := free1\<rparr>)
           | Some i \<Rightarrow>
              do { (head1, buf) \<leftarrow> push i (l_head s) ((l_buffer s)[i := (l_buffer s ! i)\<lparr>n_value := v\<rparr>]);
                   Some (True, s\<lparr>l_free := free1, l_head := head1, l_buffer := buf,
                                 l_size := l_size s + 1\<rparr>) }) }"

definition lstack_pop :: "'v lstack \<Rightarrow> ('v option \<times> 'v lstack) option" where
  "lstack_pop s =
     do { (node, head1) \<leftarrow> pop (l_head s) (l_buffer s);
          (case node of None \<Rightarrow> Some (None, s\<lparr>l_head := head1\<rparr>)
           | Some i \<Rightarrow>
              do { (free1, buf) \<leftarrow> push i (l_free s) (l_buffer s);
                   Some (Some (n_value (l_buffer s ! i)),
                         s\<lparr>l_head := head1, l_free := free1, l_buffer := buf,
                           l_size := l_size s - 1\<rparr>) }) }"

subsection \<open>Invariant and contents\<close>

definition buf_nexts :: "'v lstack_node list \<Rightarrow> nat \<Rightarrow> cell_ptr" where
  "buf_nexts buf i = n_next (buf ! i)"

definition two_lists :: "'v lstack \<Rightarrow> nat list \<Rightarrow> nat list \<Rightarrow> nat list \<Rightarrow> bool" where
  "two_lists s hs fs out \<longleftrightarrow> chain (buf_nexts (l_buffer s)) (h_node (l_head s)) hs \<and>
     chain (buf_nexts (l_buffer s)) (h_node (l_free s)) fs \<and>
     distinct (hs @ fs @ out) \<and> set (hs @ fs @ out) = {..<length (l_buffer s)}"

text \<open>The stack holds the values \<open>vs\<close>, top first.\<close>

definition holds :: "'v lstack \<Rightarrow> 'v list \<Rightarrow> bool" where
  "holds s vs \<longleftrightarrow> (\<exists>hs fs. two_lists s hs fs [] \<and> vs = map (\<lambda>i. n_value (l_buffer s ! i)) hs \<and>
     l_size s = of_nat (length hs))"

lemma buf_nexts_upd:
  "i < length buf \<Longrightarrow> buf_nexts (buf[i := (buf ! i)\<lparr>n_next := p\<rparr>]) = (buf_nexts buf)(i := p)"
  by (auto simp: buf_nexts_def fun_eq_iff)

lemma buf_nexts_upd_both:
  "i < length buf \<Longrightarrow>
   buf_nexts (buf[i := (buf ! i)\<lparr>n_value := v, n_next := p\<rparr>]) = (buf_nexts buf)(i := p)"
  by (auto simp: buf_nexts_def fun_eq_iff)

lemma buf_nexts_value [simp]:
  "buf_nexts (buf[i := (buf ! i)\<lparr>n_value := v\<rparr>]) = buf_nexts buf"
  by (cases "i < length buf") (auto simp: buf_nexts_def fun_eq_iff nth_list_update list_update_beyond)

lemma link_nodes_length [simp]: "length (link_nodes k i buf) = length buf"
  by (induction k i buf rule: link_nodes.induct) simp_all

lemma link_nodes_nexts:
  "i + k < length buf \<Longrightarrow>
   buf_nexts (link_nodes k i buf) = (\<lambda>j. if i \<le> j \<and> j < i + k then Some (Suc j) else buf_nexts buf j)"
proof (induction k i buf rule: link_nodes.induct)
  case (1 i buf)
  then show ?case by (auto simp: fun_eq_iff)
next
  case (2 k i buf)
  then show ?case by (auto simp: buf_nexts_upd fun_eq_iff)
qed

lemma init_two_lists:
  assumes "buf \<noteq> []"
  obtains s where "lstack_init (Some buf) = Some (Some s)" "two_lists s [] [0..<length buf] []" "l_size s = 0"
    "length (l_buffer s) = length buf"
proof -
  let ?n = "length buf" and ?b = "link_nodes (length buf - 1) 0 buf"
  let ?s = "\<lparr>l_buffer = ?b[?n - 1 := (?b ! (?n - 1))\<lparr>n_next := None\<rparr>],
    l_head = \<lparr>h_aba = 0, h_node = None\<rparr>, l_free = \<lparr>h_aba = 0, h_node = Some 0\<rparr>, l_size = 0\<rparr>"
  have n: "?n - 1 < length ?b" "0 + (?n - 1) < length buf" using assms by simp_all
  have h: "buf_nexts (l_buffer ?s) = (buf_nexts ?b)(?n - 1 := None)"
    using n(1) by (simp add: buf_nexts_upd)
  have "chain (buf_nexts (l_buffer ?s)) (Some j) [j..<?n]" if "j < ?n" for j
    using that
  proof (induction "?n - 1 - j" arbitrary: j)
    case 0
    then have "j = ?n - 1" by simp
    moreover have "[?n - 1..<?n] = [?n - 1]" using assms by (simp add: upt_rec)
    ultimately show ?case unfolding h by simp
  next
    case (Suc m)
    then have j: "Suc j < ?n" by simp
    then have "[j..<?n] = j # [Suc j..<?n]" by (simp add: upt_conv_Cons)
    moreover have "buf_nexts (l_buffer ?s) j = Some (Suc j)"
    proof -
      have "j < ?n - 1" using j by linarith
      then show ?thesis unfolding h link_nodes_nexts [OF n(2)] by simp
    qed
    moreover have "chain (buf_nexts (l_buffer ?s)) (Some (Suc j)) [Suc j..<?n]"
      using Suc(2) j by (intro Suc(1)) simp_all
    ultimately show ?case by simp
  qed
  from this [of 0] have "two_lists ?s [] [0..<?n] []"
    using assms by (simp add: two_lists_def atLeast0LessThan)
  then show thesis
    using assms by (intro that [of ?s]) (simp_all add: lstack_init_def Let_def)
qed

subsection \<open>A stack of values\<close>

lemma push_holds:
  assumes "two_lists s hs fs []" and "l_size s = of_nat (length hs)"
  shows "\<exists>ok s'. lstack_push v s = Some (ok, s') \<and> length (l_buffer s') = length (l_buffer s) \<and>
    ok = (fs \<noteq> []) \<and>
    holds s' (if ok then v # map (\<lambda>i. n_value (l_buffer s ! i)) hs else map (\<lambda>i. n_value (l_buffer s ! i)) hs)"
proof (cases fs)
  case Nil
  then have "h_node (l_free s) = None" using assms(1) by (simp add: two_lists_def)
  moreover have "holds s (map (\<lambda>i. n_value (l_buffer s ! i)) hs)"
    using assms unfolding holds_def by blast
  ultimately show ?thesis
    using Nil by (intro exI [of _ False] exI [of _ s]) (simp add: lstack_push_def pop_def)
next
  case (Cons a gs)
  let ?b1 = "(l_buffer s)[a := (l_buffer s ! a)\<lparr>n_value := v\<rparr>]"
  let ?b2 = "?b1[a := (?b1 ! a)\<lparr>n_next := h_node (l_head s)\<rparr>]"
  let ?s' = "s\<lparr>l_free := \<lparr>h_aba = h_aba (l_free s) + 1, h_node = buf_nexts (l_buffer s) a\<rparr>,
    l_head := \<lparr>h_aba = h_aba (l_head s) + 1, h_node = Some a\<rparr>, l_buffer := ?b2,
    l_size := l_size s + 1\<rparr>"
  have a: "a < length (l_buffer s)" "h_node (l_free s) = Some a" "a \<notin> set hs" "a \<notin> set gs"
    using assms(1) Cons by (auto simp: two_lists_def)
  have "two_lists ?s' (a # hs) gs []"
    using assms(1) a Cons by (auto simp: two_lists_def buf_nexts_upd_both)
  moreover have "map (\<lambda>i. n_value (?b2 ! i)) (a # hs) = v # map (\<lambda>i. n_value (l_buffer s ! i)) hs"
    using a by (auto simp: nth_list_update)
  ultimately have "holds ?s' (v # map (\<lambda>i. n_value (l_buffer s ! i)) hs)"
    using assms(2) unfolding holds_def by (intro exI [of _ "a # hs"] exI [of _ gs]) simp
  moreover have "lstack_push v s = Some (True, ?s')"
    using a by (simp add: lstack_push_def pop_def push_def node_next_def buf_nexts_def)
  ultimately show ?thesis
    using Cons by (intro exI [of _ True] exI [of _ ?s']) simp
qed

lemma pop_holds:
  assumes "two_lists s hs fs []" and "l_size s = of_nat (length hs)"
  shows "\<exists>r s'. lstack_pop s = Some (r, s') \<and> length (l_buffer s') = length (l_buffer s) \<and>
    (case map (\<lambda>i. n_value (l_buffer s ! i)) hs of [] \<Rightarrow> r = None \<and> holds s' []
     | v # vs \<Rightarrow> r = Some v \<and> holds s' vs)"
proof (cases hs)
  case Nil
  then have "h_node (l_head s) = None" using assms(1) by (simp add: two_lists_def)
  moreover have "holds s []" using assms Nil unfolding holds_def by force
  ultimately show ?thesis using Nil by (simp add: lstack_pop_def pop_def)
next
  case (Cons a gs)
  let ?b2 = "(l_buffer s)[a := (l_buffer s ! a)\<lparr>n_next := h_node (l_free s)\<rparr>]"
  let ?s' = "s\<lparr>l_head := \<lparr>h_aba = h_aba (l_head s) + 1, h_node = buf_nexts (l_buffer s) a\<rparr>,
    l_free := \<lparr>h_aba = h_aba (l_free s) + 1, h_node = Some a\<rparr>, l_buffer := ?b2,
    l_size := l_size s - 1\<rparr>"
  have a: "a < length (l_buffer s)" "h_node (l_head s) = Some a" "a \<notin> set fs" "a \<notin> set gs"
    using assms(1) Cons by (auto simp: two_lists_def)
  have "two_lists ?s' gs (a # fs) []"
    using assms(1) a Cons by (auto simp: two_lists_def buf_nexts_upd)
  moreover have "map (\<lambda>i. n_value (?b2 ! i)) gs = map (\<lambda>i. n_value (l_buffer s ! i)) gs"
    using a by (auto simp: nth_list_update)
  ultimately have "holds ?s' (map (\<lambda>i. n_value (l_buffer s ! i)) gs)"
    using assms(2) Cons unfolding holds_def by (intro exI [of _ gs] exI [of _ "a # fs"]) simp
  moreover have "lstack_pop s = Some (Some (n_value (l_buffer s ! a)), ?s')"
    using a by (simp add: lstack_pop_def pop_def push_def node_next_def buf_nexts_def)
  ultimately show ?thesis using Cons by simp
qed

lemma two_lists_count: "two_lists s hs fs [] \<Longrightarrow> length hs + length fs = length (l_buffer s)"
  unfolding two_lists_def by (metis append_Nil2 card_lessThan distinct_card length_append)

text \<open>
  C29: the stack is a bounded stack of values. Pushing succeeds exactly while a node is left and
  puts the value on top, or reports \<open>ENOMEM\<close> and changes nothing; popping takes the value pushed
  last, or reports an empty stack. The size is the number of values held.
\<close>

theorem lstack_is_a_bounded_stack:
  assumes "holds s vs"
  shows "(\<exists>ok s1. lstack_push v s = Some (ok, s1) \<and> length (l_buffer s1) = length (l_buffer s) \<and>
      ok = (length vs < length (l_buffer s)) \<and> holds s1 (if ok then v # vs else vs)) \<and>
    (\<exists>r s2. lstack_pop s = Some (r, s2) \<and> length (l_buffer s2) = length (l_buffer s) \<and>
      (case vs of [] \<Rightarrow> r = None \<and> holds s2 [] | w # ws \<Rightarrow> r = Some w \<and> holds s2 ws)) \<and>
    l_size s = of_nat (length vs)"
proof -
  obtain hs fs where h: "two_lists s hs fs []" "vs = map (\<lambda>i. n_value (l_buffer s ! i)) hs"
    "l_size s = of_nat (length hs)"
    using assms by (auto simp: holds_def)
  have "fs \<noteq> [] \<longleftrightarrow> length vs < length (l_buffer s)"
    using two_lists_count [OF h(1)] h(2) by (cases fs) auto
  with push_holds [OF h(1,3), of v] pop_holds [OF h(1,3)] show ?thesis
    by (simp only: h(2) [symmetric]) (simp add: h)
qed

definition ex_nodes :: "nat lstack_node list" where
  "ex_nodes = replicate 2 \<lparr>n_value = 0, n_next = None\<rparr>"

text \<open>
  Initialising the stack on \<open>n > 0\<close> nodes gives the empty stack with all \<open>n\<close> nodes free.
\<close>

theorem lstack_init_empty:
  assumes "buf \<noteq> []"
  shows "\<exists>s. lstack_init (Some buf) = Some (Some s) \<and> holds s [] \<and> length (l_buffer s) = length buf"
proof -
  obtain s where s: "lstack_init (Some buf) = Some (Some s)" "two_lists s [] [0..<length buf] []"
    "l_size s = 0" "length (l_buffer s) = length buf"
    by (rule init_two_lists [OF assms])
  then have "holds s []" unfolding holds_def by (intro exI [of _ "[]"] exI) auto
  with s show ?thesis by blast
qed

theorem lstack_init_empty_witness:
  "\<exists>s. lstack_init (Some ex_nodes) = Some (Some s) \<and> holds s [] \<and> length (l_buffer s) = length ex_nodes"
  by (rule lstack_init_empty) (simp add: ex_nodes_def)

theorem lstack_is_a_bounded_stack_witness:
  "\<exists>s. lstack_init (Some ex_nodes) = Some (Some s) \<and>
    (\<exists>ok s1. lstack_push 5 s = Some (ok, s1) \<and> ok = (0 < length (l_buffer s)) \<and>
      holds s1 (if ok then [5] else []))"
proof -
  obtain s where s: "lstack_init (Some ex_nodes) = Some (Some s)" "two_lists s [] [0..<length ex_nodes] []"
    "l_size s = 0"
    by (rule init_two_lists [of ex_nodes]) (simp add: ex_nodes_def)
  then have "holds s []" unfolding holds_def by (intro exI [of _ "[]"] exI) auto
  from lstack_is_a_bounded_stack [OF this, of 5] s(1) show ?thesis by auto
qed

subsection \<open>Each head is a pool of nodes\<close>

type_synonym 'v node_pool = "lstack_head \<times> 'v lstack_node list"

definition pool_nodes :: "'v node_pool \<Rightarrow> nat list" where
  "pool_nodes s = walk (length (snd s)) (buf_nexts (snd s)) (h_node (fst s))"

definition pool_inv :: "'v node_pool \<Rightarrow> bool" where
  "pool_inv s \<longleftrightarrow> chain (buf_nexts (snd s)) (h_node (fst s)) (pool_nodes s) \<and>
     set (pool_nodes s) \<subseteq> {..<length (snd s)}"

definition pool_rest :: "'v node_pool \<Rightarrow> nat set" where
  "pool_rest s = {..<length (snd s)} - set (pool_nodes s)"

definition pop_node :: "'v node_pool \<Rightarrow> (cell_ptr \<times> 'v node_pool) option" where
  "pop_node s = map_option (\<lambda>(p, h). (p, (h, snd s))) (pop (fst s) (snd s))"

definition push_node :: "nat \<Rightarrow> 'v node_pool \<Rightarrow> 'v node_pool option" where
  "push_node i s = push i (fst s) (snd s)"

lemma pool_nodesI:
  assumes "chain (buf_nexts buf) (h_node h) xs" and "set xs \<subseteq> {..<length buf}"
  shows "pool_nodes (h, buf) = xs" "pool_inv (h, buf)"
proof -
  have "length xs = card (set xs)" using chain_distinct [OF assms(1)] by (simp add: distinct_card)
  also have "\<dots> \<le> length buf" using card_mono [OF finite_lessThan assms(2)] by simp
  finally show n: "pool_nodes (h, buf) = xs" by (simp add: pool_nodes_def walk_chain [OF assms(1)])
  show "pool_inv (h, buf)" using assms n by (simp add: pool_inv_def)
qed

interpretation stack_pool: cell_pool pool_inv pool_nodes pop_node push_node pool_rest
proof
  fix s :: "'v node_pool"
  assume i: "pool_inv s"
  obtain h buf where s: "s = (h, buf)" by (cases s)
  let ?xs = "pool_nodes s"
  have c: "chain (buf_nexts buf) (h_node h) ?xs" "set ?xs \<subseteq> {..<length buf}"
    using i by (simp_all add: pool_inv_def s)
  show "distinct ?xs" using c(1) by (rule chain_distinct)
  show "set ?xs \<inter> pool_rest s = {}" by (auto simp: pool_rest_def)
  show "pop_node s = Some (None, s)" if "?xs = []"
    using c(1) that by (simp add: pop_node_def pop_def s)
  show "\<exists>s'. pop_node s = Some (Some a, s') \<and> pool_inv s' \<and> pool_nodes s' = as \<and>
      pool_rest s' = insert a (pool_rest s)" if xs: "?xs = a # as" for a as
  proof -
    let ?h = "\<lparr>h_aba = h_aba h + 1, h_node = buf_nexts buf a\<rparr>"
    have a: "h_node h = Some a" "a < length buf" "a \<notin> set as"
      using c xs chain_distinct [OF c(1)] by auto
    note n = pool_nodesI [of buf ?h as]
    have "pop_node s = Some (Some a, (?h, buf))"
      using a by (simp add: pop_node_def pop_def node_next_def buf_nexts_def s)
    moreover have "pool_rest (?h, buf) = insert a (pool_rest s)"
      using n(1) c xs a by (auto simp: pool_rest_def s)
    ultimately show ?thesis using n c xs by auto
  qed
  show "\<exists>s'. push_node a s = Some s' \<and> pool_inv s' \<and> pool_nodes s' = a # ?xs \<and>
      pool_rest s' = pool_rest s - {a}" if "a \<in> pool_rest s" for a
  proof -
    let ?h = "\<lparr>h_aba = h_aba h + 1, h_node = Some a\<rparr>"
    let ?buf = "buf[a := (buf ! a)\<lparr>n_next := h_node h\<rparr>]"
    have a: "a < length buf" "a \<notin> set ?xs" using that by (auto simp: pool_rest_def s)
    have "chain (buf_nexts ?buf) (h_node ?h) (a # ?xs)" using a c(1) by (simp add: buf_nexts_upd)
    moreover have "set (a # ?xs) \<subseteq> {..<length ?buf}" using a c(2) by simp
    ultimately have n: "pool_nodes (?h, ?buf) = a # ?xs" "pool_inv (?h, ?buf)"
      by (rule pool_nodesI)+
    have "push_node a s = Some (?h, ?buf)" using a by (simp add: push_node_def push_def s)
    with n a show ?thesis by (auto simp: pool_rest_def s)
  qed
qed

end
