(* ===== verification/Tagged_Stack.thy ===== *)
theory Tagged_Stack
  imports Stack
begin

text \<open>
  \<^verbatim>\<open>stack.c\<close> under any number of threads: \<open>pop\<close> and \<open>push\<close> cut into their atomic steps on the
  two tagged heads. Every successful compare-and-swap increments the 64-bit tag, so a thread
  that was preempted cannot mistake a changed head for the one it read, as long as fewer than
  \<open>2 ^ 64\<close> swaps happen. Then no node is ever in two hands, nor lost.
\<close>

subsection \<open>State and steps\<close>

text \<open>The two heads of an \<open>lstack_t\<close>.\<close>

datatype which = Head | FreeHead

text \<open>
  The position of a thread, with its local \<open>orig\<close> (tag and node) and \<open>next.node\<close>. The last
  component is the number of swaps the head had seen when \<open>orig\<close> was read; no step looks at it.
\<close>

datatype lpc =
  Ready
| Pop_Orig which u64 nat nat
| Pop_Next which u64 nat cell_ptr nat
| Push_Orig which nat u64 cell_ptr nat
| Push_Linked which nat u64 cell_ptr nat

record lconc =
  l_heads :: "which \<Rightarrow> lstack_head"
  l_swaps :: "which \<Rightarrow> nat"  \<comment> \<open>successful swaps so far\<close>
  l_next :: "nat \<Rightarrow> cell_ptr"
  l_pcs :: "nat \<Rightarrow> lpc"
  l_held :: "nat \<Rightarrow> nat set" \<comment> \<open>the nodes a thread has popped and not pushed back\<close>

definition goto :: "nat \<Rightarrow> lpc \<Rightarrow> lconc \<Rightarrow> lconc" where
  "goto t pc s = s\<lparr>l_pcs := (l_pcs s)(t := pc)\<rparr>"

text \<open>A successful compare-and-swap of head \<open>w\<close>.\<close>

definition swap_in :: "which \<Rightarrow> cell_ptr \<Rightarrow> lconc \<Rightarrow> lconc" where
  "swap_in w p s = s\<lparr>l_heads := (l_heads s)(w := \<lparr>h_aba = h_aba (l_heads s w) + 1, h_node = p\<rparr>),
                     l_swaps := (l_swaps s)(w := l_swaps s w + 1)\<rparr>"

text \<open>Reading the head into \<open>orig\<close> at the start of \<open>pop\<close>, or by a failed (or spurious) swap in it.\<close>

definition pop_orig :: "nat \<Rightarrow> which \<Rightarrow> lconc \<Rightarrow> lconc" where
  "pop_orig t w s = goto t (case h_node (l_heads s w) of None \<Rightarrow> Ready
     | Some a \<Rightarrow> Pop_Orig w (h_aba (l_heads s w)) a (l_swaps s w)) s"

definition push_orig :: "nat \<Rightarrow> which \<Rightarrow> nat \<Rightarrow> lconc \<Rightarrow> lconc" where
  "push_orig t w a s = goto t (Push_Orig w a (h_aba (l_heads s w)) (h_node (l_heads s w)) (l_swaps s w)) s"

inductive lstep :: "lconc \<Rightarrow> lconc \<Rightarrow> bool" where
  pop_load: "l_pcs s t = Ready \<Longrightarrow> lstep s (pop_orig t w s)"
| pop_next: "l_pcs s t = Pop_Orig w tag a g \<Longrightarrow> lstep s (goto t (Pop_Next w tag a (l_next s a) g) s)"
| pop_cas: "l_pcs s t = Pop_Next w tag a nxt g \<Longrightarrow> l_heads s w = \<lparr>h_aba = tag, h_node = Some a\<rparr> \<Longrightarrow>
    lstep s (goto t Ready ((swap_in w nxt s)\<lparr>l_held := (l_held s)(t := insert a (l_held s t))\<rparr>))"
| pop_retry: "l_pcs s t = Pop_Next w tag a nxt g \<Longrightarrow> lstep s (pop_orig t w s)"
| push_load: "l_pcs s t = Ready \<Longrightarrow> a \<in> l_held s t \<Longrightarrow> lstep s (push_orig t w a s)"
| push_link: "l_pcs s t = Push_Orig w a tag p g \<Longrightarrow>
    lstep s (goto t (Push_Linked w a tag p g) (s\<lparr>l_next := (l_next s)(a := p)\<rparr>))"
| push_cas: "l_pcs s t = Push_Linked w a tag p g \<Longrightarrow> l_heads s w = \<lparr>h_aba = tag, h_node = p\<rparr> \<Longrightarrow>
    lstep s (goto t Ready ((swap_in w (Some a) s)\<lparr>l_held := (l_held s)(t := l_held s t - {a})\<rparr>))"
| push_retry: "l_pcs s t = Push_Linked w a tag p g \<Longrightarrow> lstep s (push_orig t w a s)"

inductive_cases lstepE: "lstep s s'"

text \<open>Initially all \<open>n\<close> nodes are on the free stack.\<close>

definition linit :: "nat \<Rightarrow> lconc" where
  "linit n = \<lparr>l_heads = (\<lambda>w. \<lparr>h_aba = 0, h_node = (if w = FreeHead \<and> 0 < n then Some 0 else None)\<rparr>),
     l_swaps = (\<lambda>w. 0), l_next = (\<lambda>i. if Suc i < n then Some (Suc i) else None),
     l_pcs = (\<lambda>t. Ready), l_held = (\<lambda>t. {})\<rparr>"

inductive lreach :: "nat \<Rightarrow> lconc \<Rightarrow> bool" for n where
  start: "lreach n (linit n)"
| step: "lreach n s \<Longrightarrow> lstep s s' \<Longrightarrow> lreach n s'"

subsection \<open>The invariant\<close>

text \<open>What a thread has read is still true while its head has not been swapped.\<close>

fun pc_ok :: "lconc \<Rightarrow> nat \<Rightarrow> lpc \<Rightarrow> bool" where
  "pc_ok s t Ready \<longleftrightarrow> True"
| "pc_ok s t (Pop_Orig w tag a g) \<longleftrightarrow> tag = of_nat g \<and> g \<le> l_swaps s w \<and>
     (g = l_swaps s w \<longrightarrow> h_node (l_heads s w) = Some a)"
| "pc_ok s t (Pop_Next w tag a nxt g) \<longleftrightarrow> tag = of_nat g \<and> g \<le> l_swaps s w \<and>
     (g = l_swaps s w \<longrightarrow> h_node (l_heads s w) = Some a \<and> l_next s a = nxt)"
| "pc_ok s t (Push_Orig w a tag p g) \<longleftrightarrow> a \<in> l_held s t \<and> tag = of_nat g \<and> g \<le> l_swaps s w \<and>
     (g = l_swaps s w \<longrightarrow> h_node (l_heads s w) = p)"
| "pc_ok s t (Push_Linked w a tag p g) \<longleftrightarrow> a \<in> l_held s t \<and> l_next s a = p \<and>
     tag = of_nat g \<and> g \<le> l_swaps s w \<and> (g = l_swaps s w \<longrightarrow> h_node (l_heads s w) = p)"

definition linv :: "nat \<Rightarrow> lconc \<Rightarrow> (which \<Rightarrow> nat list) \<Rightarrow> bool" where
  "linv n s L \<longleftrightarrow>
     (\<forall>w. chain (l_next s) (h_node (l_heads s w)) (L w) \<and> h_aba (l_heads s w) = of_nat (l_swaps s w)) \<and>
     set (L Head) \<inter> set (L FreeHead) = {} \<and>
     (\<forall>t w. l_held s t \<inter> set (L w) = {}) \<and> (\<forall>t u. t \<noteq> u \<longrightarrow> l_held s t \<inter> l_held s u = {}) \<and>
     (\<Union>w. set (L w)) \<union> (\<Union>t. l_held s t) = {..<n} \<and>
     (\<forall>t. pc_ok s t (l_pcs s t))"

lemma linvD:
  assumes "linv n s L"
  shows "chain (l_next s) (h_node (l_heads s w)) (L w)" "h_aba (l_heads s w) = of_nat (l_swaps s w)"
    "w \<noteq> v \<Longrightarrow> set (L w) \<inter> set (L v) = {}" "l_held s t \<inter> set (L w) = {}"
    "t \<noteq> u \<Longrightarrow> l_held s t \<inter> l_held s u = {}" "pc_ok s t (l_pcs s t)"
    "(\<Union>w. set (L w)) \<union> (\<Union>t. l_held s t) = {..<n}"
  using assms by (cases w; cases v; auto simp: linv_def)+

lemma linvI:
  assumes "\<And>w. chain (l_next s) (h_node (l_heads s w)) (L w)"
    and "\<And>w. h_aba (l_heads s w) = of_nat (l_swaps s w)"
    and "set (L Head) \<inter> set (L FreeHead) = {}"
    and "\<And>t w. l_held s t \<inter> set (L w) = {}" and "\<And>t u. t \<noteq> u \<Longrightarrow> l_held s t \<inter> l_held s u = {}"
    and "(\<Union>w. set (L w)) \<union> (\<Union>t. l_held s t) = {..<n}" and "\<And>t. pc_ok s t (l_pcs s t)"
  shows "linv n s L"
  using assms by (auto simp: linv_def)

lemma goto_fields [simp]:
  "l_heads (goto t pc s) = l_heads s" "l_swaps (goto t pc s) = l_swaps s"
  "l_next (goto t pc s) = l_next s" "l_held (goto t pc s) = l_held s"
  "l_pcs (goto t pc s) = (l_pcs s)(t := pc)"
  by (simp_all add: goto_def)

lemma swap_in_fields [simp]:
  "l_heads (swap_in w p s) = (l_heads s)(w := \<lparr>h_aba = h_aba (l_heads s w) + 1, h_node = p\<rparr>)"
  "l_swaps (swap_in w p s) = (l_swaps s)(w := l_swaps s w + 1)"
  "l_next (swap_in w p s) = l_next s" "l_held (swap_in w p s) = l_held s"
  "l_pcs (swap_in w p s) = l_pcs s"
  by (simp_all add: swap_in_def)

text \<open>What one thread knows survives the steps of the others.\<close>

lemma pc_ok_swap:
  assumes "pc_ok s u p" and "l_held s u \<subseteq> l_held s' u" and "l_next s' = l_next s"
    and "l_heads s' = (l_heads s)(w := h)" and "l_swaps s' = (l_swaps s)(w := l_swaps s w + 1)"
  shows "pc_ok s' u p"
  using assms by (cases p) auto

lemma pc_ok_link:
  assumes "linv n s L" and "pc_ok s u p" and "a \<in> l_held s t" and "t \<noteq> u"
    and "l_heads s' = l_heads s" "l_swaps s' = l_swaps s" "l_held s' = l_held s"
    and "l_next s' = (l_next s)(a := q)"
  shows "pc_ok s' u p"
proof (cases p)
  case (Pop_Next w tag b nxt g)
  have "b \<noteq> a" if "h_node (l_heads s w) = Some b"
  proof -
    have "b \<in> set (L w)" using linvD(1) [OF assms(1), of w] that by (auto simp: chain_Some)
    then show ?thesis using assms(3) linvD(4) [OF assms(1), of t w] by auto
  qed
  then show ?thesis using assms Pop_Next by auto
next
  case (Push_Linked w b tag r g)
  then have "b \<in> l_held s u" using assms(2) by simp
  then have "b \<noteq> a" using assms(3,4) linvD(5) [OF assms(1,4)] by auto
  then show ?thesis using assms Push_Linked by auto
qed (use assms in auto)

lemma pc_ok_cong:
  "l_heads s' = l_heads s \<Longrightarrow> l_swaps s' = l_swaps s \<Longrightarrow> l_next s' = l_next s \<Longrightarrow> l_held s' = l_held s \<Longrightarrow>
   pc_ok s' u p = pc_ok s u p"
  by (cases p) simp_all

lemma linv_goto:
  assumes "linv n s L" and "pc_ok s t pc"
  shows "linv n (goto t pc s) L"
proof (rule linvI)
  show "pc_ok (goto t pc s) u (l_pcs (goto t pc s) u)" for u
    using assms(2) linvD(6) [OF assms(1), of u] pc_ok_cong [of "goto t pc s" s] by simp
qed (use linvD [OF assms(1)] in simp_all)

subsection \<open>Every step keeps it\<close>

lemma linv_pop_orig:
  assumes "linv n s L"
  shows "linv n (pop_orig t w s) L"
  unfolding pop_orig_def using linvD(2) [OF assms, of w]
  by (intro linv_goto [OF assms]) (auto split: option.split)

lemma linv_push_orig:
  assumes "linv n s L" and "a \<in> l_held s t"
  shows "linv n (push_orig t w a s) L"
  unfolding push_orig_def using assms linvD(2) [OF assms(1), of w] by (intro linv_goto) simp_all

lemma tag_determines:
  assumes "linv n s L" and "h_aba (l_heads s w) = of_nat g" and "g \<le> l_swaps s w" and "l_swaps s w < 2 ^ 64"
  shows "g = l_swaps s w"
proof -
  have "(of_nat g :: u64) = of_nat (l_swaps s w)" using assms(2) linvD(2) [OF assms(1), of w] by simp
  moreover have "g < 2 ^ 64" using assms(3,4) by (rule le_less_trans)
  moreover have "unat (of_nat x :: u64) = x" if "x < 2 ^ 64" for x using that by (simp add: unat_of_nat)
  ultimately show ?thesis using assms(4) by metis
qed

lemma linv_pop_cas:
  assumes inv: "linv n s L" and pc: "l_pcs s t = Pop_Next w tag a nxt g"
    and cas: "l_heads s w = \<lparr>h_aba = tag, h_node = Some a\<rparr>" and bound: "l_swaps s w < 2 ^ 64"
  shows "linv n (goto t Ready ((swap_in w nxt s)\<lparr>l_held := (l_held s)(t := insert a (l_held s t))\<rparr>))
           (L(w := tl (L w)))" (is "linv n ?s' ?L")
proof -
  have k: "tag = of_nat g" "g \<le> l_swaps s w" "g = l_swaps s w \<longrightarrow> l_next s a = nxt"
    using linvD(6) [OF inv, of t] pc by simp_all
  have "g = l_swaps s w" using cas k by (intro tag_determines [OF inv _ k(2) bound]) simp
  then have nxt: "l_next s a = nxt" using k(3) by simp
  obtain xs where L: "L w = a # xs" "chain (l_next s) nxt xs"
    using linvD(1) [OF inv, of w] cas nxt by (auto simp: chain_Some)
  have d: "a \<notin> set xs" using chain_distinct [OF linvD(1) [OF inv, of w]] L(1) by simp
  have sub: "set (?L v) \<subseteq> set (L v)" for v using L(1) by auto
  have a: "a \<notin> set (?L v)" for v using d L(1) linvD(3) [OF inv, of w v] by auto
  have h: "a \<notin> l_held s u" for u using linvD(4) [OF inv, of u w] L(1) by auto
  show ?thesis
  proof (rule linvI)
    show "chain (l_next ?s') (h_node (l_heads ?s' v)) (?L v)" for v
      using L linvD(1) [OF inv, of v] by simp
    show "h_aba (l_heads ?s' v) = of_nat (l_swaps ?s' v)" for v
      using linvD(2) [OF inv, of v] linvD(2) [OF inv, of w] by simp
    show "set (?L Head) \<inter> set (?L FreeHead) = {}"
      using linvD(3) [OF inv, of Head FreeHead] sub [of Head] sub [of FreeHead] by auto
    show "l_held ?s' u \<inter> set (?L v) = {}" for u v
      using linvD(4) [OF inv, of u v] sub [of v] a [of v] by auto
    show "l_held ?s' u \<inter> l_held ?s' v = {}" if "u \<noteq> v" for u v
      using linvD(5) [OF inv that] h [of u] h [of v] that by auto
    have "x \<in> set (L v) \<Longrightarrow> x = a \<or> x \<in> set (?L v)" for x v using L(1) by auto
    moreover have "a \<in> set (L w)" using L(1) by simp
    ultimately have "(\<Union>v. set (L v)) = insert a (\<Union>v. set (?L v))" using sub by blast
    moreover have "(\<Union>u. l_held ?s' u) = insert a (\<Union>u. l_held s u)" by (auto split: if_splits)
    ultimately show "(\<Union>v. set (?L v)) \<union> (\<Union>u. l_held ?s' u) = {..<n}"
      using linvD(7) [OF inv] by auto
    show "pc_ok ?s' u (l_pcs ?s' u)" for u
      using linvD(6) [OF inv, of u] by (auto intro!: pc_ok_swap [where s = s and w = w])
  qed
qed

lemma linv_push_link:
  assumes inv: "linv n s L" and pc: "l_pcs s t = Push_Orig w a tag p g"
  shows "linv n (goto t (Push_Linked w a tag p g) (s\<lparr>l_next := (l_next s)(a := p)\<rparr>)) L" (is "linv n ?s' L")
proof -
  have k: "a \<in> l_held s t" "pc_ok s t (Push_Orig w a tag p g)" using linvD(6) [OF inv, of t] pc by simp_all
  have a: "a \<notin> set (L v)" for v using linvD(4) [OF inv, of t v] k(1) by auto
  show ?thesis
  proof (rule linvI)
    show "chain (l_next ?s') (h_node (l_heads ?s' v)) (L v)" for v
      using linvD(1) [OF inv, of v] a by simp
    show "pc_ok ?s' u (l_pcs ?s' u)" for u
    proof (cases "u = t")
      case True
      then show ?thesis using k by simp
    next
      case False
      then show ?thesis
        using pc_ok_link [OF inv linvD(6) [OF inv] k(1), of u ?s' p] by simp
    qed
  qed (use linvD [OF inv] in simp_all)
qed

lemma linv_push_cas:
  assumes inv: "linv n s L" and pc: "l_pcs s t = Push_Linked w a tag p g"
    and cas: "l_heads s w = \<lparr>h_aba = tag, h_node = p\<rparr>"
  shows "linv n (goto t Ready ((swap_in w (Some a) s)\<lparr>l_held := (l_held s)(t := l_held s t - {a})\<rparr>))
           (L(w := a # L w))" (is "linv n ?s' ?L")
proof -
  have k: "a \<in> l_held s t" "l_next s a = p" using linvD(6) [OF inv, of t] pc by simp_all
  have a: "a \<notin> set (L v)" for v using linvD(4) [OF inv, of t v] k(1) by auto
  have h: "a \<notin> l_held s u" if "u \<noteq> t" for u using linvD(5) [OF inv that] k(1) by auto
  show ?thesis
  proof (rule linvI)
    show "chain (l_next ?s') (h_node (l_heads ?s' v)) (?L v)" for v
      using linvD(1) [OF inv, of v] k(2) cas by auto
    show "h_aba (l_heads ?s' v) = of_nat (l_swaps ?s' v)" for v
      using linvD(2) [OF inv, of v] linvD(2) [OF inv, of w] by simp
    show "set (?L Head) \<inter> set (?L FreeHead) = {}"
      using linvD(3) [OF inv, of Head FreeHead] a by (cases w) auto
    show "l_held ?s' u \<inter> set (?L v) = {}" for u v
      using linvD(4) [OF inv, of u v] h [of u] by auto
    show "l_held ?s' u \<inter> l_held ?s' v = {}" if "u \<noteq> v" for u v
      using linvD(5) [OF inv that] by auto
    have "(\<Union>v. set (?L v)) = insert a (\<Union>v. set (L v))" by (auto split: if_splits)
    moreover have "insert a (\<Union>u. l_held ?s' u) = (\<Union>u. l_held s u)" using k(1) by (auto split: if_splits)
    moreover have "a < n" using linvD(7) [OF inv] k(1) by auto
    ultimately show "(\<Union>v. set (?L v)) \<union> (\<Union>u. l_held ?s' u) = {..<n}"
      using linvD(7) [OF inv] by auto
    show "pc_ok ?s' u (l_pcs ?s' u)" for u
      using linvD(6) [OF inv, of u]
      by (cases "u = t") (auto intro!: pc_ok_swap [where s = s and w = w])
  qed
qed

lemma linv_step:
  assumes "lstep s s'" and "linv n s L" and "\<forall>w. l_swaps s w < 2 ^ 64"
  shows "\<exists>L'. linv n s' L'"
  using assms(1)
proof (cases rule: lstep.cases)
  case (pop_load t w)
  then show ?thesis using linv_pop_orig [OF assms(2)] by blast
next
  case (pop_next t w tag a g)
  moreover have "pc_ok s t (Pop_Next w tag a (l_next s a) g)"
    using linvD(6) [OF assms(2), of t] pop_next(2) by simp
  ultimately show ?thesis using linv_goto [OF assms(2)] by blast
next
  case (pop_cas t w tag a nxt g)
  then show ?thesis using linv_pop_cas [OF assms(2)] assms(3) by blast
next
  case (pop_retry t w tag a nxt g)
  then show ?thesis using linv_pop_orig [OF assms(2)] by blast
next
  case (push_load t a w)
  then show ?thesis using linv_push_orig [OF assms(2)] by blast
next
  case (push_link t w a tag p g)
  then show ?thesis using linv_push_link [OF assms(2)] by blast
next
  case (push_cas t w a tag p g)
  then show ?thesis using linv_push_cas [OF assms(2)] by blast
next
  case (push_retry t w a tag p g)
  moreover have "a \<in> l_held s t" using linvD(6) [OF assms(2), of t] push_retry(2) by simp
  ultimately show ?thesis using linv_push_orig [OF assms(2)] by blast
qed

subsection \<open>Mutual exclusion\<close>

lemma linv_init: "linv n (linit n) (\<lambda>w. if w = FreeHead then [0..<n] else [])"
proof (rule linvI)
  have "chain (\<lambda>i. if Suc i < n then Some (Suc i) else None) (if j < n then Some j else None) [j..<n]" for j
  proof (induction "n - j" arbitrary: j)
    case 0
    then show ?case by simp
  next
    case (Suc m)
    then have "j < n" "[j..<n] = j # [Suc j..<n]" by (simp_all add: upt_conv_Cons)
    then show ?case using Suc(1) [of "Suc j"] Suc(2) by simp
  qed
  from this [of 0] show "chain (l_next (linit n)) (h_node (l_heads (linit n) w))
      (if w = FreeHead then [0..<n] else [])" for w
    by (simp add: linit_def)
  show "(\<Union>w. set (if w = FreeHead then [0..<n] else [])) \<union> (\<Union>t. l_held (linit n) t) = {..<n}"
    by (auto simp: linit_def)
qed (simp_all add: linit_def)

lemma swaps_mono: "lstep s s' \<Longrightarrow> l_swaps s w \<le> l_swaps s' w"
  by (erule lstepE) (auto simp: pop_orig_def push_orig_def)

lemma lreach_linv: "lreach n s \<Longrightarrow> \<forall>w. l_swaps s w < 2 ^ 64 \<Longrightarrow> \<exists>L. linv n s L"
proof (induction rule: lreach.induct)
  case start
  then show ?case using linv_init by blast
next
  case (step s s')
  have "\<forall>w. l_swaps s w < 2 ^ 64" using step.prems swaps_mono [OF step.hyps(2)] le_less_trans by blast
  with step.IH linv_step [OF step.hyps(2)] show ?case by blast
qed

text \<open>
  C16: with tagged heads no interleaving of any number of threads hands a node to two of them or
  loses one: as long as neither head has been swapped \<open>2 ^ 64\<close> times, the nodes on the two
  stacks and the nodes in the threads' hands are a partition of all nodes.
\<close>

theorem tagged_nodes_never_shared:
  assumes "lreach n s" and "\<forall>w. l_swaps s w < 2 ^ 64"
  shows "(\<forall>t u. t = u \<or> l_held s t \<inter> l_held s u = {}) \<and>
    (\<exists>L. (\<forall>w. chain (l_next s) (h_node (l_heads s w)) (L w) \<and> distinct (L w)) \<and>
      set (L Head) \<inter> set (L FreeHead) = {} \<and> (\<forall>t w. l_held s t \<inter> set (L w) = {}) \<and>
      (\<Union>w. set (L w)) \<union> (\<Union>t. l_held s t) = {..<n})"
proof -
  obtain L where L: "linv n s L" using lreach_linv [OF assms] by blast
  have "distinct (L w)" for w using linvD(1) [OF L] by (rule chain_distinct)
  then have "(\<forall>w. chain (l_next s) (h_node (l_heads s w)) (L w) \<and> distinct (L w)) \<and>
      set (L Head) \<inter> set (L FreeHead) = {} \<and> (\<forall>t w. l_held s t \<inter> set (L w) = {}) \<and>
      (\<Union>w. set (L w)) \<union> (\<Union>t. l_held s t) = {..<n}"
    using linvD [OF L] linvD(3) [OF L, of Head FreeHead] by auto
  moreover have "t = u \<or> l_held s t \<inter> l_held s u = {}" for t u using linvD(5) [OF L, of t u] by blast
  ultimately show ?thesis by blast
qed

theorem tagged_nodes_never_shared_witness:
  "\<exists>s. lreach 3 s \<and> l_held s 0 = {0} \<and> l_held s 0 \<inter> l_held s 1 = {}"
proof -
  let ?s0 = "linit 3"
  let ?s1 = "pop_orig 0 FreeHead ?s0"
  let ?s2 = "goto 0 (Pop_Next FreeHead 0 0 (Some 1) 0) ?s1"
  let ?s3 = "goto 0 Ready ((swap_in FreeHead (Some 1) ?s2)\<lparr>l_held := (l_held ?s2)(0 := insert 0 (l_held ?s2 0))\<rparr>)"
  have n: "l_next ?s1 0 = Some 1" by (simp add: pop_orig_def linit_def)
  have "lstep ?s0 ?s1" by (rule lstep.pop_load) (simp add: linit_def)
  then have r1: "lreach 3 ?s1" by (rule lreach.step [OF lreach.start])
  have "lstep ?s1 (goto 0 (Pop_Next FreeHead 0 0 (l_next ?s1 0) 0) ?s1)"
    by (rule lstep.pop_next) (simp add: pop_orig_def linit_def)
  then have "lreach 3 ?s2" unfolding n by (rule lreach.step [OF r1])
  moreover have "lstep ?s2 ?s3"
    by (rule lstep.pop_cas [where tag = 0 and g = 0]) (simp_all add: pop_orig_def linit_def)
  ultimately have r: "lreach 3 ?s3" by (rule lreach.step)
  have h: "l_held ?s3 0 = {0}" by (simp add: pop_orig_def linit_def)
  have b: "\<forall>w. l_swaps ?s3 w < 2 ^ 64" by (simp add: pop_orig_def linit_def)
  have "0 = (1::nat) \<or> l_held ?s3 0 \<inter> l_held ?s3 1 = {}"
    by (rule tagged_nodes_never_shared [OF r b, THEN conjunct1, THEN spec, THEN spec])
  then have "l_held ?s3 0 \<inter> l_held ?s3 1 = {}" by (rule disjE) simp_all
  with r h show ?thesis by (intro exI conjI)
qed

end
