(* ===== verification/Slot_Race.thy ===== *)
theory Slot_Race
  imports Prelude
begin

text \<open>
  The cells of \<^verbatim>\<open>fof_queue.c\<close> under several API threads and the audio thread: allocation, both lanes of
  \<open>fof_queue_add\<close> and the release of a refused cell cut into their atomic steps, interleaved with the
  audio thread, which takes a slot, walks through the cells it got (\<open>ctrl_client_process_cb\<close>,
  \<open>fof_queue_release_list\<close>) and puts the whole list back at once (\<open>fof_queue_free_fofs\<close>). Which slot the
  arithmetic yields is left open: a thread may have computed it from a frame that is out of date,
  or from a wrong slot cache (\<open>Cache_Race\<close>). The excess list, which both sides change
  without atomic operations, is a model of its own at the end.
\<close>

subsection \<open>Threads and atomic steps\<close>

text \<open>
  Where an API thread is. In \<open>fof_queue_allocate_fof\<close>: before the load of the free list's head, of
  \<open>fof->next\<close>, the compare-and-swap, the final \<open>fof->next = NULL\<close>. In \<open>fof_queue_add\<close>: it has a cell, the
  index of a slot and a lane (\<^const>\<open>True\<close> is the fast one); then it has read the slot's head, stored
  it in \<open>fof->next\<close>, and found \<open>next_frame\<close> unchanged. In \<open>fof_queue_free_fof\<close>: before the load of the
  head, the store to \<open>fof->next\<close>, the compare-and-swap.
\<close>

datatype add_pc =
  Outside
| Alloc_Load
| Alloc_Read nat
| Alloc_Swap nat cell_ptr
| Alloc_Clear nat
| Chosen nat nat bool
| Read_Head nat nat bool cell_ptr
| Linked nat nat bool cell_ptr
| Checked nat nat bool cell_ptr
| Give_Load nat
| Give_Store nat cell_ptr
| Give_Swap nat

text \<open>
  The audio thread: between two slots; in the loop over a list, with the cells visited and the next
  cell; in \<open>fof_queue_free_fofs\<close> with the list it has walked through.
\<close>

datatype audio_pc =
  Waiting
| Walking "nat list" cell_ptr
| List_Load "nat list"
| List_Store "nat list" cell_ptr
| List_Swap "nat list"

record slots =
  z_next :: "nat \<Rightarrow> cell_ptr"
  z_free :: cell_ptr
  z_slot :: "nat \<Rightarrow> cell_ptr"
  z_pcs :: "nat \<Rightarrow> add_pc"
  z_audio :: audio_pc
  z_accepted :: nat \<comment> \<open>additions that returned success\<close>
  z_visited :: nat  \<comment> \<open>cells the audio thread has reached\<close>

definition at_pc :: "nat \<Rightarrow> add_pc \<Rightarrow> slots \<Rightarrow> slots" where
  "at_pc t pc s = s\<lparr>z_pcs := (z_pcs s)(t := pc)\<rparr>"

definition store_at :: "nat \<Rightarrow> cell_ptr \<Rightarrow> slots \<Rightarrow> slots" where
  "store_at c p s = s\<lparr>z_next := (z_next s)(c := p)\<rparr>"

text \<open>
  One atomic step with \<open>m\<close> slots and the threads \<open>t < k\<close>. Refused additions (\<open>late\<close>, \<open>changed\<close>,
  \<open>lost\<close>) go on to release their cell.
\<close>

inductive slot_step :: "nat \<Rightarrow> nat \<Rightarrow> slots \<Rightarrow> slots \<Rightarrow> bool" for m k where
  enter: "z_pcs s t = Outside \<Longrightarrow> t < k \<Longrightarrow> slot_step m k s (at_pc t Alloc_Load s)"
| no_cell: "z_pcs s t = Alloc_Load \<Longrightarrow> z_free s = None \<Longrightarrow> slot_step m k s (at_pc t Outside s)"
| first_cell: "z_pcs s t = Alloc_Load \<Longrightarrow> z_free s = Some c \<Longrightarrow> slot_step m k s (at_pc t (Alloc_Read c) s)"
| second_cell: "z_pcs s t = Alloc_Read c \<Longrightarrow> slot_step m k s (at_pc t (Alloc_Swap c (z_next s c)) s)"
| pop: "z_pcs s t = Alloc_Swap c p \<Longrightarrow> z_free s = Some c \<Longrightarrow>
    slot_step m k s (at_pc t (Alloc_Clear c) (s\<lparr>z_free := p\<rparr>))"
| pop_fails: "z_pcs s t = Alloc_Swap c p \<Longrightarrow> z_free s \<noteq> Some c \<Longrightarrow> slot_step m k s (at_pc t Alloc_Load s)"
| choose: "z_pcs s t = Alloc_Clear c \<Longrightarrow> i < m \<Longrightarrow> slot_step m k s (at_pc t (Chosen c i fast) (store_at c None s))"
| late: "z_pcs s t = Chosen c i fast \<Longrightarrow> slot_step m k s (at_pc t (Give_Load c) s)"
| load: "z_pcs s t = Chosen c i fast \<Longrightarrow> slot_step m k s (at_pc t (Read_Head c i fast (z_slot s i)) s)"
| link: "z_pcs s t = Read_Head c i fast h \<Longrightarrow> slot_step m k s (at_pc t (Linked c i fast h) (store_at c h s))"
| unchanged: "z_pcs s t = Linked c i fast h \<Longrightarrow> slot_step m k s (at_pc t (Checked c i fast h) s)"
| recalculate: "z_pcs s t = Linked c i True h \<Longrightarrow> j < m \<Longrightarrow> slot_step m k s (at_pc t (Chosen c j fast) s)"
| changed: "z_pcs s t = Linked c i False h \<Longrightarrow> slot_step m k s (at_pc t (Give_Load c) s)"
| swap: "z_pcs s t = Checked c i fast h \<Longrightarrow> z_slot s i = h \<Longrightarrow>
    slot_step m k s (at_pc t Outside (s\<lparr>z_slot := (z_slot s)(i := Some c), z_accepted := z_accepted s + 1\<rparr>))"
| retry: "z_pcs s t = Checked c i True h \<Longrightarrow> z_slot s i \<noteq> h \<Longrightarrow>
    slot_step m k s (at_pc t (Chosen c i True) (store_at c (z_slot s i) s))"
| lost: "z_pcs s t = Checked c i False h \<Longrightarrow> z_slot s i \<noteq> h \<Longrightarrow> slot_step m k s (at_pc t (Give_Load c) s)"
| give_load: "z_pcs s t = Give_Load c \<Longrightarrow> slot_step m k s (at_pc t (Give_Store c (z_free s)) s)"
| give_store: "z_pcs s t = Give_Store c p \<Longrightarrow> slot_step m k s (at_pc t (Give_Swap c) (store_at c p s))"
| give: "z_pcs s t = Give_Swap c \<Longrightarrow> z_free s = z_next s c \<Longrightarrow>
    slot_step m k s (at_pc t Outside (s\<lparr>z_free := Some c\<rparr>))"
| give_fails: "z_pcs s t = Give_Swap c \<Longrightarrow> z_free s \<noteq> z_next s c \<Longrightarrow>
    slot_step m k s (at_pc t (Give_Load c) (store_at c (z_free s) s))"
| take: "z_audio s = Waiting \<Longrightarrow> i < m \<Longrightarrow>
    slot_step m k s (s\<lparr>z_audio := Walking [] (z_slot s i), z_slot := (z_slot s)(i := None)\<rparr>)"
| visit: "z_audio s = Walking vs (Some a) \<Longrightarrow>
    slot_step m k s (s\<lparr>z_audio := Walking (vs @ [a]) (z_next s a), z_visited := z_visited s + 1\<rparr>)"
| nothing: "z_audio s = Walking [] None \<Longrightarrow> slot_step m k s (s\<lparr>z_audio := Waiting\<rparr>)"
| all_visited: "z_audio s = Walking vs None \<Longrightarrow> vs \<noteq> [] \<Longrightarrow> slot_step m k s (s\<lparr>z_audio := List_Load vs\<rparr>)"
| list_load: "z_audio s = List_Load vs \<Longrightarrow> slot_step m k s (s\<lparr>z_audio := List_Store vs (z_free s)\<rparr>)"
| list_store: "z_audio s = List_Store vs p \<Longrightarrow>
    slot_step m k s (store_at (last vs) p (s\<lparr>z_audio := List_Swap vs\<rparr>))"
| list_give: "z_audio s = List_Swap vs \<Longrightarrow> z_free s = z_next s (last vs) \<Longrightarrow>
    slot_step m k s (s\<lparr>z_audio := Waiting, z_free := Some (hd vs)\<rparr>)"
| list_fails: "z_audio s = List_Swap vs \<Longrightarrow> z_free s \<noteq> z_next s (last vs) \<Longrightarrow>
    slot_step m k s (store_at (last vs) (z_free s) (s\<lparr>z_audio := List_Load vs\<rparr>))"

inductive_cases slot_stepE: "slot_step m k s s'"










subsection \<open>Every cell is in one place\<close>




fun visited :: "audio_pc \<Rightarrow> nat list" where
  "visited Waiting = []"
| "visited (Walking vs p) = vs"
| "visited (List_Load vs) = vs"
| "visited (List_Store vs p) = vs"
| "visited (List_Swap vs) = vs"



text \<open>The cells the audio thread has walked through are still linked to each other.\<close>

fun audio_ok :: "(nat \<Rightarrow> cell_ptr) \<Rightarrow> audio_pc \<Rightarrow> nat list \<Rightarrow> bool" where
  "audio_ok nxt Waiting R \<longleftrightarrow> R = []"
| "audio_ok nxt (Walking vs p) R \<longleftrightarrow> chain nxt p R \<and> chain nxt (if vs = [] then p else Some (hd vs)) (vs @ R)"
| "audio_ok nxt (List_Load vs) R \<longleftrightarrow> R = [] \<and> vs \<noteq> [] \<and> chain (nxt(last vs := None)) (Some (hd vs)) vs"
| "audio_ok nxt (List_Store vs p) R \<longleftrightarrow> R = [] \<and> vs \<noteq> [] \<and> chain (nxt(last vs := None)) (Some (hd vs)) vs"
| "audio_ok nxt (List_Swap vs) R \<longleftrightarrow> R = [] \<and> vs \<noteq> [] \<and> chain (nxt(last vs := None)) (Some (hd vs)) vs"



lemma audio_ok_upd [simp]:
  assumes "c \<notin> set R" and "c \<notin> set (visited a)"
  shows "audio_ok (nxt(c := v)) a R = audio_ok nxt a R"
proof -
  have *: "chain ((nxt(c := v))(last vs := None)) p vs = chain (nxt(last vs := None)) p vs"
    if "c \<notin> set vs" "vs \<noteq> []" for vs p
    using that by (subst fun_upd_twist) auto
  show ?thesis using assms * by (cases a) auto
qed







subsection \<open>Cells that change their place\<close>









subsection \<open>The audio thread\<close>






subsection \<open>All steps\<close>








subsection \<open>The excess list\<close>

text \<open>
  An addition beyond the ring stores \<open>q->excess\<close> in \<open>fof->next\<close> and then \<open>fof\<close> in \<open>q->excess\<close>, two plain
  accesses; the flush of the audio thread exchanges \<open>q->excess\<close> for \<open>NULL\<close>, links the last cell it
  got to the head of the free list and frees the whole list (one step here; the free list is a set
  of cells, one of which is its head).
\<close>

record excess =
  e_next :: "nat \<Rightarrow> cell_ptr"
  e_head :: cell_ptr
  e_pool :: "nat set"
  e_linked :: "nat \<Rightarrow> nat option" \<comment> \<open>the cell a thread has linked and not stored yet\<close>

definition free_head :: "excess \<Rightarrow> cell_ptr \<Rightarrow> bool" where
  "free_head s p \<longleftrightarrow> (case p of None \<Rightarrow> e_pool s = {} | Some a \<Rightarrow> a \<in> e_pool s)"

inductive excess_step :: "excess \<Rightarrow> excess \<Rightarrow> bool" where
  add_link: "e_linked s t = None \<Longrightarrow> c \<in> e_pool s \<Longrightarrow>
    excess_step s (s\<lparr>e_pool := e_pool s - {c}, e_next := (e_next s)(c := e_head s), e_linked := (e_linked s)(t := Some c)\<rparr>)"
| add_store: "e_linked s t = Some c \<Longrightarrow>
    excess_step s (s\<lparr>e_head := Some c, e_linked := (e_linked s)(t := None)\<rparr>)"
| flush: "chain (e_next s) (e_head s) xs \<Longrightarrow> free_head s p \<Longrightarrow>
    excess_step s (s\<lparr>e_head := None, e_pool := e_pool s \<union> set xs,
      e_next := (if xs = [] then e_next s else (e_next s)(last xs := p))\<rparr>)"

definition excess_init :: "nat \<Rightarrow> excess" where
  "excess_init n = \<lparr>e_next = (\<lambda>c. None), e_head = None, e_pool = {..<n}, e_linked = (\<lambda>t. None)\<rparr>"

inductive excess_reach :: "nat \<Rightarrow> excess \<Rightarrow> bool" for n where
  start: "excess_reach n (excess_init n)"
| step: "excess_reach n s \<Longrightarrow> excess_step s s' \<Longrightarrow> excess_reach n s'"

lemma excess_linked:
  "excess_reach n s \<Longrightarrow> e_linked s t = None \<Longrightarrow> c \<in> e_pool s \<Longrightarrow>
   excess_reach n (s\<lparr>e_pool := e_pool s - {c}, e_next := (e_next s)(c := e_head s), e_linked := (e_linked s)(t := Some c)\<rparr>)"
  using excess_step.add_link excess_reach.step by blast

lemma excess_stored:
  "excess_reach n s \<Longrightarrow> e_linked s t = Some c \<Longrightarrow>
   excess_reach n (s\<lparr>e_head := Some c, e_linked := (e_linked s)(t := None)\<rparr>)"
  using excess_step.add_store excess_reach.step by blast

lemma excess_flushed:
  "excess_reach n s \<Longrightarrow> chain (e_next s) (e_head s) xs \<Longrightarrow> free_head s p \<Longrightarrow>
   excess_reach n (s\<lparr>e_head := None, e_pool := e_pool s \<union> set xs,
     e_next := (if xs = [] then e_next s else (e_next s)(last xs := p))\<rparr>)"
  using excess_step.flush excess_reach.step by blast

text \<open>Two threads link their cells to the same list and store one after the other.\<close>

lemma excess_loses:
  "\<exists>s. excess_reach 2 s \<and> chain (e_next s) (e_head s) [1] \<and> 0 \<notin> e_pool s \<and> (\<forall>t. e_linked s t = None)"
proof -
  define s1 where "s1 = excess_init 2\<lparr>e_pool := {..<2} - {0}, e_next := (\<lambda>c. None)(0 := None), e_linked := (\<lambda>t. None)(0 := Some 0)\<rparr>"
  define s2 where "s2 = s1\<lparr>e_pool := e_pool s1 - {1}, e_next := (e_next s1)(1 := e_head s1), e_linked := (e_linked s1)(1 := Some 1)\<rparr>"
  define s3 where "s3 = s2\<lparr>e_head := Some 0, e_linked := (e_linked s2)(0 := None)\<rparr>"
  define s4 where "s4 = s3\<lparr>e_head := Some 1, e_linked := (e_linked s3)(1 := None)\<rparr>"
  have "excess_reach 2 s1"
    using excess_linked [OF excess_reach.start, of 2 0 0] by (simp add: s1_def excess_init_def)
  then have "excess_reach 2 s2" unfolding s2_def
    by (rule excess_linked) (simp_all add: s1_def excess_init_def)
  then have "excess_reach 2 s3" unfolding s3_def
    by (rule excess_stored) (simp add: s2_def s1_def excess_init_def)
  then have "excess_reach 2 s4" unfolding s4_def
    by (rule excess_stored) (simp add: s3_def s2_def s1_def excess_init_def)
  then show ?thesis
    by (intro exI [of _ s4]) (simp add: s4_def s3_def s2_def s1_def excess_init_def)
qed

text \<open>A flush frees the list that a thread has linked its cell to, before the thread stores it.\<close>

lemma excess_shares:
  "\<exists>s. excess_reach 2 s \<and> chain (e_next s) (e_head s) [1, 0] \<and> 0 \<in> e_pool s"
proof -
  define s1 where "s1 = excess_init 2\<lparr>e_pool := {..<2} - {0}, e_next := (\<lambda>c. None)(0 := None), e_linked := (\<lambda>t. None)(0 := Some 0)\<rparr>"
  define s2 where "s2 = s1\<lparr>e_head := Some 0, e_linked := (e_linked s1)(0 := None)\<rparr>"
  define s3 where "s3 = s2\<lparr>e_pool := e_pool s2 - {1}, e_next := (e_next s2)(1 := e_head s2), e_linked := (e_linked s2)(0 := Some 1)\<rparr>"
  define s4 where "s4 = s3\<lparr>e_head := None, e_pool := e_pool s3 \<union> set [0],
    e_next := (if [0 :: nat] = [] then e_next s3 else (e_next s3)(last [0] := None))\<rparr>"
  define s5 where "s5 = s4\<lparr>e_head := Some 1, e_linked := (e_linked s4)(0 := None)\<rparr>"
  have "excess_reach 2 s1"
    using excess_linked [OF excess_reach.start, of 2 0 0] by (simp add: s1_def excess_init_def)
  then have "excess_reach 2 s2" unfolding s2_def
    by (rule excess_stored) (simp add: s1_def excess_init_def)
  then have "excess_reach 2 s3" unfolding s3_def
    by (rule excess_linked) (simp_all add: s2_def s1_def excess_init_def)
  then have "excess_reach 2 s4" unfolding s4_def
    by (rule excess_flushed) (auto simp: s3_def s2_def s1_def excess_init_def free_head_def)
  then have "excess_reach 2 s5" unfolding s5_def
    by (rule excess_stored) (simp add: s4_def s3_def)
  then show ?thesis
    by (intro exI [of _ s5]) (simp add: s5_def s4_def s3_def s2_def s1_def excess_init_def)
qed

text \<open>
  C35: the excess list does not have this property: two threads that add beyond the ring at the
  same time can lose a cell for good, which is then in no list and in no thread's hand; and one
  thread that adds while the audio thread flushes can leave a cell on the excess list that is
  free as well, so that it will be used for two fofs.
\<close>

theorem excess_list_loses_and_shares:
  "(\<exists>s. excess_reach 2 s \<and> chain (e_next s) (e_head s) [1] \<and> 0 \<notin> e_pool s \<and> (\<forall>t. e_linked s t = None)) \<and>
   (\<exists>s. excess_reach 2 s \<and> chain (e_next s) (e_head s) [1, 0] \<and> 0 \<in> e_pool s)"
  using excess_loses excess_shares by (rule conjI)

end
