(* ===== verification/Add_Race.thy ===== *)
theory Add_Race
  imports Cycle
begin

text \<open>
  \<open>fof_queue_add\<close> against the audio thread: the call is cut between its test of \<open>next_frame\<close> and
  its compare-and-swap on the slot, and a whole audio cycle runs in between. In the fast lane
  the result is that of adding first and playing then. In the slow lane the swap can succeed on
  a slot that has just been played.
\<close>

subsection \<open>The call in two halves\<close>

text \<open>What the call holds in its local variables at the compare-and-swap.\<close>

record pending =
  p_fof :: cell_ptr
  p_start :: u64
  p_next_frame :: u64
  p_idx :: c_int
  p_slot :: c_int
  p_head :: cell_ptr
  p_fast :: bool

type_synonym add_result = "jfofs_status \<times> stat_event list \<times> fof_queue"

text \<open>
  From the label \<open>recalculate\<close> to the compare-and-swap of a lane; the branches that reach no lane
  are those of \<open>add_recalculate\<close>.
\<close>

definition recalculate_until_swap ::
  "cell_ptr \<Rightarrow> u64 \<Rightarrow> u64 \<Rightarrow> fof_queue \<Rightarrow> (add_result + pending \<times> fof_queue) option" where
  "recalculate_until_swap fof start next_frame q =
     (let slot_idx = int_of_u64 ((start - next_frame) div u64_of_int (q_buffer_size q)) in
      if start < next_frame \<or> u64_of_int (q_buffer_size q) = 0 \<or> sint (q_n_slots q) \<le> sint slot_idx
      then map_option Inl (add_recalculate fof start next_frame q)
      else let q1 = cache_current_slot next_frame q;
               slot = int_of_u64 ((u64_of_int slot_idx + q_current_slot q1) AND u64_of_int (q_n_slots q1 - 1));
               fast = next_frame + u64_of_int (q_buffer_size q1) < start in
        do { head \<leftarrow> load_slot slot q1;
             q2 \<leftarrow> store_next fof head q1;
             if q_next_frame q2 \<noteq> next_frame
             then if fast then map_option Inl (add_recalculate fof start (q_next_frame q2) q2)
                  else do { q3 \<leftarrow> fof_queue_free_fof q2 fof; Some (Inl (JFOFS_FOF_LATE_WARNING, [Incr_Late], q3)) }
             else Some (Inr (\<lparr>p_fof = fof, p_start = start, p_next_frame = next_frame, p_idx = slot_idx,
                              p_slot = slot, p_head = head, p_fast = fast\<rparr>, q2)) })"

definition add_until_swap ::
  "fof_queue \<Rightarrow> u64 \<Rightarrow> c_float list \<Rightarrow> (add_result + pending \<times> fof_queue) option" where
  "add_until_swap q t args =
     do { (fof, status, q1) \<leftarrow> fof_queue_allocate_fof q;
          if fof = None then Some (Inl (JFOFS_FOF_LIMIT_ERROR, [], q1))
          else let start = ucast (jfofs_time_to_nframes t (q_sample_rate q1)) in
            do { q2 \<leftarrow> set_fof fof t args q1;
                 recalculate_until_swap fof start (q_next_frame q2) q2 } }"

text \<open>From the compare-and-swap on. In the fast lane the expected value is what \<open>fof->next\<close> holds.\<close>

definition add_from_swap :: "pending \<Rightarrow> fof_queue \<Rightarrow> add_result option" where
  "add_from_swap p q =
     (if p_fast p
      then do { expected \<leftarrow> load_next (p_fof p) q;
                (ok, q1) \<leftarrow> cas_slot (p_slot p) expected (p_fof p) q;
                if ok then Some (JFOFS_SUCCESS, [Incr_Slot (p_idx p)], q1)
                else do { seen \<leftarrow> load_slot (p_slot p) q1;
                          q2 \<leftarrow> store_next (p_fof p) seen q1;
                          (moved, q3) \<leftarrow> add_fast_lane (p_fof p) (p_next_frame p) (p_slot p) q2;
                          case moved of
                            Some next_frame' \<Rightarrow> add_recalculate (p_fof p) (p_start p) next_frame' q3
                          | None \<Rightarrow> Some (JFOFS_SUCCESS, [Incr_Slot (p_idx p)], q3) } }
      else do { (ok, q1) \<leftarrow> cas_slot (p_slot p) (p_head p) (p_fof p) q;
                if ok then Some (JFOFS_SUCCESS, [Incr_Slot (p_idx p)], q1)
                else do { q2 \<leftarrow> fof_queue_free_fof q1 (p_fof p);
                          Some (JFOFS_FOF_LATE_WARNING, [Incr_Late], q2) } })"

text \<open>Run in one piece, the two halves are the call.\<close>

definition add_in_halves :: "(add_result + pending \<times> fof_queue) option \<Rightarrow> add_result option" where
  "add_in_halves r = do { x \<leftarrow> r; case x of Inl res \<Rightarrow> Some res | Inr (p, q) \<Rightarrow> add_from_swap p q }"

lemma halves_of_result [simp]: "add_in_halves (map_option Inl r) = r"
  by (cases r) (simp_all add: add_in_halves_def)

lemma recalculate_in_halves:
  "add_in_halves (recalculate_until_swap fof sf nf q) = add_recalculate fof sf nf q"
proof -
  let ?idx = "int_of_u64 ((sf - nf) div u64_of_int (q_buffer_size q))"
  let ?q1 = "cache_current_slot nf q"
  let ?slot = "int_of_u64 ((u64_of_int ?idx + q_current_slot ?q1) AND u64_of_int (q_n_slots ?q1 - 1))"
  show ?thesis
  proof (cases "sf < nf \<or> u64_of_int (q_buffer_size q) = 0 \<or> sint (q_n_slots q) \<le> sint ?idx")
    case True
    then show ?thesis by (simp add: recalculate_until_swap_def Let_def)
  next
    case False
    then have r: "add_recalculate fof sf nf q =
       (if nf + u64_of_int (q_buffer_size ?q1) < sf
        then do { (moved, q2) \<leftarrow> add_fast_lane fof nf ?slot ?q1;
                  case moved of Some nf' \<Rightarrow> add_recalculate fof sf nf' q2
                  | None \<Rightarrow> Some (JFOFS_SUCCESS, [Incr_Slot ?idx], q2) }
        else add_slow_lane fof nf ?idx ?slot ?q1)"
      by (subst add_recalculate.simps) (simp add: Let_def)
    show ?thesis
      unfolding r using False
      by (subst add_fast_lane.simps)
        (auto simp: recalculate_until_swap_def add_in_halves_def add_from_swap_def add_slow_lane_def Let_def
          cas_slot_def split: bind_splits option.splits)
  qed
qed

lemma add_split: "fof_queue_add q t args = add_in_halves (add_until_swap q t args)"
proof (cases "fof_queue_allocate_fof q")
  case None
  then show ?thesis by (simp add: fof_queue_add_def add_until_swap_def add_in_halves_def)
next
  case (Some r)
  obtain fof st q1 where r: "r = (fof, st, q1)" by (cases r)
  let ?sf = "ucast (jfofs_time_to_nframes t (q_sample_rate q1)) :: u64"
  show ?thesis
  proof (cases "fof = None \<or> set_fof fof t args q1 = None")
    case True
    with Some r show ?thesis
      by (auto simp: fof_queue_add_def add_until_swap_def add_in_halves_def Let_def)
  next
    case False
    then obtain a q2 where "fof = Some a" "set_fof fof t args q1 = Some q2" by auto
    with Some r show ?thesis
      by (simp add: fof_queue_add_def add_until_swap_def Let_def recalculate_in_halves)
  qed
qed

subsection \<open>An addition that has reached its compare-and-swap\<close>

definition put_slot :: "nat \<Rightarrow> cell_ptr \<Rightarrow> fof_queue \<Rightarrow> fof_queue" where
  "put_slot i v q = q\<lparr>q_slot := (q_slot q)[i := v]\<rparr>"

text \<open>
  \<open>at_swap\<close>: the call waits at the compare-and-swap of slot \<open>i\<close> with cell \<open>a\<close>, which is linked to
  the head it has read; a swap now gives the queue \<open>qA\<close>.
\<close>

definition at_swap :: "fof_queue \<Rightarrow> pending \<Rightarrow> nat \<Rightarrow> nat \<Rightarrow> fof_queue \<Rightarrow> fof_queue \<Rightarrow> bool" where
  "at_swap q p i a q1 qA \<longleftrightarrow> p_fof p = Some a \<and> a < length (q_mem q1) \<and> sint (p_slot p) = int i \<and>
     i < length (q_slot q1) \<and> q_slot q1 = q_slot q \<and> p_head p = q_slot q ! i \<and>
     load_next (Some a) q1 = Some (p_head p) \<and> qA = put_slot i (Some a) q1"

lemma at_swapD:
  assumes "at_swap q p i a q1 qA"
  shows "p_fof p = Some a" "a < length (q_mem q1)" "sint (p_slot p) = int i" "i < length (q_slot q)"
    "q_slot q1 = q_slot q" "p_head p = q_slot q ! i" "load_next (Some a) q1 = Some (p_head p)"
    "qA = put_slot i (Some a) q1"
  using assms by (auto simp: at_swap_def)

lemma add_until_swap_window:
  assumes "owns q (a # fs) ss ex []" and "wf_config q" and "cache_ok q"
    and w: "in_window q (start_frame q t)"
  obtains p q1 qA where "add_until_swap q t args = Some (Inr (p, q1))"
    "at_swap q p (target_slot q (start_frame q t)) a q1 qA"
    "fof_queue_add q t args = Some (JFOFS_SUCCESS, [Incr_Slot (p_idx p)], qA)"
    "p_start p = ucast (jfofs_time_to_nframes t (q_sample_rate q))" "p_next_frame p = q_next_frame q"
    "p_fast p \<longleftrightarrow> q_next_frame q + u64_of_int (q_buffer_size q) < p_start p"
    "owns q1 fs ss ex [a]" "stored q q1 a t args"
proof -
  let ?q1 = "set_next a None (q\<lparr>q_free_fofs := nexts q a, q_free_cnt := q_free_cnt q - 1\<rparr>)"
  let ?q2 = "set_event a t args ?q1"
  let ?sf = "ucast (jfofs_time_to_nframes t (q_sample_rate q)) :: u64" and ?nf = "q_next_frame q"
  let ?i = "target_slot q (start_frame q t)"
  let ?idx = "int_of_u64 ((?sf - ?nf) div u64_of_int (q_buffer_size q))"
  let ?q3 = "cache_current_slot ?nf ?q2"
  let ?slot = "int_of_u64 ((u64_of_int ?idx + q_current_slot ?q3) AND u64_of_int (q_n_slots q - 1))"
  let ?q4 = "set_next a (q_slot q ! ?i) ?q3"
  let ?p = "\<lparr>p_fof = Some a, p_start = ?sf, p_next_frame = ?nf, p_idx = ?idx, p_slot = ?slot,
      p_head = q_slot q ! ?i, p_fast = (?nf + u64_of_int (q_buffer_size q) < ?sf)\<rparr>"
  have a: "q_free_fofs q = Some a" "a < length (q_mem q)"
    using assms(1) owns_range(1) [OF assms(1)] by (auto simp: owns_def)
  have le: "?nf \<le> ?sf" using w by (simp add: word_le_nat_alt unat_start_frame in_window_def)
  have lt: "unat ?sf < 2 ^ 32" using start_frame_less [of q t] by (simp only: unat_start_frame)
  have c: "wf_config ?q2" "cache_ok ?q2" using assms(2,3) by (simp_all add: wf_config_def cache_ok_def)
  have s: "sint ?slot = int ?i"
    using slot_value [OF c le lt] by (simp add: target_slot_def unat_start_frame)
  have i: "?i < length (q_slot q)"
    using assms(2) wf_config_pos(1) [OF assms(2)] by (simp add: wf_config_def target_slot_def slot_of_less)
  have until: "add_until_swap q t args = recalculate_until_swap (Some a) ?sf ?nf ?q2"
    using a by (simp add: add_until_swap_def allocate_cons Let_def)
  have ne: "\<not> sint (q_n_slots q) \<le> sint ?idx" "\<not> ?sf < ?nf"
    using excess_iff [OF assms(2) le lt] w le by (simp_all add: in_window_def unat_start_frame)
  have swap: "recalculate_until_swap (Some a) ?sf ?nf ?q2 = Some (Inr (?p, ?q4))"
    using ne wf_config_buffer [OF assms(2)] s i a(2)
    by (simp add: recalculate_until_swap_def Let_def load_slot_def slot_at_def)
  have at: "at_swap q ?p ?i a ?q4 (put_slot ?i (Some a) ?q4)"
    using s i a(2) by (simp add: at_swap_def load_next_def set_next_def)
  have "add_from_swap ?p ?q4 = Some (JFOFS_SUCCESS, [Incr_Slot ?idx], put_slot ?i (Some a) ?q4)"
    using s i a(2)
    by (simp add: add_from_swap_def load_next_def cas_slot_def slot_at_def put_slot_def set_next_def)
  then have add: "fof_queue_add q t args = Some (JFOFS_SUCCESS, [Incr_Slot (p_idx ?p)], put_slot ?i (Some a) ?q4)"
    by (simp add: add_split until swap add_in_halves_def)
  have o: "owns ?q4 fs ss ex [a]"
  proof -
    have "owns ?q3 fs ss ex [a]" using assms(1) by (simp add: owns_set_event owns_alloc)
    then show ?thesis by (rule owns_set_next)
  qed
  have st: "stored q ?q4 a t args"
  proof -
    have "event_at ?q4 = (event_at q)(a := (t, args))"
      using a(2) by (auto simp: fun_eq_iff event_at_set_event)
    then show ?thesis using cache_current_slot_ok(1) [OF c] by (simp add: stored_def q_frame_def cache_ok_def)
  qed
  show thesis using that [of ?p ?q4 "put_slot ?i (Some a) ?q4"] until swap at add o st by simp
qed

text \<open>The same for a well-formed queue: while the call waits it holds cell \<open>a\<close>, otherwise nothing has
  changed; \<open>qA\<close> is the queue of an addition that was not interrupted.\<close>

lemma add_reaches_swap:
  assumes wf: "wf_queue q" and free: "free_list q \<noteq> []" and w: "in_window q (start_frame q t)"
  defines "i \<equiv> target_slot q (start_frame q t)"
  obtains p q1 qA a where "add_until_swap q t args = Some (Inr (p, q1))" "at_swap q p i a q1 qA"
    "fof_queue_add q t args = Some (JFOFS_SUCCESS, [Incr_Slot (p_idx p)], qA)"
    "p_start p = ucast (jfofs_time_to_nframes t (q_sample_rate q))" "p_next_frame p = q_next_frame q"
    "p_fast p \<longleftrightarrow> q_next_frame q + u64_of_int (q_buffer_size q) < p_start p"
    "wf_held [a] q1" "free_list q = a # free_list q1" "slot_lists q1 = slot_lists q"
    "excess_list q1 = excess_list q" "stored q q1 a t args"
    "wf_queue qA" "slot_lists qA = (slot_lists q)[i := a # slot_lists q ! i]" "q_frame qA = q_frame q"
proof -
  note wfd = wf_queueD [OF wf]
  obtain a fs where fl: "free_list q = a # fs" using free by (cases "free_list q") auto
  then have o: "owns q (a # fs) (slot_lists q) (excess_list q) []" using wfd(3) by simp
  obtain p q1 qA where u: "add_until_swap q t args = Some (Inr (p, q1))" "at_swap q p i a q1 qA"
    "fof_queue_add q t args = Some (JFOFS_SUCCESS, [Incr_Slot (p_idx p)], qA)"
    "p_start p = ucast (jfofs_time_to_nframes t (q_sample_rate q))" "p_next_frame p = q_next_frame q"
    "p_fast p \<longleftrightarrow> q_next_frame q + u64_of_int (q_buffer_size q) < p_start p"
    "owns q1 fs (slot_lists q) (excess_list q) [a]" "stored q q1 a t args"
    unfolding i_def by (rule add_until_swap_window [OF o wfd(1,2) w])
  obtain idx qC where c: "fof_queue_add q t args = Some (JFOFS_SUCCESS, [Incr_Slot idx], qC)"
    "owns qC fs ((slot_lists q)[i := a # slot_lists q ! i]) (excess_list q) []" "stored q qC a t args"
    unfolding i_def by (rule fof_queue_add_slot [OF o wfd(1,2) w])
  then have A: "owns qA fs ((slot_lists q)[i := a # slot_lists q ! i]) (excess_list q) []" "stored q qA a t args"
    using u(3) by simp_all
  have wA: "wf_queue qA" using wf_queueI [OF _ _ A(1)] storedD [OF A(2)] wfd(1) by simp
  have w1: "wf_held [a] q1" using wf_queueI [OF _ _ u(7)] storedD [OF u(8)] wfd(1) by simp
  show thesis
    using u(1-6) w1 _ owns_lists(2,3) [OF u(7)] u(8) wA owns_lists(2) [OF A(1)]
    by (rule that) (use owns_lists(1) [OF u(7)] fl storedD [OF A(2)] in simp_all)
qed

subsection \<open>A cycle looks at its own slot only\<close>

lemma put_slot_fields [simp]:
  "load_next p (put_slot i v q) = load_next p q"
  "store_next p w (put_slot i v q) = map_option (put_slot i v) (store_next p w q)"
  "q_free_fofs (put_slot i v q) = q_free_fofs q" "q_free_cnt (put_slot i v q) = q_free_cnt q"
  "q_mem (put_slot i v q) = q_mem q" "q_next_frame (put_slot i v q) = q_next_frame q"
  "q_clock_source (put_slot i v q) = q_clock_source q" "q_buffer_size (put_slot i v q) = q_buffer_size q"
  "q_n_slots (put_slot i v q) = q_n_slots q" "q_active_cnt (put_slot i v q) = q_active_cnt q"
  "q_first_fof (put_slot i v q) = q_first_fof q" "q_last_fof (put_slot i v q) = q_last_fof q"
  by (auto simp: put_slot_def load_next_def store_next_def split: option.splits)

lemma put_slot_swap:
  "put_slot i v q\<lparr>q_free_fofs := f\<rparr> = put_slot i v (q\<lparr>q_free_fofs := f\<rparr>)"
  "put_slot i v q\<lparr>q_free_cnt := c\<rparr> = put_slot i v (q\<lparr>q_free_cnt := c\<rparr>)"
  "put_slot i v q\<lparr>q_first_fof := f\<rparr> = put_slot i v (q\<lparr>q_first_fof := f\<rparr>)"
  "put_slot i v q\<lparr>q_last_fof := f\<rparr> = put_slot i v (q\<lparr>q_last_fof := f\<rparr>)"
  "put_slot i v q\<lparr>q_active_cnt := c\<rparr> = put_slot i v (q\<lparr>q_active_cnt := c\<rparr>)"
  "put_slot i v q\<lparr>q_next_frame := n\<rparr> = put_slot i v (q\<lparr>q_next_frame := n\<rparr>)"
  "put_slot i v q\<lparr>q_frame_stamp := n\<rparr> = put_slot i v (q\<lparr>q_frame_stamp := n\<rparr>)"
  "i \<noteq> j \<Longrightarrow> put_slot i v q\<lparr>q_slot := (q_slot (put_slot i v q))[j := w]\<rparr>
     = put_slot i v (q\<lparr>q_slot := (q_slot q)[j := w]\<rparr>)"
  by (simp_all add: put_slot_def list_update_swap)

lemma cas_free_fofs_put:
  "cas_free_fofs e d (put_slot i v q) = map_prod id (put_slot i v) (cas_free_fofs e d q)"
  by (simp add: cas_free_fofs_def put_slot_swap)

lemma push_free_fofs_put:
  assumes "push_free_fofs h t q = Some q'"
  shows "push_free_fofs h t (put_slot i v q) = Some (put_slot i v q')"
  using assms
proof (rule push_free_fofs.raw_induct
    [where P = "\<lambda>h t q q'. push_free_fofs h t (put_slot i v q) = Some (put_slot i v q')", rotated])
  fix f h t q q'
  assume IH: "\<And>h t q q'. f h t q = Some q' \<Longrightarrow> push_free_fofs h t (put_slot i v q) = Some (put_slot i v q')"
    and "do { q1 \<leftarrow> store_next t (q_free_fofs q) q; expected \<leftarrow> load_next t q1;
          case cas_free_fofs expected h q1 of (ok, q2) \<Rightarrow>
            if ok then Some q2 else do { q3 \<leftarrow> store_next t (q_free_fofs q2) q2; f h t q3 } } = Some q'"
  then show "push_free_fofs h t (put_slot i v q) = Some (put_slot i v q')"
    by (subst push_free_fofs.simps)
      (auto simp: cas_free_fofs_put split: bind_splits option.splits prod.splits if_splits)
qed

lemma count_freed_put:
  assumes "count_freed h t q = Some q'"
  shows "count_freed h t (put_slot i v q) = Some (put_slot i v q')"
  using assms
proof (rule count_freed.raw_induct
    [where P = "\<lambda>h t q q'. count_freed h t (put_slot i v q) = Some (put_slot i v q')", rotated])
  fix f h t q q'
  assume IH: "\<And>h t q q'. f h t q = Some q' \<Longrightarrow> count_freed h t (put_slot i v q) = Some (put_slot i v q')"
    and "(if h = None then Some q
      else let q1 = q\<lparr>q_free_cnt := q_free_cnt q + 1\<rparr> in
        if h = t then Some q1 else do { nxt \<leftarrow> load_next h q1; f nxt t q1 }) = Some q'"
  then show "count_freed h t (put_slot i v q) = Some (put_slot i v q')"
    by (subst count_freed.simps) (auto simp: put_slot_swap Let_def split: bind_splits if_splits)
qed

lemma free_fofs_put:
  "fof_queue_free_fofs q h t = Some q' \<Longrightarrow> fof_queue_free_fofs (put_slot i v q) h t = Some (put_slot i v q')"
  by (auto simp: fof_queue_free_fofs_def count_freed_put push_free_fofs_put split: bind_splits)

lemma dispatch_put:
  assumes "dispatch lib ctrl p j q dsps = Some r"
  shows "dispatch lib ctrl p j (put_slot i v q) dsps = Some (case r of (j', q', dsps') \<Rightarrow> (j', put_slot i v q', dsps'))"
  using assms
proof (rule dispatch.raw_induct
    [where P = "\<lambda>lib ctrl p j q dsps r. dispatch lib ctrl p j (put_slot i v q) dsps
        = Some (case r of (j', q', dsps') \<Rightarrow> (j', put_slot i v q', dsps'))", rotated])
  fix f lib ctrl p j q dsps r
  assume IH: "\<And>lib ctrl p j q dsps r. f lib ctrl p j q dsps = Some r \<Longrightarrow>
      dispatch lib ctrl p j (put_slot i v q) dsps = Some (case r of (j', q', dsps') \<Rightarrow> (j', put_slot i v q', dsps'))"
    and "(case p of None \<Rightarrow> Some (j, q, dsps)
      | Some a \<Rightarrow>
        do { d \<leftarrow> dsp_at ctrl j dsps; j' \<leftarrow> c_rem (j + 1) (c_n_clients ctrl); nxt \<leftarrow> load_next p q;
             f lib ctrl nxt j' (q\<lparr>q_last_fof := p, q_active_cnt := q_active_cnt q + 1\<rparr>)
               (dsps[d := fst (dsp_client_add lib (dsps ! d) (q_mem q ! a))]) }) = Some r"
  then show "dispatch lib ctrl p j (put_slot i v q) dsps = Some (case r of (j', q', dsps') \<Rightarrow> (j', put_slot i v q', dsps'))"
    by (subst dispatch.simps) (auto simp: put_slot_swap split: option.splits bind_splits)
qed

lemma exchange_slot_put:
  assumes "exchange_slot slot q = Some (p, q1)" and "nat (sint slot) \<noteq> i"
  shows "exchange_slot slot (put_slot i v q) = Some (p, put_slot i v q1)"
  using assms by (auto simp: exchange_slot_def slot_at_def put_slot_def list_update_swap split: if_splits)

lemma ctrl_play_slot_put:
  assumes run: "ctrl_play_slot lib n ctrl q dsps = Some (ctrl', q', dsps')"
    and "wf_config q" and "i \<noteq> due_slot q n"
  shows "ctrl_play_slot lib n ctrl (put_slot i v q) dsps = Some (ctrl', put_slot i v q', dsps')"
proof -
  let ?slot = "int_of_u64 ((n div u64_of_int (q_buffer_size q)) AND u64_of_int (q_n_slots q - 1))"
  obtain p q1 j q2 d2 where r: "exchange_slot ?slot q = Some (p, q1)"
    "dispatch lib ctrl p (c_last_dsp ctrl) (q1\<lparr>q_first_fof := p, q_active_cnt := 0\<rparr>) dsps = Some (j, q2, d2)"
    using run by (auto simp: ctrl_play_slot_def Let_def split: if_splits bind_splits)
  have b: "u64_of_int (q_buffer_size q) \<noteq> 0" using assms(2) by (rule wf_config_buffer)
  have ex: "exchange_slot ?slot (put_slot i v q) = Some (p, put_slot i v q1)"
    using r(1) assms(3) due_slot_word [OF assms(2), of n] by (intro exchange_slot_put) simp_all
  have d: "dispatch lib ctrl p (c_last_dsp ctrl) (put_slot i v q1\<lparr>q_first_fof := p, q_active_cnt := 0\<rparr>) dsps
      = Some (j, put_slot i v q2, d2)"
    using dispatch_put [OF r(2), of i v] by (simp add: put_slot_swap)
  show ?thesis
  proof (cases "q_first_fof q2 = None")
    case True
    then show ?thesis using run r ex d b by (simp add: ctrl_play_slot_def Let_def)
  next
    case False
    then obtain q3 where q3: "fof_queue_free_fofs q2 (q_first_fof q2) (q_last_fof q2) = Some q3"
      "q' = q3\<lparr>q_first_fof := None, q_last_fof := None\<rparr>"
      using run r b by (auto simp: ctrl_play_slot_def Let_def split: bind_splits)
    show ?thesis
      using False run r ex d b q3 free_fofs_put [OF q3(1), of i v]
      by (simp add: ctrl_play_slot_def Let_def put_slot_swap)
  qed
qed

lemma ctrl_advance_put:
  assumes "ctrl_advance lib nframes m ts ctrl q dsps = Some (ctrl', q', dsps')"
    and "wf_config q" and "i \<noteq> due_slot q (cycle_frame ctrl m q)"
  shows "ctrl_advance lib nframes m ts ctrl (put_slot i v q) dsps = Some (ctrl', put_slot i v q', dsps')"
proof -
  let ?n = "cycle_frame ctrl m q"
  let ?q2 = "q\<lparr>q_next_frame := cycle_end ctrl nframes m q, q_frame_stamp := m\<rparr>"
  have c: "wf_config ?q2" "i \<noteq> due_slot ?q2 ?n" using assms(2,3) by (simp_all add: wf_config_def due_slot_def)
  have p: "put_slot i v q\<lparr>q_next_frame := e, q_frame_stamp := m\<rparr> = put_slot i v (q\<lparr>q_next_frame := e, q_frame_stamp := m\<rparr>)"
    for e by (simp add: put_slot_swap)
  let ?ctrl1 = "ctrl\<lparr>c_transport_frame := m, c_transport_state := ts\<rparr>"
  let ?sync = "if c_syncronized ctrl = 0 \<or> jfofs_clock_uses_transport (c_clock_source ctrl)
              then do { d \<leftarrow> sync_dsps lib ?ctrl1 ?n (n_clients ctrl) 0 dsps; Some (?ctrl1\<lparr>c_syncronized := 1\<rparr>, d) }
              else Some (?ctrl1, dsps)"
  have adv: "ctrl_advance lib nframes m ts ctrl q dsps = do { (c, d) \<leftarrow> ?sync; ctrl_play_slot lib ?n c ?q2 d }"
    "ctrl_advance lib nframes m ts ctrl (put_slot i v q) dsps
       = do { (c, d) \<leftarrow> ?sync; ctrl_play_slot lib ?n c (put_slot i v ?q2) d }"
    by (simp_all add: ctrl_advance_def Let_def cycle_frame_def cycle_end_def p)
  from assms(1) obtain c d where s: "?sync = Some (c, d)" "ctrl_play_slot lib ?n c ?q2 d = Some (ctrl', q', dsps')"
    unfolding adv(1) by (auto simp only: bind_eq_Some_conv split: prod.splits)
  show ?thesis unfolding adv(2) s(1) using ctrl_play_slot_put [OF s(2) c] by simp
qed

lemma process_cb_put:
  assumes run: "ctrl_client_process_cb lib clk nframes ctrl q dsps = Some (ctrl', q', dsps')"
    and "wf_config q" and "c_active ctrl \<noteq> 0" and "\<not> resync_due clk nframes ctrl q"
    and m: "get_framestamp clk (c_clock_source ctrl) = (m, ts)"
    and "i \<noteq> due_slot q (cycle_frame ctrl m q)"
  shows "ctrl_client_process_cb lib clk nframes ctrl (put_slot i v q) dsps = Some (ctrl', put_slot i v q', dsps')"
proof -
  have "\<not> resync_due clk nframes ctrl (put_slot i v q)"
    using assms(4) by (simp add: resync_due_def ctrl_current_clock_source_def)
  then have "ctrl_client_process_cb lib clk nframes ctrl (put_slot i v q) dsps
      = ctrl_advance lib nframes m ts ctrl (put_slot i v q) dsps"
    using assms(3) m by (intro process_cb_steady_advance)
  moreover have "ctrl_advance lib nframes m ts ctrl q dsps = Some (ctrl', q', dsps')"
    using run process_cb_steady_advance [OF assms(3,4) m, of lib dsps] by simp
  then have "ctrl_advance lib nframes m ts ctrl (put_slot i v q) dsps = Some (ctrl', put_slot i v q', dsps')"
    using assms(2,6) by (rule ctrl_advance_put)
  ultimately show ?thesis by simp
qed

subsection \<open>One audio cycle between the test and the swap\<close>

lemma put_slot_put [simp]: "put_slot i v (put_slot i w q) = put_slot i v q"
  by (simp add: put_slot_def)

lemma put_slot_same: "q_slot q ! i = v \<Longrightarrow> put_slot i v q = q"
  by (auto simp: put_slot_def)

lemma chain_head: "chain h p xs \<Longrightarrow> p = (case xs of [] \<Rightarrow> None | x # ys \<Rightarrow> Some x)"
  by (cases xs) auto

text \<open>A swap that finds the head it expects succeeds.\<close>

lemma add_from_swap_ok:
  assumes "sint (p_slot p) = int i" and "i < length (q_slot q)" and "q_slot q ! i = p_head p"
    and "p_fof p = Some a" and "load_next (Some a) q = Some (p_head p)"
  shows "add_from_swap p q = Some (JFOFS_SUCCESS, [Incr_Slot (p_idx p)], put_slot i (Some a) q)"
  using assms by (simp add: add_from_swap_def cas_slot_def slot_at_def put_slot_def)

lemma target_slot_not_due:
  assumes "wf_config q" and "unat (q_next_frame q) + buf_size q \<le> sf"
    and "sf < unat (q_next_frame q) + n_slots q * buf_size q"
  shows "target_slot q sf \<noteq> due_slot q (q_next_frame q)"
proof -
  let ?n = "n_slots q" and ?k = "(sf - unat (q_next_frame q)) div buf_size q"
  have b: "0 < buf_size q" by (rule wf_config_pos(2) [OF assms(1)])
  have "0 < ?k" using assms(2) b by (simp add: div_greater_zero_iff)
  moreover have "?k < ?n" using assms(2,3) b by (simp add: less_mult_imp_div_less)
  ultimately have "(d + ?k) mod ?n \<noteq> (d + 0) mod ?n" for d
    using mod_shift_inj [of ?k ?n 0 d] by (metis less_trans neq0_conv)
  then show ?thesis by (simp add: target_slot_def slot_of_def due_slot_def add.commute)
qed

text \<open>The head of a slot and the cell it links to, by the slot's list.\<close>

lemma slot_head:
  assumes "wf_queue q" and "i < length (q_slot q)"
  shows "q_slot q ! i = (case slot_lists q ! i of [] \<Rightarrow> None | x # xs \<Rightarrow> Some x)"
  using wf_queueD(3) [OF assms(1)] assms(2) chain_head [of "nexts q" "q_slot q ! i" "slot_lists q ! i"]
  by (simp add: list_all2_nthD owns_def)

lemma slot_head_links:
  assumes "wf_queue q" and "i < length (q_slot q)" and "slot_lists q ! i = a # xs"
  shows "load_next (Some a) q = Some (case xs of [] \<Rightarrow> None | x # ys \<Rightarrow> Some x)"
proof -
  note o = wf_queueD(3) [OF assms(1)]
  have "chain (nexts q) (q_slot q ! i) (a # xs)" using o assms(2,3) by (metis list_all2_nthD owns_def)
  then have n: "nexts q a = (case xs of [] \<Rightarrow> None | x # ys \<Rightarrow> Some x)" by (auto dest: chain_head)
  have "i < length (slot_lists q)" using o assms(2) by (metis list_all2_lengthD owns_def)
  then have "a \<in> set (concat (slot_lists q))" using assms(3) by (metis UN_I list.set_intros(1) nth_mem set_concat)
  then have "a < length (q_mem q)" using owns_range(2) [OF o] by auto
  then show ?thesis using n by (simp add: load_next_def nexts_def)
qed

lemma at_swap_undo: "at_swap q p i a q1 qA \<Longrightarrow> put_slot i (p_head p) qA = q1"
  using put_slot_same [of q1 i "p_head p"] by (simp add: at_swap_def)

lemma at_swap_done:
  assumes "at_swap q p i a q1 qA" and "wf_queue q" and "wf_queue q3" and "i < length (q_slot q3)"
    and "slot_lists q3 ! i = a # slot_lists q ! i"
  shows "add_from_swap p (put_slot i (p_head p) q3) = Some (JFOFS_SUCCESS, [Incr_Slot (p_idx p)], q3)"
proof -
  note at = at_swapD [OF assms(1)]
  have "load_next (Some a) q3 = Some (p_head p)"
    using slot_head_links [OF assms(3-5)] slot_head [OF assms(2) at(4)] at(6) by simp
  then have "add_from_swap p (put_slot i (p_head p) q3)
      = Some (JFOFS_SUCCESS, [Incr_Slot (p_idx p)], put_slot i (Some a) (put_slot i (p_head p) q3))"
    using assms(4) at(1,3) by (intro add_from_swap_ok) (simp_all, simp_all add: put_slot_def)
  moreover have "put_slot i (Some a) q3 = q3"
    using slot_head [OF assms(3,4)] assms(5) by (intro put_slot_same) simp
  ultimately show ?thesis by simp
qed

text \<open>
  In the fast lane, and up to a whole buffer ahead, an audio cycle that runs between the test of
  \<open>next_frame\<close> and the compare-and-swap does no harm: the addition still succeeds, and the queue,
  the control client and the dsp clients are in the very state they are in when the fof is added
  before the cycle. (JACK's frame time, no clock change pending, a free cell, any cycle length.)
\<close>

lemma cycle_during_fast_lane_linearizes:
  assumes "wf_queue q" and "free_list q \<noteq> []" and "wf_ctrl ctrl dsps" and "c_active ctrl \<noteq> 0"
    and "\<not> resync_due clk nframes ctrl q" and "\<not> jfofs_clock_uses_transport (c_clock_source ctrl)"
    and "unat (q_next_frame q) + buf_size q \<le> start_frame q t"
    and "start_frame q t < unat (q_next_frame q) + n_slots q * buf_size q"
  shows "\<exists>p q1 ctrl' q2 dsps' q3 qA.
    add_until_swap q t args = Some (Inr (p, q1)) \<and>
    ctrl_client_process_cb lib clk nframes ctrl q1 dsps = Some (ctrl', q2, dsps') \<and>
    add_from_swap p q2 = Some (JFOFS_SUCCESS, [Incr_Slot (p_idx p)], q3) \<and>
    fof_queue_add q t args = Some (JFOFS_SUCCESS, [Incr_Slot (p_idx p)], qA) \<and>
    ctrl_client_process_cb lib clk nframes ctrl qA dsps = Some (ctrl', q3, dsps')"
proof -
  note w = wf_queueD [OF assms(1)]
  let ?i = "target_slot q (start_frame q t)"
  have win: "in_window q (start_frame q t)" using assms(7,8) by (simp add: in_window_def)
  obtain p q1 qA a where u: "add_until_swap q t args = Some (Inr (p, q1))" "at_swap q p ?i a q1 qA"
    "fof_queue_add q t args = Some (JFOFS_SUCCESS, [Incr_Slot (p_idx p)], qA)"
    "wf_queue qA" "slot_lists qA = (slot_lists q)[?i := a # slot_lists q ! ?i]" "q_frame qA = q_frame q"
    by (rule add_reaches_swap [OF assms(1,2) win])
  note fA = q_frame_eq [OF u(6)]
  note i = at_swapD(4) [OF u(2)]
  have nd: "?i \<noteq> due_slot qA (q_next_frame qA)"
    using target_slot_not_due [OF w(1) assms(7,8)] fA by (simp add: due_slot_def)
  have ns: "\<not> resync_due clk nframes ctrl qA"
    using assms(5) fA by (simp add: resync_due_def ctrl_current_clock_source_def)
  obtain m ts where m: "get_framestamp clk (c_clock_source ctrl) = (m, ts)" by fastforce
  have n: "cycle_frame ctrl m qA = q_next_frame qA" using assms(6) by (simp add: cycle_frame_def)
  obtain ctrl' q3 dsps' where r: "ctrl_client_process_cb lib clk nframes ctrl qA dsps = Some (ctrl', q3, dsps')"
    "wf_queue q3" "cycled [] qA (due_slot qA (q_next_frame qA)) (cycle_end ctrl nframes m qA) m q3"
    using process_cb_steady [OF u(4) assms(3,4) ns m, of lib] n by (metis (no_types, lifting))
  have "ctrl_client_process_cb lib clk nframes ctrl (put_slot ?i (p_head p) qA) dsps
      = Some (ctrl', put_slot ?i (p_head p) q3, dsps')"
    by (rule process_cb_put [OF r(1) _ assms(4) ns m]) (use fA w(1) nd n in simp_all)
  moreover have "add_from_swap p (put_slot ?i (p_head p) q3) = Some (JFOFS_SUCCESS, [Incr_Slot (p_idx p)], q3)"
    using r(3) u(5) nd i w(4,5) fA wf_queueD(5) [OF r(2)]
    by (intro at_swap_done [OF u(2) assms(1) r(2)]) (simp_all add: cycled_def)
  ultimately show ?thesis using u(1,3) r(1) at_swap_undo [OF u(2)] by auto
qed

subsection \<open>The end of the call\<close>

lemma wf_held_set_next:
  assumes "wf_held (a # out) q"
  shows "wf_held (a # out) (set_next a v q)" "slot_lists (set_next a v q) = slot_lists q"
    "excess_list (set_next a v q) = excess_list q" "free_list (set_next a v q) = free_list q"
proof -
  note w = wf_queueD [OF assms]
  note o = owns_set_next [OF w(3), of v]
  show "wf_held (a # out) (set_next a v q)"
    using w(1,2) o by (intro wf_queueI) (simp_all add: wf_config_def cache_ok_def)
  show "slot_lists (set_next a v q) = slot_lists q" "excess_list (set_next a v q) = excess_list q"
    "free_list (set_next a v q) = free_list q"
    using owns_lists [OF o] by simp_all
qed

text \<open>\<open>given_back a q q'\<close>: the call has put its cell back on the free list.\<close>

definition given_back :: "nat \<Rightarrow> fof_queue \<Rightarrow> fof_queue \<Rightarrow> bool" where
  "given_back a q q' \<longleftrightarrow> wf_queue q' \<and> free_list q' = a # free_list q \<and> slot_lists q' = slot_lists q \<and>
     excess_list q' = excess_list q \<and> event_at q' = event_at q \<and> q_frame q' = q_frame q"

lemma free_held:
  assumes "wf_held [a] q"
  obtains q' where "fof_queue_free_fof q (Some a) = Some q'" "given_back a q q'"
    "\<forall>sf nf. sf < nf \<longrightarrow> add_recalculate (Some a) sf nf q = Some (JFOFS_FOF_LATE_WARNING, [Incr_Late], q')"
proof -
  note w = wf_queueD [OF assms]
  let ?q1 = "q\<lparr>q_free_cnt := q_free_cnt q + 1\<rparr>"
  let ?q' = "(set_next a (q_free_fofs ?q1) ?q1)\<lparr>q_free_fofs := Some a\<rparr>"
  have a: "a < length (q_mem q)" using owns_range(4) [OF w(3)] by simp
  have "owns (set_next a (q_free_fofs q) ?q1) (free_list q) (slot_lists q) (excess_list q) [a]"
    using w(3) by (intro owns_set_next) (simp_all add: owns_cong [of ?q1 q])
  then have o: "owns ?q' (a # free_list q) (slot_lists q) (excess_list q) []"
    using a by (auto simp: owns_def)
  have "wf_queue ?q'" using w(1,2) o by (intro wf_queueI) (simp_all add: wf_config_def cache_ok_def)
  then have "given_back a q ?q'" using owns_lists [OF o] by (simp add: given_back_def q_frame_def)
  then show thesis using a by (intro that [of ?q']) (simp_all add: free_fof_eq add_recalculate_late)
qed

lemma given_back_set_next: "wf_held [a] q \<Longrightarrow> given_back a (set_next a v q) q' \<Longrightarrow> given_back a q q'"
  using wf_held_set_next [of a "[]" q v] by (simp add: given_back_def q_frame_def)

text \<open>A swap that finds its slot played is refused, whatever the lane; the cell is given back.\<close>

lemma swap_refused:
  assumes "p_fof p = Some a" and "sint (p_slot p) = int i" and "i < length (q_slot q)"
    and "wf_held [a] q" and "q_slot q ! i = None" and "p_head p \<noteq> None" and "nexts q a = p_head p"
    and "p_start p < q_next_frame q" and "q_next_frame q \<noteq> p_next_frame p"
  obtains q' where "add_from_swap p q = Some (JFOFS_FOF_LATE_WARNING, [Incr_Late], q')" "given_back a q q'"
proof -
  have a: "a < length (q_mem q)" using owns_range(4) [OF wf_queueD(3) [OF assms(4)]] by simp
  obtain h where "p_head p = Some h" using assms(6) by blast
  then have cas: "cas_slot (p_slot p) (p_head p) (Some a) q = Some (False, q)"
    using assms(2,3,5) by (simp add: cas_slot_def slot_at_def)
  show thesis
  proof (cases "p_fast p")
    case False
    obtain q' where f: "fof_queue_free_fof q (Some a) = Some q'" "given_back a q q'" by (rule free_held [OF assms(4)])
    then have "add_from_swap p q = Some (JFOFS_FOF_LATE_WARNING, [Incr_Late], q')"
      using False cas assms(1) by (simp add: add_from_swap_def)
    then show thesis using f(2) by (rule that)
  next
    case True
    let ?q1 = "set_next a None q" and ?q2 = "set_next a None (set_next a None q)"
    have w: "wf_held [a] ?q2" using assms(4) by (intro wf_held_set_next)
    obtain q' where f: "fof_queue_free_fof ?q2 (Some a) = Some q'" "given_back a ?q2 q'" "\<forall>sf nf. sf < nf \<longrightarrow>
        add_recalculate (Some a) sf nf ?q2 = Some (JFOFS_FOF_LATE_WARNING, [Incr_Late], q')"
      by (rule free_held [OF w])
    have "add_fast_lane (Some a) (p_next_frame p) (p_slot p) ?q1 = Some (Some (q_next_frame q), ?q2)"
      using a assms(2,3,5,9) by (subst add_fast_lane.simps) (simp add: load_slot_def slot_at_def)
    then have "add_from_swap p q = Some (JFOFS_FOF_LATE_WARNING, [Incr_Late], q')"
      using True cas a assms(1,2,3,5,7,8) f(3) by (simp add: add_from_swap_def load_slot_def slot_at_def)
    moreover have "given_back a q q'"
      using f(2) by (intro given_back_set_next [OF assms(4)] given_back_set_next [OF wf_held_set_next(1) [OF assms(4)]])
    ultimately show thesis by (rule that)
  qed
qed

text \<open>A swap into an empty slot that was empty at the test succeeds, whatever has gone by.\<close>

lemma swap_into_empty:
  assumes "at_swap q0 p i a q1 qA" and "wf_held [a] q" and "i < length (q_slot q)" and "slot_lists q ! i = []"
    and "p_head p = None" and "nexts q a = None"
  obtains q' where "add_from_swap p q = Some (JFOFS_SUCCESS, [Incr_Slot (p_idx p)], q')" "wf_queue q'"
    "slot_lists q' = (slot_lists q)[i := [a]]" "event_at q' = event_at q" "q_frame q' = q_frame q"
proof -
  note w = wf_queueD [OF assms(2)] and at = at_swapD [OF assms(1)]
  have a: "a < length (q_mem q)" using owns_range(4) [OF w(3)] by simp
  have "list_all2 (chain (nexts q)) (q_slot q) (slot_lists q)" using w(3) by (simp add: owns_def)
  then have none: "q_slot q ! i = None" using assms(3,4) by (metis chain.simps(1) list_all2_nthD)
  let ?q' = "put_slot i (Some a) q"
  have "set_next a None q = q" using assms(6) by (simp add: set_next_def nexts_def list_update_same_conv a)
  then have "owns ?q' (free_list q) ((slot_lists q)[i := a # slot_lists q ! i]) (excess_list q) []"
    using owns_push_slot [OF w(3) assms(3)] none by (simp add: put_slot_def)
  then have o: "owns ?q' (free_list q) ((slot_lists q)[i := [a]]) (excess_list q) []" using assms(4) by simp
  have "wf_queue ?q'"
    using w(1,2) o by (intro wf_queueI) (simp_all add: wf_config_def cache_ok_def put_slot_def)
  moreover have "add_from_swap p q = Some (JFOFS_SUCCESS, [Incr_Slot (p_idx p)], ?q')"
    using at(1,3) a assms(3,5,6) none by (intro add_from_swap_ok) simp_all
  moreover have "event_at ?q' = event_at q" by (simp add: fun_eq_iff event_at_def)
  moreover have "q_frame ?q' = q_frame q" by (simp add: q_frame_def put_slot_def)
  ultimately show thesis using owns_lists(2) [OF o] by (intro that [of ?q']) simp_all
qed

subsection \<open>One audio cycle in the slow lane\<close>

text \<open>
  In the slow lane the compare-and-swap does not notice an audio cycle that ran after the test of
  \<open>next_frame\<close> when the slot was empty before: the cycle leaves it empty, the swap succeeds and
  the fof is answered with success, but it now lies alone in the slot just played, behind the
  clock, and the cycle has dealt nothing. (Any cycle length.)
\<close>

lemma cycle_during_slow_lane_strands_fof:
  assumes "wf_queue q" and "free_list q \<noteq> []" and "wf_ctrl ctrl dsps" and "c_active ctrl \<noteq> 0"
    and "\<not> resync_due clk nframes ctrl q" and "\<not> jfofs_clock_uses_transport (c_clock_source ctrl)"
    and "unat (q_next_frame q) \<le> start_frame q t" and "start_frame q t < unat (q_next_frame q) + buf_size q"
    and "slot_lists q ! due_slot q (q_next_frame q) = []"
  shows "\<exists>p q1 ctrl' q2 q3.
    add_until_swap q t args = Some (Inr (p, q1)) \<and>
    ctrl_client_process_cb lib clk nframes ctrl q1 dsps = Some (ctrl', q2, cycle_dsps lib ctrl (q_next_frame q) dsps) \<and>
    add_from_swap p q2 = Some (JFOFS_SUCCESS, [Incr_Slot (p_idx p)], q3) \<and>
    wf_queue q3 \<and> q_next_frame q3 = q_next_frame q + ucast nframes \<and>
    map (event_at q3) (slot_lists q3 ! due_slot q (q_next_frame q)) = [(t, args)]"
proof -
  note w = wf_queueD [OF assms(1)]
  let ?i = "due_slot q (q_next_frame q)"
  have tgt: "target_slot q (start_frame q t) = ?i"
    using assms(7,8) by (simp add: target_slot_def slot_of_def due_slot_def)
  have "1 * buf_size q \<le> n_slots q * buf_size q"
    using wf_config_pos(1) [OF w(1)] by (intro mult_le_mono1) simp
  then have "start_frame q t < unat (q_next_frame q) + n_slots q * buf_size q" using assms(8) by linarith
  then have win: "in_window q (start_frame q t)" using assms(7) by (simp add: in_window_def)
  obtain p q1 qA a where u: "add_until_swap q t args = Some (Inr (p, q1))" "at_swap q p ?i a q1 qA"
    "wf_held [a] q1" "slot_lists q1 = slot_lists q" "stored q q1 a t args"
    using add_reaches_swap [OF assms(1,2) win, of args] unfolding tgt by metis
  note at = at_swapD [OF u(2)] and f = q_frame_eq [OF storedD(7) [OF u(5)]]
  have none: "p_head p = None" using slot_head [OF assms(1) at(4)] at(6) assms(9) by simp
  have ns: "\<not> resync_due clk nframes ctrl q1"
    using assms(5) f by (simp add: resync_due_def ctrl_current_clock_source_def)
  obtain m ts where m: "get_framestamp clk (c_clock_source ctrl) = (m, ts)" by fastforce
  have n: "cycle_frame ctrl m q1 = q_next_frame q" "cycle_end ctrl nframes m q1 = q_next_frame q + ucast nframes"
    "due_slot q1 (q_next_frame q) = ?i"
    using assms(6) f by (simp_all add: cycle_frame_def cycle_end_def due_slot_def)
  obtain ctrl' q2 evs where r:
    "spec_cycle (abs_queue q1) (unat (q_next_frame q)) (unat (q_next_frame q + ucast nframes)) = (evs, abs_queue q2)"
    "ctrl_client_process_cb lib clk nframes ctrl q1 dsps
       = Some (ctrl', q2, deal lib (n_clients ctrl) (last_dsp ctrl) evs (cycle_dsps lib ctrl (q_next_frame q) dsps))"
    "wf_held [a] q2" "cycled [a] q1 ?i (q_next_frame q + ucast nframes) m q2"
    by (rule process_cb_steady [OF u(3) assms(3,4) ns m, of lib, unfolded n])
  have "evs = []"
    using r(1) cycled_refines [OF u(3), of "q_next_frame q"] r(4) u(4) assms(9) n(3) by simp
  have l: "?i < length (q_slot q2)" "slot_lists q2 ! ?i = []" "nexts q2 a = None"
    using r(4) wf_queueD(5) [OF r(3)] at(2,4,7) none w(4,5) u(4) assms(9) f by (simp_all add: cycled_def nth_list_update)
  obtain q3 where q3: "add_from_swap p q2 = Some (JFOFS_SUCCESS, [Incr_Slot (p_idx p)], q3)" "wf_queue q3"
    "slot_lists q3 = (slot_lists q2)[?i := [a]]" "event_at q3 = event_at q2" "q_frame q3 = q_frame q2"
    by (rule swap_into_empty [OF u(2) r(3) l(1,2) none l(3)])
  have "event_at q3 a = (t, args)" "q_next_frame q3 = q_next_frame q + ucast nframes"
    using q3(4) q_frame_eq(1) [OF q3(5)] r(4) u(5) by (simp_all add: cycled_def stored_def)
  then show ?thesis
    using u(1) r(2) q3(1-3) l(1) wf_queueD(4,5) [OF r(3)] by (auto simp: \<open>evs = []\<close>)
qed

end
