(* ===== verification/Add_Race_Runs.thy ===== *)
theory Add_Race_Runs
  imports Add_Race Delivery
begin

text \<open>
  \<open>fof_queue_add\<close> against any number of audio cycles: the call is cut between its test of
  \<open>next_frame\<close> and its compare-and-swap, and the audio thread runs cycle after cycle in between.
  Before its slot is played the call is as if made before the cycles; afterwards it is refused as
  late, without any other effect, when the slot held something at the test, and its fof comes a
  whole round of the ring too late when the slot was empty.
\<close>

fun audio_cycles :: "'b fofs_lib \<Rightarrow> jack_clock list \<Rightarrow> 'b engine \<Rightarrow> 'b engine option" where
  "audio_cycles lib [] s = Some s"
| "audio_cycles lib (clk # clks) s = do { s' \<leftarrow> audio_cycle lib clk s; audio_cycles lib clks s' }"

subsection \<open>Cycles while a call holds its cell\<close>

text \<open>\<open>ran out q k q'\<close>: what \<open>k\<close> cycles leave of a queue; the cells \<open>out\<close> are held by calls.\<close>

definition ran :: "nat list \<Rightarrow> fof_queue \<Rightarrow> nat \<Rightarrow> fof_queue \<Rightarrow> bool" where
  "ran out q k q' \<longleftrightarrow> wf_held out q' \<and> unat (q_next_frame q') = unat (q_next_frame q) + k * buf_size q \<and>
     q_buffer_size q' = q_buffer_size q \<and> q_n_slots q' = q_n_slots q \<and> q_sample_rate q' = q_sample_rate q \<and>
     q_clock_source q' = q_clock_source q \<and> event_at q' = event_at q \<and> excess_list q' = excess_list q \<and>
     (\<forall>a\<in>set out. nexts q' a = nexts q a) \<and> length (free_list q) \<le> length (free_list q') \<and>
     (\<forall>j<n_slots q. slot_lists q' ! j =
       (if \<exists>c<k. (unat (q_next_frame q) div buf_size q + c) mod n_slots q = j then [] else slot_lists q ! j))"

definition cycles_before_wrap :: "fof_queue \<Rightarrow> nat" where
  "cycles_before_wrap q = (2 ^ 64 - 1 - unat (q_next_frame q)) div buf_size q"

lemma ran_0: "wf_held out q \<Longrightarrow> ran out q 0 q"
  by (simp add: ran_def)

lemma cycled_frames:
  assumes "cycled out q i (q_next_frame q + ucast (q_buffer_size q)) m q'"
    and "wf_held out q" and "0 < cycles_before_wrap q"
  shows "wf_held out q'" "n_slots q' = n_slots q" "buf_size q' = buf_size q"
    "unat (q_next_frame q') = unat (q_next_frame q) + buf_size q"
    "unat (q_next_frame q') div buf_size q' = Suc (unat (q_next_frame q) div buf_size q)"
    "cycles_before_wrap q' = cycles_before_wrap q - 1"
proof -
  note w = wf_queueD(1) [OF assms(2)]
  note nf = next_cycle_word [OF assms(3) [unfolded cycles_before_wrap_def] buffer_word [OF w]]
  show "wf_held out q'" "n_slots q' = n_slots q" "buf_size q' = buf_size q"
    and f: "unat (q_next_frame q') = unat (q_next_frame q) + buf_size q"
    using assms(1) nf(1) by (simp_all add: cycled_def)
  show "cycles_before_wrap q' = cycles_before_wrap q - 1"
    using assms(1) nf by (simp only: cycles_before_wrap_def cycled_def)
  show "unat (q_next_frame q') div buf_size q' = Suc (unat (q_next_frame q) div buf_size q)"
    using wf_config_pos(2) [OF w] assms(1) unfolding f by (simp only: cycled_def div_add_self2)
qed

lemma ran_Suc:
  assumes "cycled out q (due_slot q (q_next_frame q)) (q_next_frame q + ucast (q_buffer_size q)) m q'"
    and "wf_held out q" and "0 < cycles_before_wrap q" and "ran out q' k q''"
  shows "ran out q (Suc k) q''"
proof -
  let ?n = "n_slots q" and ?d = "unat (q_next_frame q) div buf_size q"
  note c = cycled_frames [OF assms(1-3)]
  have l: "slot_lists q' = (slot_lists q)[?d mod ?n := []]" using assms(1) by (simp add: cycled_def due_slot_def)
  have "slot_lists q'' ! j = (if \<exists>c<Suc k. (?d + c) mod ?n = j then [] else slot_lists q ! j)" if j: "j < ?n" for j
  proof -
    have "(\<exists>c<Suc k. (?d + c) mod ?n = j) \<longleftrightarrow> ?d mod ?n = j \<or> (\<exists>c<k. (Suc ?d + c) mod ?n = j)"
      by (auto simp: less_Suc_eq_0_disj)
    moreover have "slot_lists q'' ! j = (if \<exists>c<k. (Suc ?d + c) mod ?n = j then [] else slot_lists q' ! j)"
      using assms(4) j unfolding ran_def c(5,2) by blast
    moreover have "j < length (slot_lists q)" using j wf_queueD(4) [OF assms(2)] by simp
    ultimately show ?thesis by (auto simp: l nth_list_update)
  qed
  then show ?thesis using assms(1,4) c(3,4) by (simp add: ran_def cycled_def)
qed

lemma held_runs:
  assumes "wf_held out q" and "in_step ctrl q dsps" and "length clks \<le> cycles_before_wrap q"
  obtains ctrl' q' dsps' where "audio_cycles lib clks (ctrl, q, dsps) = Some (ctrl', q', dsps')"
    "ran out q (length clks) q'" "in_step ctrl' q' dsps'"
  using assms
proof (induction clks arbitrary: ctrl q dsps thesis)
  case Nil
  then show ?case by (simp add: ran_0)
next
  case (Cons clk clks)
  obtain ctrl1 q1 dsps1 m where r: "audio_cycle lib clk (ctrl, q, dsps) = Some (ctrl1, q1, dsps1)"
    "cycled out q (due_slot q (q_next_frame q)) (q_next_frame q + ucast (q_buffer_size q)) m q1"
    "in_step ctrl1 q1 dsps1"
    by (rule in_step_cycle [OF Cons.prems(2,3), of lib clk])
  have pos: "0 < cycles_before_wrap q" using Cons.prems(4) by simp
  note c = cycled_frames [OF r(2) Cons.prems(2) pos]
  have left: "length clks \<le> cycles_before_wrap q1" using Cons.prems(4) c(6) by simp
  obtain ctrl' q' dsps' where r': "audio_cycles lib clks (ctrl1, q1, dsps1) = Some (ctrl', q', dsps')"
    "ran out q1 (length clks) q'" "in_step ctrl' q' dsps'"
    by (rule Cons.IH [OF _ c(1) r(3) left])
  show ?case
    using Cons.prems(1) [of ctrl' q' dsps'] r(1) r'(1,3) ran_Suc [OF r(2) Cons.prems(2) pos r'(2)] by simp
qed

text \<open>
  \<open>shadows a q q1\<close>: \<open>q1\<close> is \<open>q\<close> but for cell \<open>a\<close>, which is free in \<open>q\<close> and held by a call in \<open>q1\<close>. Cycles
  keep it so, and everything else they do is the same on both.
\<close>

definition shadows :: "nat \<Rightarrow> fof_queue \<Rightarrow> fof_queue \<Rightarrow> bool" where
  "shadows a q q1 \<longleftrightarrow> wf_queue q \<and> wf_held [a] q1 \<and> slot_lists q1 = slot_lists q \<and> excess_list q1 = excess_list q \<and>
     length (free_list q) = Suc (length (free_list q1)) \<and> (\<forall>c. c \<noteq> a \<longrightarrow> event_at q1 c = event_at q c) \<and>
     q_next_frame q1 = q_next_frame q \<and> q_buffer_size q1 = q_buffer_size q \<and> q_n_slots q1 = q_n_slots q \<and>
     q_sample_rate q1 = q_sample_rate q \<and> q_clock_source q1 = q_clock_source q"

lemma held_not_queued:
  assumes "wf_held (a # out) q"
  shows "a \<notin> set (concat (slot_lists q))" "a \<notin> set (excess_list q)"
  using wf_queueD(3) [OF assms] by (auto simp: owns_def)

lemma shadow_cycle:
  assumes "shadows a q q1" and "in_step ctrl q dsps" and "audio_cycle lib clk (ctrl, q, dsps) = Some (ctrl', q', dsps')"
  obtains q1' where "audio_cycle lib clk (ctrl, q1, dsps) = Some (ctrl', q1', dsps')" "shadows a q' q1'"
    "in_step ctrl' q' dsps'"
proof -
  note sh = assms(1) [unfolded shadows_def]
  have wf: "wf_queue q" "wf_held [a] q1" using sh by simp_all
  have step1: "in_step ctrl q1 dsps" using assms(2) sh by (simp add: in_step_def ctrl_current_clock_source_def)
  have i: "due_slot q1 (q_next_frame q1) = due_slot q (q_next_frame q)" using sh by (simp add: due_slot_def)
  have "due_slot q (q_next_frame q) < length (slot_lists q)"
    using due_slot_less [OF wf_queueD(1) [OF wf(1)]] wf_queueD(4) [OF wf(1)] by simp
  then have "a \<notin> set (slot_lists q ! due_slot q (q_next_frame q))"
    using held_not_queued(1) [OF wf(2)] sh by auto
  then have evs: "map (event_at q1) (slot_lists q ! due_slot q (q_next_frame q))
      = map (event_at q) (slot_lists q ! due_slot q (q_next_frame q))"
    using sh by (intro map_cong) auto
  obtain q0 where r: "audio_cycle lib clk (ctrl, q, dsps) = Some (ctrl', q0, dsps')"
    "cycled [] q (due_slot q (q_next_frame q)) (q_next_frame q + ucast (q_buffer_size q))
       (fst (get_framestamp clk (c_clock_source ctrl))) q0" "in_step ctrl' q0 dsps'"
    and c: "ctrl' = stepped clk ctrl (length (slot_lists q ! due_slot q (q_next_frame q)))"
      "dsps' = deal lib (n_clients ctrl) (last_dsp ctrl)
         (map (event_at q) (slot_lists q ! due_slot q (q_next_frame q))) (cycle_dsps lib ctrl (q_next_frame q) dsps)"
    by (rule in_step_cycle [OF wf(1) assms(2), of lib clk]) (use assms(3) in auto)
  obtain q1' where r1: "audio_cycle lib clk (ctrl, q1, dsps) = Some (ctrl', q1', dsps')"
    "cycled [a] q1 (due_slot q (q_next_frame q)) (q_next_frame q + ucast (q_buffer_size q))
       (fst (get_framestamp clk (c_clock_source ctrl))) q1'"
    by (rule in_step_cycle [OF wf(2) step1, of lib clk, unfolded i]) (use sh evs c in simp)
  have "shadows a q' q1'"
    using assms(3) r r1(2) sh by (auto simp: shadows_def cycled_def)
  then show thesis using that r1(1) r(1,3) assms(3) by simp
qed

lemma shadow_runs:
  assumes "shadows a q q1" and "in_step ctrl q dsps" and "audio_cycles lib clks (ctrl, q, dsps) = Some (ctrl', q', dsps')"
  obtains q1' where "audio_cycles lib clks (ctrl, q1, dsps) = Some (ctrl', q1', dsps')" "shadows a q' q1'"
  using assms
proof (induction clks arbitrary: ctrl q q1 dsps thesis)
  case Nil
  then show ?case by simp
next
  case (Cons clk clks)
  from Cons.prems(4) obtain c1 q2 d1 where r: "audio_cycle lib clk (ctrl, q, dsps) = Some (c1, q2, d1)"
    "audio_cycles lib clks (c1, q2, d1) = Some (ctrl', q', dsps')"
    by (auto split: bind_splits)
  obtain q3 where s: "audio_cycle lib clk (ctrl, q1, dsps) = Some (c1, q3, d1)" "shadows a q2 q3" "in_step c1 q2 d1"
    by (rule shadow_cycle [OF Cons.prems(2,3) r(1)])
  obtain q1' where "audio_cycles lib clks (c1, q3, d1) = Some (ctrl', q1', dsps')" "shadows a q' q1'"
    by (rule Cons.IH [OF _ s(2,3) r(2)])
  then show ?case using Cons.prems(1) s(1) by simp
qed

lemma shadow_given_back:
  assumes "shadows a q q1" and "given_back a q1 q2"
  shows "abs_queue q2 = abs_queue q"
proof -
  note sh = assms(1) [unfolded shadows_def]
  have ne: "c \<noteq> a" if "c \<in> set (concat (slot_lists q)) \<union> set (excess_list q)" for c
    using held_not_queued [of a "[]" q1] sh that by auto
  have "map (map (event_at q1)) (slot_lists q) = map (map (event_at q)) (slot_lists q)"
    using sh ne by (intro map_cong refl) auto
  moreover have "map (event_at q1) (excess_list q) = map (event_at q) (excess_list q)"
    using sh ne by (intro map_cong refl) auto
  ultimately show ?thesis using sh assms(2) by (simp add: abs_queue_def given_back_def q_frame_def)
qed

subsection \<open>Cycles that do not look at the slot\<close>

lemma put_cycle:
  assumes "wf_queue q" and "in_step ctrl q dsps" and "i \<noteq> due_slot q (q_next_frame q)"
    and run: "audio_cycle lib clk (ctrl, q, dsps) = Some (ctrl', q', dsps')"
  shows "audio_cycle lib clk (ctrl, put_slot i v q, dsps) = Some (ctrl', put_slot i v q', dsps')"
proof -
  obtain m ts where m: "get_framestamp clk (c_clock_source ctrl) = (m, ts)" by fastforce
  have "cycle_frame ctrl m q = q_next_frame q" using in_step_clock [OF assms(2)] by (simp add: cycle_frame_def)
  moreover have "c_active ctrl \<noteq> 0" using assms(2) by (simp add: in_step_def)
  ultimately show ?thesis
    using process_cb_put [OF _ wf_queueD(1) [OF assms(1)] _ in_step_no_resync [OF assms(2)] m] run assms(3)
    by (simp add: audio_cycle_def)
qed

lemma put_runs:
  assumes "wf_queue q" and "in_step ctrl q dsps" and "length clks \<le> cycles_before_wrap q"
    and "\<forall>c<length clks. (unat (q_next_frame q) div buf_size q + c) mod n_slots q \<noteq> i"
    and "audio_cycles lib clks (ctrl, q, dsps) = Some (ctrl', q', dsps')"
  shows "audio_cycles lib clks (ctrl, put_slot i v q, dsps) = Some (ctrl', put_slot i v q', dsps')"
  using assms
proof (induction clks arbitrary: ctrl q dsps)
  case Nil
  then show ?case by simp
next
  case (Cons clk clks)
  obtain ctrl1 q1 dsps1 m where r: "audio_cycle lib clk (ctrl, q, dsps) = Some (ctrl1, q1, dsps1)"
    "cycled [] q (due_slot q (q_next_frame q)) (q_next_frame q + ucast (q_buffer_size q)) m q1"
    "in_step ctrl1 q1 dsps1"
    by (rule in_step_cycle [OF Cons.prems(1,2), of lib clk])
  have pos: "0 < cycles_before_wrap q" using Cons.prems(3) by simp
  note c = cycled_frames [OF r(2) Cons.prems(1) pos]
  have left: "length clks \<le> cycles_before_wrap q1" using Cons.prems(3) c(6) by simp
  have due: "i \<noteq> due_slot q (q_next_frame q)"
    using Cons.prems(4) by (auto simp: due_slot_def dest: spec [of _ 0])
  have "\<forall>c<length clks. (unat (q_next_frame q1) div buf_size q1 + c) mod n_slots q1 \<noteq> i"
    unfolding c(5,2) using Cons.prems(4) by (auto dest: spec [of _ "Suc _"])
  note rest = Cons.IH [OF c(1) r(3) left this]
  show ?case
    using put_cycle [OF Cons.prems(1,2) due r(1), of v] rest Cons.prems(5) r(1) by simp
qed

subsection \<open>The call and the cycles\<close>

lemma target_distance:
  assumes "wf_config q" and "unat (q_next_frame q) \<le> sf" and "sf < unat (q_next_frame q) + n_slots q * buf_size q"
  defines "d \<equiv> (sf - unat (q_next_frame q)) div buf_size q"
  shows "target_slot q sf = (unat (q_next_frame q) div buf_size q + d) mod n_slots q" "d < n_slots q"
    "unat (q_next_frame q) + d * buf_size q \<le> sf" "sf < unat (q_next_frame q) + Suc d * buf_size q"
    "(\<exists>c<k. (unat (q_next_frame q) div buf_size q + c) mod n_slots q = target_slot q sf) \<longleftrightarrow> d < k"
proof -
  let ?n = "n_slots q" and ?b = "buf_size q" and ?x = "sf - unat (q_next_frame q)" and ?d0 = "unat (q_next_frame q) div buf_size q"
  have b: "0 < ?b" by (rule wf_config_pos(2) [OF assms(1)])
  show t: "target_slot q sf = (?d0 + d) mod ?n" by (simp add: target_slot_def slot_of_def d_def add.commute)
  show dn: "d < ?n" using assms(2,3) b by (simp add: d_def less_mult_imp_div_less)
  have "d * ?b \<le> ?x" by (simp add: d_def div_times_less_eq_dividend)
  then show "unat (q_next_frame q) + d * ?b \<le> sf" using assms(2) by simp
  have "?x < Suc d * ?b" using b unfolding d_def by (simp add: dividend_less_div_times)
  then show "sf < unat (q_next_frame q) + Suc d * ?b" using assms(2) by simp
  show "(\<exists>c<k. (?d0 + c) mod ?n = target_slot q sf) \<longleftrightarrow> d < k"
  proof
    assume "\<exists>c<k. (?d0 + c) mod ?n = target_slot q sf"
    then obtain c where c: "c < k" "(?d0 + c) mod ?n = (?d0 + d) mod ?n" unfolding t by blast
    show "d < k"
    proof (cases "c < ?n")
      case True
      then have "c = d" using mod_shift_inj [of c ?n d ?d0] c(2) dn by blast
      then show ?thesis using c(1) by simp
    next
      case False
      then show ?thesis using dn c(1) by linarith
    qed
  next
    assume "d < k"
    then show "\<exists>c<k. (?d0 + c) mod ?n = target_slot q sf" unfolding t by blast
  qed
qed

lemma pending_iff_slot:
  assumes "wf_queue q" and "k < n_slots q"
  shows "engine_pending (ctrl, q, dsps) k
    = map (event_at q) (slot_lists q ! ((unat (q_next_frame q) div buf_size q + k) mod n_slots q))"
  using wf_queueD(4) [OF assms(1)] assms(2) by (simp add: engine_pending_def ring_pending_def)

text \<open>
  C8: as long as the slot of the fof has not been played, any number of audio cycles between the
  test of \<open>next_frame\<close> and the compare-and-swap do no harm: the addition succeeds, and the queue,
  the control client and the dsp clients are in the very state they are in when the fof is added
  before the first of these cycles.
\<close>

theorem cycles_before_slot_linearize:
  assumes "engine_inv (ctrl, q, dsps)" and "free_list q \<noteq> []"
    and "unat (q_next_frame q) + length clks * buf_size q \<le> start_frame q t"
    and "start_frame q t < unat (q_next_frame q) + n_slots q * buf_size q"
  shows "\<exists>p q1 ctrl' q2 dsps' q3 qA.
    add_until_swap q t args = Some (Inr (p, q1)) \<and>
    audio_cycles lib clks (ctrl, q1, dsps) = Some (ctrl', q2, dsps') \<and>
    add_from_swap p q2 = Some (JFOFS_SUCCESS, [Incr_Slot (p_idx p)], q3) \<and>
    fof_queue_add q t args = Some (JFOFS_SUCCESS, [Incr_Slot (p_idx p)], qA) \<and>
    audio_cycles lib clks (ctrl, qA, dsps) = Some (ctrl', q3, dsps')"
proof -
  have inv: "wf_queue q" "in_step ctrl q dsps" using assms(1) by (simp_all add: engine_inv_def)
  let ?sf = "start_frame q t" and ?i = "target_slot q (start_frame q t)"
  have le: "unat (q_next_frame q) \<le> ?sf" using assms(3) by linarith
  have win: "in_window q ?sf" using le assms(4) by (simp add: in_window_def)
  obtain p q1 qA a where u: "add_until_swap q t args = Some (Inr (p, q1))" "at_swap q p ?i a q1 qA"
    "fof_queue_add q t args = Some (JFOFS_SUCCESS, [Incr_Slot (p_idx p)], qA)"
    "wf_queue qA" "slot_lists qA = (slot_lists q)[?i := a # slot_lists q ! ?i]" "q_frame qA = q_frame q"
    by (rule add_reaches_swap [OF inv(1) assms(2) win])
  note f = q_frame_eq [OF u(6)] and c = wf_queueD(1) [OF inv(1)]
  note d = target_distance [OF c le assms(4)] and b = wf_config_pos(2) [OF c]
  have "length clks * buf_size q \<le> ?sf - unat (q_next_frame q)" using assms(3) by linarith
  then have "length clks \<le> (?sf - unat (q_next_frame q)) div buf_size q"
    using b by (simp add: less_eq_div_iff_mult_less_eq)
  then have away: "\<not> (\<exists>k<length clks. (unat (q_next_frame q) div buf_size q + k) mod n_slots q = ?i)"
    unfolding d(5) by simp
  have "?sf < 4294967296" using start_frame_less [of q t] by simp
  then have "length clks * buf_size q \<le> 18446744073709551615 - unat (q_next_frame q)"
    using assms(3) by linarith
  then have left: "length clks \<le> cycles_before_wrap qA"
    using b by (simp add: cycles_before_wrap_def f less_eq_div_iff_mult_less_eq)
  have step: "in_step ctrl qA dsps" using inv(2) f by (simp add: in_step_def ctrl_current_clock_source_def)
  obtain ctrl' q3 dsps' where r: "audio_cycles lib clks (ctrl, qA, dsps) = Some (ctrl', q3, dsps')"
    "ran [] qA (length clks) q3"
    by (rule held_runs [OF u(4) step left])
  have "audio_cycles lib clks (ctrl, put_slot ?i (p_head p) qA, dsps) = Some (ctrl', put_slot ?i (p_head p) q3, dsps')"
    using away f by (intro put_runs [OF u(4) step left _ r(1)]) simp
  moreover have "add_from_swap p (put_slot ?i (p_head p) q3) = Some (JFOFS_SUCCESS, [Incr_Slot (p_idx p)], q3)"
  proof (rule at_swap_done [OF u(2) inv(1)])
    have i: "?i < n_slots q" using at_swapD(4) [OF u(2)] wf_queueD(5) [OF inv(1)] by simp
    show w3: "wf_queue q3" using r(2) by (simp add: ran_def)
    show "?i < length (q_slot q3)" using wf_queueD(5) [OF w3] r(2) i f by (simp add: ran_def)
    show "slot_lists q3 ! ?i = a # slot_lists q ! ?i"
      using r(2) away f u(5) i wf_queueD(4) [OF inv(1)] unfolding ran_def by auto
  qed
  ultimately show ?thesis using u(1,3) r(1) at_swap_undo [OF u(2)] by auto
qed

text \<open>What the cycles leave when the slot has been played: it is empty, and the clock is past the fof.\<close>

lemma cycles_past_slot:
  assumes inv: "wf_queue q" "in_step ctrl q dsps" and free: "free_list q \<noteq> []"
    and le: "unat (q_next_frame q) \<le> start_frame q t"
    and lt: "start_frame q t < unat (q_next_frame q) + n_slots q * buf_size q"
    and k: "(start_frame q t - unat (q_next_frame q)) div buf_size q < length clks" "length clks \<le> cycles_before_wrap q"
  defines "i \<equiv> target_slot q (start_frame q t)"
  obtains p q1 qA a ctrl' q2 dsps' where "add_until_swap q t args = Some (Inr (p, q1))" "at_swap q p i a q1 qA"
    "audio_cycles lib clks (ctrl, q1, dsps) = Some (ctrl', q2, dsps')" "ran [a] q1 (length clks) q2"
    "in_step ctrl' q2 dsps'" "shadows a q q1" "stored q q1 a t args" "slot_lists q2 ! i = []" "q_slot q2 ! i = None"
    "i < n_slots q2" "nexts q2 a = p_head p" "p_start p < q_next_frame q2" "q_next_frame q2 \<noteq> p_next_frame p"
proof -
  let ?sf = "start_frame q t"
  have win: "in_window q ?sf" using le lt by (simp add: in_window_def)
  obtain p q1 qA a where u: "add_until_swap q t args = Some (Inr (p, q1))" "at_swap q p i a q1 qA"
    "p_start p = ucast (jfofs_time_to_nframes t (q_sample_rate q))" "p_next_frame p = q_next_frame q"
    "wf_held [a] q1" "free_list q = a # free_list q1" "slot_lists q1 = slot_lists q"
    "excess_list q1 = excess_list q" "stored q q1 a t args"
    unfolding i_def by (rule add_reaches_swap [OF inv(1) free win])
  note f = q_frame_eq [OF storedD(7) [OF u(9)]] and c = wf_queueD(1) [OF inv(1)]
  note d = target_distance [OF c le lt, folded i_def]
  have sh: "shadows a q q1" using inv(1) u(5-9) f by (simp add: shadows_def stored_def)
  have step: "in_step ctrl q1 dsps" using inv(2) f by (simp add: in_step_def ctrl_current_clock_source_def)
  have left: "length clks \<le> cycles_before_wrap q1" using k(2) f by (simp add: cycles_before_wrap_def)
  obtain ctrl' q2 dsps' where r: "audio_cycles lib clks (ctrl, q1, dsps) = Some (ctrl', q2, dsps')"
    "ran [a] q1 (length clks) q2" "in_step ctrl' q2 dsps'"
    by (rule held_runs [OF u(5) step left])
  note w2 = wf_queueD [OF conjunct1 [OF r(2) [unfolded ran_def]]]
  have i: "i < n_slots q" using at_swapD(4) [OF u(2)] wf_queueD(5) [OF inv(1)] by simp
  then have i2: "i < n_slots q2" using r(2) f by (simp add: ran_def)
  have empty: "slot_lists q2 ! i = []"
    using r(2) i f d(5) [of "length clks"] k(1) unfolding ran_def by auto
  have "list_all2 (chain (nexts q2)) (q_slot q2) (slot_lists q2)" using w2(3) by (simp add: owns_def)
  then have none: "q_slot q2 ! i = None" using empty i2 w2(5) by (metis chain.simps(1) list_all2_nthD)
  have "nexts q2 a = nexts q1 a" using r(2) by (simp add: ran_def)
  moreover have "nexts q1 a = p_head p" using at_swapD(2,7) [OF u(2)] by simp
  ultimately have head: "nexts q2 a = p_head p" by simp
  have "Suc ((?sf - unat (q_next_frame q)) div buf_size q) * buf_size q \<le> length clks * buf_size q"
    using k(1) by (intro mult_le_mono1) simp
  then have "?sf < unat (q_next_frame q2)" using d(4) r(2) f by (simp add: ran_def)
  then have late: "p_start p < q_next_frame q2" by (simp only: u(3) word_less_nat_alt unat_start_frame)
  have "q_next_frame q2 \<noteq> p_next_frame p"
    using \<open>?sf < unat (q_next_frame q2)\<close> le unfolding u(4) by auto
  then show thesis using that u(1,2,9) r sh empty none i2 head late by blast
qed

text \<open>
  C9: when the slot held a fof at the test and has been played before the compare-and-swap, the
  call is refused as late in either lane and has no effect: the cycles did what they do without
  it, and the queue is the same as then.
\<close>

theorem cycles_past_slot_refuse_fof:
  assumes "engine_inv (ctrl, q, dsps)" and "free_list q \<noteq> []"
    and "unat (q_next_frame q) \<le> start_frame q t"
    and "start_frame q t < unat (q_next_frame q) + n_slots q * buf_size q"
    and "(start_frame q t - unat (q_next_frame q)) div buf_size q < length clks"
    and "length clks \<le> cycles_before_wrap q"
    and "engine_pending (ctrl, q, dsps) ((start_frame q t - unat (q_next_frame q)) div buf_size q) \<noteq> []"
  shows "\<exists>p q1 ctrl' q2 dsps' q3 qB.
    add_until_swap q t args = Some (Inr (p, q1)) \<and>
    audio_cycles lib clks (ctrl, q1, dsps) = Some (ctrl', q2, dsps') \<and>
    add_from_swap p q2 = Some (JFOFS_FOF_LATE_WARNING, [Incr_Late], q3) \<and>
    audio_cycles lib clks (ctrl, q, dsps) = Some (ctrl', qB, dsps') \<and>
    wf_queue q3 \<and> abs_queue q3 = abs_queue qB"
proof -
  have inv: "wf_queue q" "in_step ctrl q dsps" using assms(1) by (simp_all add: engine_inv_def)
  note d = target_distance [OF wf_queueD(1) [OF inv(1)] assms(3,4)]
  let ?i = "target_slot q (start_frame q t)"
  obtain p q1 qA a ctrl' q2 dsps' where r: "add_until_swap q t args = Some (Inr (p, q1))" "at_swap q p ?i a q1 qA"
    "audio_cycles lib clks (ctrl, q1, dsps) = Some (ctrl', q2, dsps')" "ran [a] q1 (length clks) q2"
    "shadows a q q1" "q_slot q2 ! ?i = None" "?i < n_slots q2" "nexts q2 a = p_head p"
    "p_start p < q_next_frame q2" "q_next_frame q2 \<noteq> p_next_frame p"
    by (rule cycles_past_slot [OF inv assms(2-6)])
  note at = at_swapD [OF r(2)]
  have w2: "wf_held [a] q2" using r(4) by (simp add: ran_def)
  have "slot_lists q ! ?i \<noteq> []" using assms(7) pending_iff_slot [OF inv(1) d(2), of ctrl dsps] d(1) by simp
  then have head: "p_head p \<noteq> None" using slot_head [OF inv(1) at(4)] at(6) by (simp split: list.splits)
  have l: "?i < length (q_slot q2)" using r(7) wf_queueD(5) [OF w2] by simp
  obtain q3 where q3: "add_from_swap p q2 = Some (JFOFS_FOF_LATE_WARNING, [Incr_Late], q3)" "given_back a q2 q3"
    by (rule swap_refused [OF at(1,3) l w2 r(6) head r(8-10)])
  obtain c1 qB d1 where B: "audio_cycles lib clks (ctrl, q, dsps) = Some (c1, qB, d1)"
    by (rule held_runs [OF inv assms(6)])
  obtain q2' where "audio_cycles lib clks (ctrl, q1, dsps) = Some (c1, q2', d1)" "shadows a qB q2'"
    by (rule shadow_runs [OF r(5) inv(2) B])
  with r(3) have "shadows a qB q2" "c1 = ctrl'" "d1 = dsps'" by simp_all
  then show ?thesis
    using r(1,3) q3 B shadow_given_back [of a qB q2 q3] by (auto simp: given_back_def)
qed

text \<open>
  C39: when the slot was empty at the test and has been played before the compare-and-swap, the
  swap does not notice: in either lane the fof is answered with success, but it is now due \<open>n_slots\<close>
  cycles after the one it was meant for.
\<close>

theorem cycles_past_empty_slot_delay_fof:
  assumes "engine_inv (ctrl, q, dsps)" and "free_list q \<noteq> []"
    and "unat (q_next_frame q) \<le> start_frame q t"
    and "start_frame q t < unat (q_next_frame q) + n_slots q * buf_size q"
    and "(start_frame q t - unat (q_next_frame q)) div buf_size q < length clks"
    and "length clks \<le> cycles_before_wrap q"
    and "length clks \<le> (start_frame q t - unat (q_next_frame q)) div buf_size q + n_slots q"
    and "engine_pending (ctrl, q, dsps) ((start_frame q t - unat (q_next_frame q)) div buf_size q) = []"
  shows "\<exists>p q1 ctrl' q2 dsps' q3.
    add_until_swap q t args = Some (Inr (p, q1)) \<and>
    audio_cycles lib clks (ctrl, q1, dsps) = Some (ctrl', q2, dsps') \<and>
    add_from_swap p q2 = Some (JFOFS_SUCCESS, [Incr_Slot (p_idx p)], q3) \<and>
    engine_inv (ctrl', q3, dsps') \<and>
    engine_pending (ctrl', q3, dsps')
      ((start_frame q t - unat (q_next_frame q)) div buf_size q + n_slots q - length clks) = [(t, args)]"
proof -
  have inv: "wf_queue q" "in_step ctrl q dsps" using assms(1) by (simp_all add: engine_inv_def)
  note d = target_distance [OF wf_queueD(1) [OF inv(1)] assms(3,4)]
  let ?i = "target_slot q (start_frame q t)" and ?d = "(start_frame q t - unat (q_next_frame q)) div buf_size q"
  obtain p q1 qA a ctrl' q2 dsps' where r: "add_until_swap q t args = Some (Inr (p, q1))" "at_swap q p ?i a q1 qA"
    "audio_cycles lib clks (ctrl, q1, dsps) = Some (ctrl', q2, dsps')" "ran [a] q1 (length clks) q2"
    "in_step ctrl' q2 dsps'" "stored q q1 a t args" "slot_lists q2 ! ?i = []" "?i < n_slots q2" "nexts q2 a = p_head p"
    by (rule cycles_past_slot [OF inv assms(2-6)])
  note at = at_swapD [OF r(2)] and f = q_frame_eq [OF storedD(7) [OF r(6)]]
  have w2: "wf_held [a] q2" using r(4) by (simp add: ran_def)
  have "slot_lists q ! ?i = []" using assms(8) pending_iff_slot [OF inv(1) d(2), of ctrl dsps] d(1) by simp
  then have none: "p_head p = None" using slot_head [OF inv(1) at(4)] at(6) by simp
  have l: "?i < length (q_slot q2)" using r(8) wf_queueD(5) [OF w2] by simp
  obtain q3 where q3: "add_from_swap p q2 = Some (JFOFS_SUCCESS, [Incr_Slot (p_idx p)], q3)" "wf_queue q3"
    "slot_lists q3 = (slot_lists q2)[?i := [a]]" "event_at q3 = event_at q2" "q_frame q3 = q_frame q2"
    by (rule swap_into_empty [OF r(2) w2 l r(7) none]) (use r(9) none in simp)
  note f3 = q_frame_eq [OF q3(5)]
  have n: "n_slots q3 = n_slots q" "buf_size q3 = buf_size q" using f3 f r(4) by (simp_all add: ran_def)
  have "event_at q3 a = (t, args)" using q3(4) r(4,6) by (simp add: ran_def stored_def)
  have "in_step ctrl' q3 dsps'" using r(5) f3 by (simp add: in_step_def ctrl_current_clock_source_def)
  then have e: "engine_inv (ctrl', q3, dsps')" using q3(2) by (simp add: engine_inv_def)
  have b: "0 < buf_size q" by (rule wf_config_pos(2) [OF wf_queueD(1) [OF inv(1)]])
  have "unat (q_next_frame q3) = unat (q_next_frame q) + length clks * buf_size q"
    using f3 f r(4) by (simp add: ran_def)
  then have "unat (q_next_frame q3) div buf_size q3 = unat (q_next_frame q) div buf_size q + length clks"
    using b by (simp only: n div_mult_self1 add.commute [of _ "length clks"])
  then have "(unat (q_next_frame q3) div buf_size q3 + (?d + n_slots q - length clks)) mod n_slots q = ?i"
    using assms(7) unfolding d(1) by (simp add: add.assoc [symmetric])
  moreover have "?d + n_slots q - length clks < n_slots q" using assms(5) d(2) by linarith
  ultimately have "engine_pending (ctrl', q3, dsps') (?d + n_slots q - length clks) = [(t, args)]"
    using pending_iff_slot [OF q3(2), of "?d + n_slots q - length clks" ctrl' dsps'] n q3(3)
      \<open>event_at q3 a = (t, args)\<close> r(8) wf_queueD(4) [OF w2] by simp
  then show ?thesis using r(1,3) q3(1) e by blast
qed

lemma ex_runs:
  "free_list ex_queue \<noteq> []" "free_list ex_queue1 \<noteq> []" "q_next_frame ex_queue = 0" "q_next_frame ex_queue1 = 0"
  "buf_size ex_queue = 8" "n_slots ex_queue = 4" "buf_size ex_queue1 = 8" "n_slots ex_queue1 = 4"
  "start_frame ex_queue 17 = 17" "start_frame ex_queue 5 = 5" "start_frame ex_queue1 20 = 20"
  by code_simp+

lemma ex_slots: "slot_lists ex_queue ! 0 = []" "slot_lists ex_queue1 ! Suc (Suc 0) \<noteq> []"
  by code_simp+

lemma ex_before_wrap: "3 \<le> cycles_before_wrap ex_queue" "3 \<le> cycles_before_wrap ex_queue1"
  by (simp_all add: cycles_before_wrap_def ex_runs)

lemma ex_engine1: "engine_inv (ex_ctrl, ex_queue1, ex_dsps)"
proof -
  have "c_active ex_ctrl \<noteq> 0" "c_clock_source ex_ctrl = ctrl_current_clock_source ex_queue1"
    "\<not> jfofs_clock_uses_transport (q_clock_source ex_queue1)"
    by code_simp+
  then show ?thesis using ex_wf_queue1 ex_wf_ctrl by (simp add: engine_inv_def in_step_def)
qed

theorem cycles_before_slot_linearize_witness:
  "\<exists>p q1 ctrl' q2 dsps' q3 qA.
    add_until_swap ex_queue 17 [1, 2] = Some (Inr (p, q1)) \<and>
    audio_cycles ex_lib [ex_clock, ex_clock] (ex_ctrl, q1, ex_dsps) = Some (ctrl', q2, dsps') \<and>
    add_from_swap p q2 = Some (JFOFS_SUCCESS, [Incr_Slot (p_idx p)], q3) \<and>
    fof_queue_add ex_queue 17 [1, 2] = Some (JFOFS_SUCCESS, [Incr_Slot (p_idx p)], qA) \<and>
    audio_cycles ex_lib [ex_clock, ex_clock] (ex_ctrl, qA, ex_dsps) = Some (ctrl', q3, dsps')"
  by (rule cycles_before_slot_linearize [OF ex_engine ex_runs(1)]) (simp_all add: ex_runs)

theorem cycles_past_slot_refuse_fof_witness:
  "\<exists>p q1 ctrl' q2 dsps' q3 qB.
    add_until_swap ex_queue1 20 [3] = Some (Inr (p, q1)) \<and>
    audio_cycles ex_lib [ex_clock, ex_clock, ex_clock] (ex_ctrl, q1, ex_dsps) = Some (ctrl', q2, dsps') \<and>
    add_from_swap p q2 = Some (JFOFS_FOF_LATE_WARNING, [Incr_Late], q3) \<and>
    audio_cycles ex_lib [ex_clock, ex_clock, ex_clock] (ex_ctrl, ex_queue1, ex_dsps) = Some (ctrl', qB, dsps') \<and>
    wf_queue q3 \<and> abs_queue q3 = abs_queue qB"
proof (rule cycles_past_slot_refuse_fof [OF ex_engine1 ex_runs(2)])
  show "engine_pending (ex_ctrl, ex_queue1, ex_dsps)
      ((start_frame ex_queue1 20 - unat (q_next_frame ex_queue1)) div buf_size ex_queue1) \<noteq> []"
    using pending_iff_slot [OF ex_wf_queue1, of 2 ex_ctrl ex_dsps] ex_slots(2) by (simp add: ex_runs)
qed (use ex_before_wrap in \<open>simp_all add: ex_runs\<close>)

theorem cycles_past_empty_slot_delay_fof_witness:
  "\<exists>p q1 ctrl' q2 dsps' q3.
    add_until_swap ex_queue 5 [1, 2] = Some (Inr (p, q1)) \<and>
    audio_cycles ex_lib [ex_clock] (ex_ctrl, q1, ex_dsps) = Some (ctrl', q2, dsps') \<and>
    add_from_swap p q2 = Some (JFOFS_SUCCESS, [Incr_Slot (p_idx p)], q3) \<and>
    engine_inv (ctrl', q3, dsps') \<and>
    engine_pending (ctrl', q3, dsps')
      ((start_frame ex_queue 5 - unat (q_next_frame ex_queue)) div buf_size ex_queue + n_slots ex_queue
        - length [ex_clock]) = [(5, [1, 2])]"
proof (rule cycles_past_empty_slot_delay_fof [OF ex_engine ex_runs(1)])
  show "engine_pending (ex_ctrl, ex_queue, ex_dsps)
      ((start_frame ex_queue 5 - unat (q_next_frame ex_queue)) div buf_size ex_queue) = []"
    using pending_iff_slot [OF ex_wf_queue, of 0 ex_ctrl ex_dsps] ex_slots(1) by (simp add: ex_runs)
qed (use ex_before_wrap in \<open>simp_all add: ex_runs\<close>)

end
