(* ===== verification/Fair_Deal.thy ===== *)
theory Fair_Deal
  imports Cycle "HOL-Library.Multiset"
begin

text \<open>
  The dealing of one cycle, seen from each dsp client: the loop of \<open>ctrl_client_process_cb\<close> goes
  round the clients, so every client gets every \<open>n\<close>-th fof and the shares differ by at most one.
\<close>

text \<open>What client \<open>d\<close> gets of \<open>es\<close> when the dealing starts at client \<open>i\<close>.\<close>

fun share :: "nat \<Rightarrow> nat \<Rightarrow> nat \<Rightarrow> 'e list \<Rightarrow> 'e list" where
  "share n i d [] = []"
| "share n i d (e # es) = (if i = d then [e] else []) @ share n (Suc i mod n) d es"

lemma deal_share:
  assumes "i < n" and "n \<le> length dsps" and "d < n"
  shows "deal lib n i es dsps ! d = fold (give lib) (share n i d es) (dsps ! d)"
  using assms(1,2)
proof (induction es arbitrary: i dsps)
  case (Cons e es)
  have "Suc i mod n < n" using Cons.prems(1) by simp
  with Cons show ?case by (auto simp: nth_list_update)
qed simp

text \<open>The distance from \<open>i\<close> on to client \<open>d\<close> decides who gets one fof more.\<close>

lemma length_share:
  assumes "i < n" and "d < n"
  shows "length (share n i d es) = (length es + n - 1 - (d + n - i) mod n) div n"
  using assms(1)
proof (induction es arbitrary: i)
  case Nil
  have "(n - 1 - (d + n - i) mod n) div n = 0" using assms(2) by (intro div_less) simp
  then show ?case by simp
next
  case (Cons e es)
  let ?off = "\<lambda>i. (d + n - i) mod n"
  have i': "Suc i mod n < n" using Cons.prems by simp
  have off: "?off i < n" using assms(2) by simp
  show ?case
  proof (cases "i = d")
    case True
    have "?off (Suc i mod n) = n - 1"
    proof (cases "Suc i = n")
      case True
      then show ?thesis using \<open>i = d\<close> by (simp add: mod_if)
    next
      case False
      then show ?thesis using \<open>i = d\<close> Cons.prems by simp
    qed
    moreover have "(length (e # es) + n - 1 - ?off i) div n = Suc (length es div n)"
      using True assms(2) by (simp add: div_add_self2)
    moreover have "length es + n - 1 - (n - 1) = length es" using assms(2) by simp
    ultimately show ?thesis using Cons.IH [OF i'] True by simp
  next
    case False
    have "Suc (?off (Suc i mod n)) = ?off i"
    proof (cases "d < i")
      case True
      then show ?thesis using Cons.prems by (cases "Suc i = n") auto
    next
      case d: False
      then have "Suc i < n" "?off i = d - i" "?off (Suc i) = d - Suc i"
        using False assms(2) by (simp_all add: mod_if)
      then show ?thesis using False d by simp
    qed
    then have "length es + n - 1 - ?off (Suc i mod n) = length (e # es) + n - 1 - ?off i" using off by simp
    then show ?thesis using Cons.IH [OF i'] False by simp
  qed
qed

lemma share_bounds:
  assumes "i < n" and "d < n"
  shows "length es div n \<le> length (share n i d es)" "length (share n i d es) \<le> Suc (length es div n)"
    "length (share n i d es) * n < length es + n"
proof -
  have off: "(d + n - i) mod n \<le> n - 1" using assms(2) by (metis Suc_pred' gr_implies_not0 less_Suc_eq_le mod_less_divisor neq0_conv)
  show "length es div n \<le> length (share n i d es)"
    unfolding length_share [OF assms] using off assms(2) by (intro div_le_mono) linarith
  have "length (share n i d es) \<le> (length es + n) div n"
    unfolding length_share [OF assms] by (intro div_le_mono) simp
  then show "length (share n i d es) \<le> Suc (length es div n)" using assms by (simp add: div_add_self2)
  have "length (share n i d es) * n \<le> length es + n - 1 - (d + n - i) mod n"
    unfolding length_share [OF assms] by simp
  then show "length (share n i d es) * n < length es + n" using assms by linarith
qed

lemma shares_partition:
  assumes "i < n"
  shows "(\<Sum>d<n. mset (share n i d es)) = mset es"
  using assms
proof (induction es arbitrary: i)
  case (Cons e es)
  have "(\<Sum>d<n. mset (share n i d (e # es)))
      = (\<Sum>d<n. (if d = i then {#e#} else {#}) + mset (share n (Suc i mod n) d es))"
    by (intro sum.cong) auto
  also have "\<dots> = {#e#} + mset es" using Cons by (simp add: sum.distrib)
  finally show ?case by simp
qed simp

text \<open>It is the sublist of the fofs whose place in the round is that of client \<open>d\<close>.\<close>

lemma share_nths:
  assumes "i < n"
  shows "share n i d es = nths es {k. (i + k) mod n = d}"
  using assms
proof (induction es arbitrary: i)
  case (Cons e es)
  have "{k. (i + Suc k) mod n = d} = {k. (Suc i mod n + k) mod n = d}" by (simp add: mod_add_left_eq)
  moreover have "Suc i mod n < n" using Cons.prems by simp
  ultimately show ?case using Cons by (simp add: nths_Cons)
qed simp

text \<open>
  C22: the dealing is fair: in a steady cycle client \<open>d\<close> of \<open>n\<close> is given exactly those fofs of the due slot
  whose index \<open>k\<close> has \<open>(last_dsp + k) mod n = d\<close>, that is every \<open>n\<close>-th one, in the order of the slot,
  starting with the client after the one that was served last; the next cycle goes on where this one
  stopped, and the shares of any two clients differ by at most one fof.
\<close>

theorem dealing_is_fair:
  assumes "wf_queue q" and "wf_ctrl ctrl dsps" and "c_active ctrl \<noteq> 0"
    and "\<not> resync_due clk nframes ctrl q"
    and "get_framestamp clk (c_clock_source ctrl) = (m, ts)"
  defines "n \<equiv> n_clients ctrl"
  shows "\<exists>ctrl' q' dsps' evs. ctrl_client_process_cb lib clk nframes ctrl q dsps = Some (ctrl', q', dsps') \<and>
    spec_cycle (abs_queue q) (unat (cycle_frame ctrl m q)) (unat (cycle_end ctrl nframes m q)) = (evs, abs_queue q') \<and>
    (\<forall>d<n. dsps' ! d = fold (give lib) (nths evs {k. (last_dsp ctrl + k) mod n = d})
       (cycle_dsps lib ctrl (cycle_frame ctrl m q) dsps ! d)) \<and>
    c_last_dsp ctrl' = of_nat ((last_dsp ctrl + length evs) mod n) \<and>
    (\<forall>d<n. length evs div n \<le> length (nths evs {k. (last_dsp ctrl + k) mod n = d}) \<and>
       length (nths evs {k. (last_dsp ctrl + k) mod n = d}) * n < length evs + n)"
proof -
  obtain ctrl' q' evs where r: "spec_cycle (abs_queue q) (unat (cycle_frame ctrl m q)) (unat (cycle_end ctrl nframes m q)) = (evs, abs_queue q')"
    "ctrl_client_process_cb lib clk nframes ctrl q dsps
       = Some (ctrl', q', deal lib n (last_dsp ctrl) evs (cycle_dsps lib ctrl (cycle_frame ctrl m q) dsps))"
    "c_last_dsp ctrl' = of_nat ((last_dsp ctrl + length evs) mod n)"
    unfolding n_def by (rule process_cb_steady [OF assms(1-5), of lib]) auto
  have n: "last_dsp ctrl < n" "n \<le> length (cycle_dsps lib ctrl (cycle_frame ctrl m q) dsps)"
    using wf_ctrlD(3,6) [OF assms(2)] by (simp_all add: n_def)
  show ?thesis
    using r deal_share [OF n] share_bounds(1,3) [OF n(1)] unfolding share_nths [OF n(1)] by blast
qed

theorem dealing_is_fair_witness:
  "\<exists>ctrl' q' dsps' evs. ctrl_client_process_cb ex_lib ex_clock 8 ex_ctrl ex_queue1 ex_dsps = Some (ctrl', q', dsps') \<and>
    spec_cycle (abs_queue ex_queue1) (unat (cycle_frame ex_ctrl 100 ex_queue1)) (unat (cycle_end ex_ctrl 8 100 ex_queue1))
      = (evs, abs_queue q') \<and>
    (\<forall>d<n_clients ex_ctrl. dsps' ! d = fold (give ex_lib) (nths evs {k. (last_dsp ex_ctrl + k) mod n_clients ex_ctrl = d})
       (cycle_dsps ex_lib ex_ctrl (cycle_frame ex_ctrl 100 ex_queue1) ex_dsps ! d)) \<and>
    c_last_dsp ctrl' = of_nat ((last_dsp ex_ctrl + length evs) mod n_clients ex_ctrl) \<and>
    (\<forall>d<n_clients ex_ctrl. length evs div n_clients ex_ctrl
         \<le> length (nths evs {k. (last_dsp ex_ctrl + k) mod n_clients ex_ctrl = d}) \<and>
       length (nths evs {k. (last_dsp ex_ctrl + k) mod n_clients ex_ctrl = d}) * n_clients ex_ctrl
         < length evs + n_clients ex_ctrl)"
proof (rule dealing_is_fair [OF ex_wf_queue1 ex_wf_ctrl _ ex_steady])
  show "c_active ex_ctrl \<noteq> 0" by (simp add: ex_ctrl_def)
  show "get_framestamp ex_clock (c_clock_source ex_ctrl) = (100, JackTransportRolling)" by code_simp
qed

end
