(* ===== verification/Client_Clock.thy ===== *)
theory Client_Clock
  imports Add_Race_Runs Api
begin

text \<open>
  The clock that API clients schedule by: how \<open>jfofs_get_frame\<close> moves while audio cycles run, what a
  client reads when a cycle runs between the two loads of \<open>current_frame\<close>, and that a fof scheduled
  some microseconds ahead of \<open>jfofs_get_time\<close> is accepted for the frame that was asked for.
\<close>

subsection \<open>A fof scheduled ahead of the time read\<close>

lemma ahead_frames:
  fixes n d r :: nat
  assumes "0 < r" and "0 < d"
  shows "n + frames_of_us (d - 1) r \<le> frames_of_us (us_of_frames n r + d) r"
    and "frames_of_us (us_of_frames n r + d) r \<le> n + frames_of_us d r"
proof -
  let ?T = "us_of_frames n r"
  have lo: "?T * r \<le> n * 1000000" by (simp add: us_of_frames_def)
  have hi: "n * 1000000 < ?T * r + r"
    using dividend_less_times_div [OF assms(1), of "n * 1000000"] by (simp add: us_of_frames_def algebra_simps)
  have "r + (d - 1) * r = d * r" using assms(2) by (cases d) simp_all
  then have "n * 1000000 + (d - 1) * r \<le> (?T + d) * r" using hi by (simp add: add_mult_distrib)
  then have "(n * 1000000 + (d - 1) * r) div 1000000 \<le> (?T + d) * r div 1000000" by (rule div_le_mono)
  then show "n + frames_of_us (d - 1) r \<le> frames_of_us (?T + d) r" by (simp add: frames_of_us_def)
  have "(?T + d) * r \<le> n * 1000000 + d * r" using lo by (simp add: add_mult_distrib)
  then have "(?T + d) * r div 1000000 \<le> (n * 1000000 + d * r) div 1000000" by (rule div_le_mono)
  then show "frames_of_us (?T + d) r \<le> n + frames_of_us d r" by (simp add: frames_of_us_def)
qed

lemma start_frame_ahead:
  assumes "0 < sint (q_sample_rate q)" and "0 < unat d"
  defines "r \<equiv> nat (sint (q_sample_rate q))"
  assumes "n + frames_of_us (unat d) r < 2 ^ 32" and "unat t = us_of_frames n r"
  shows "n + frames_of_us (unat d - 1) r \<le> start_frame q (t + d)" and "start_frame q (t + d) \<le> n + frames_of_us (unat d) r"
proof -
  have r: "0 < r" using assms(1) by (simp add: r_def)
  note a = ahead_frames [OF r assms(2), of n]
  have "us_of_frames n r * r \<le> n * 1000000" by (simp add: us_of_frames_def)
  moreover have "unat d * r < Suc (frames_of_us (unat d) r) * 1000000"
    by (simp add: frames_of_us_def dividend_less_div_times)
  ultimately have X: "(unat t + unat d) * r < 2 ^ 64"
    using assms(4,5) by (simp add: add_mult_distrib)
  have "unat t + unat d \<le> (unat t + unat d) * r" using r by simp
  then have "unat t + unat d < 2 ^ 64" using X by (rule le_less_trans)
  then have u: "unat (t + d) = unat t + unat d" by (intro unat_add_lem [THEN iffD1]) simp
  have "start_frame q (t + d) = frames_of_us (unat (t + d)) r mod 2 ^ 32"
    using assms(1) X u by (simp add: start_frame_def unat_time_to_nframes r_def)
  also have "\<dots> = frames_of_us (us_of_frames n r + unat d) r" using a(2) assms(4) by (simp add: u assms(5))
  finally show "n + frames_of_us (unat d - 1) r \<le> start_frame q (t + d)" "start_frame q (t + d) \<le> n + frames_of_us (unat d) r"
    using a by simp_all
qed

text \<open>
  C10: scheduling ahead works: a fof added \<open>d\<close> microseconds after the time that the client has
  read starts at most one microsecond's worth of frames before the frame asked for, and never
  after it; and it is accepted, also when cycles have run since the clock was read, as long as
  the frame asked for is not behind them and not past the ring.
\<close>

theorem scheduling_ahead_succeeds:
  fixes clk :: jack_clock and clks :: "jack_clock list"
  assumes "engine_inv (ctrl, m_q shmem, dsps)" and "free_list (m_q shmem) \<noteq> []" and "0 < unat d"
    and "0 < sint (q_sample_rate (m_q shmem))"
  defines "n \<equiv> unat (jfofs_get_frame clk shmem)" and "r \<equiv> nat (sint (q_sample_rate (m_q shmem)))"
    and "behind \<equiv> unat (q_next_frame (m_q shmem)) + length clks * buf_size (m_q shmem)"
  assumes "n + frames_of_us (unat d) r < 2 ^ 32"
    and "behind \<le> n + frames_of_us (unat d - 1) r"
    and "n + frames_of_us (unat d) r < behind + n_slots (m_q shmem) * buf_size (m_q shmem)"
  shows "\<exists>t ctrl' q' dsps' shmem'. jfofs_get_time clk shmem = Some t \<and>
    audio_cycles lib clks (ctrl, m_q shmem, dsps) = Some (ctrl', q', dsps') \<and>
    jfofs_add False (shmem\<lparr>m_q := q'\<rparr>) (t + d) args = Some (JFOFS_SUCCESS, shmem') \<and>
    n + frames_of_us (unat d - 1) r \<le> start_frame q' (t + d) \<and> start_frame q' (t + d) \<le> n + frames_of_us (unat d) r"
proof -
  let ?q = "m_q shmem"
  have inv: "wf_queue ?q" "in_step ctrl ?q dsps" using assms(1) by (simp_all add: engine_inv_def)
  have "n < 2 ^ 32" using assms(8) by linarith
  then have "unat (jfofs_get_frame clk shmem) * 1000000 < 2 ^ 64" by (simp add: n_def)
  from unat_nframes_to_time [OF assms(4) this] obtain t where
    "jfofs_nframes_to_time (jfofs_get_frame clk shmem) (q_sample_rate ?q) = Some t" and t: "unat t = us_of_frames n r"
    by (auto simp: n_def r_def)
  then have T: "jfofs_get_time clk shmem = Some t"
    by (simp add: jfofs_get_time_def jfofs_nframes_to_time_def jfofs_get_frame_def split: if_splits)
  have "frames_of_us (unat d - 1) r \<le> frames_of_us (unat d) r" by (simp add: frames_of_us_def div_le_mono)
  then have "behind < 4294967296" using assms(8,9) by simp
  then have "length clks * buf_size ?q \<le> 18446744073709551615 - unat (q_next_frame ?q)"
    unfolding behind_def by linarith
  then have left: "length clks \<le> cycles_before_wrap ?q"
    using wf_config_pos(2) [OF wf_queueD(1) [OF inv(1)]]
    by (simp add: cycles_before_wrap_def less_eq_div_iff_mult_less_eq)
  obtain ctrl' q' dsps' where run: "audio_cycles lib clks (ctrl, ?q, dsps) = Some (ctrl', q', dsps')"
    "ran [] ?q (length clks) q'"
    by (rule held_runs [OF inv left])
  have q': "wf_queue q'" "unat (q_next_frame q') = behind" "q_sample_rate q' = q_sample_rate ?q"
    "n_slots q' = n_slots ?q" "buf_size q' = buf_size ?q" "free_list q' \<noteq> []"
    using run(2) assms(2) by (auto simp: ran_def behind_def)
  have start: "n + frames_of_us (unat d - 1) r \<le> start_frame q' (t + d)" "start_frame q' (t + d) \<le> n + frames_of_us (unat d) r"
    using start_frame_ahead [of q' d n t] assms(3,4,8) t q'(3) by (simp_all add: r_def)
  obtain st evs q'' where add: "fof_queue_add q' (t + d) args = Some (st, evs, q'')"
    "spec_add (abs_queue q') (t + d, args) = (st, abs_queue q'')"
    by (rule add_refines [OF q'(1), of "t + d" args])
  have "st = JFOFS_SUCCESS"
    using add(2) start assms(9,10) q' wf_queueD(4) [OF q'(1)]
    by (auto simp: spec_add_def Let_def split: if_splits)
  then show ?thesis using T run(1) add(1) start by (auto simp: jfofs_add_def Let_def)
qed

theorem scheduling_ahead_succeeds_witness:
  "\<exists>t ctrl' q' dsps' shmem'. jfofs_get_time (ex_clock\<lparr>jack_frame_time := 4\<rparr>) ex_shmem = Some t \<and>
    audio_cycles ex_lib [ex_clock] (ex_ctrl, m_q ex_shmem, ex_dsps) = Some (ctrl', q', dsps') \<and>
    jfofs_add False (ex_shmem\<lparr>m_q := q'\<rparr>) (t + 20) [1, 2] = Some (JFOFS_SUCCESS, shmem') \<and>
    4 + frames_of_us (unat (20 :: u64) - 1) 1000000 \<le> start_frame q' (t + 20) \<and>
    start_frame q' (t + 20) \<le> 4 + frames_of_us (unat (20 :: u64)) 1000000"
proof -
  have q: "m_q ex_shmem = ex_queue" by (simp add: ex_shmem_def)
  have v: "unat (jfofs_get_frame (ex_clock\<lparr>jack_frame_time := 4\<rparr>) ex_shmem) = 4" "nat (sint (q_sample_rate ex_queue)) = 1000000"
    by (simp_all add: jfofs_get_frame_def current_frame_def ex_shmem_def ex_defs jfofs_clock_uses_transport_def
        jfofs_clock_source_normalize_def)
  have "engine_inv (ex_ctrl, m_q ex_shmem, ex_dsps)" "free_list (m_q ex_shmem) \<noteq> []" "0 < sint (q_sample_rate (m_q ex_shmem))"
    using ex_engine ex_runs(1) v(2) by (simp_all add: q)
  from scheduling_ahead_succeeds [OF this(1,2) _ this(3), of 20 "ex_clock\<lparr>jack_frame_time := 4\<rparr>" "[ex_clock]" ex_lib "[1, 2]"]
  show ?thesis unfolding q v by (simp add: ex_runs frames_of_us_def)
qed

subsection \<open>The frame clock while cycles run\<close>

lemma run_stamp:
  assumes "wf_queue q" and "in_step ctrl q dsps" and "clks \<noteq> []"
    and "audio_cycles lib clks (ctrl, q, dsps) = Some (ctrl', q', dsps')"
  shows "q_frame_stamp q' = ucast (jack_frame_time (last clks))"
  using assms
proof (induction clks arbitrary: ctrl q dsps)
  case Nil
  then show ?case by simp
next
  case (Cons clk clks)
  obtain ctrl1 q1 dsps1 where r: "audio_cycle lib clk (ctrl, q, dsps) = Some (ctrl1, q1, dsps1)"
    "cycled [] q (due_slot q (q_next_frame q)) (q_next_frame q + ucast (q_buffer_size q))
       (fst (get_framestamp clk (c_clock_source ctrl))) q1"
    "in_step ctrl1 q1 dsps1"
    by (rule in_step_cycle [OF Cons.prems(1,2), of lib clk])
  have w1: "wf_queue q1" "q_frame_stamp q1 = ucast (jack_frame_time clk)"
    using r(2) in_step_clock [OF Cons.prems(2)] by (simp_all add: cycled_def get_framestamp_def)
  show ?case
  proof (cases "clks = []")
    case True
    then show ?thesis using Cons.prems(4) r(1) w1(2) by simp
  next
    case False
    then show ?thesis using Cons.IH [OF w1(1) r(3)] Cons.prems(4) r(1) by simp
  qed
qed

text \<open>\<open>current_frame\<close> from its load of \<open>frame_stamp\<close> on, \<open>next_frame\<close> having been loaded before.\<close>

definition current_frame_from :: "u64 \<Rightarrow> jack_clock \<Rightarrow> shmem \<Rightarrow> u64" where
  "current_frame_from next_frame clk shmem =
     (let frame_stamp = q_frame_stamp (m_q shmem);
          current_source_frame =
            (if jfofs_clock_uses_transport (s_clock_source (m_setup shmem))
             then ucast (jack_get_current_transport_frame clk) else ucast (jack_frame_time clk)) in
      if current_source_frame \<le> frame_stamp then next_frame
      else next_frame + (current_source_frame - frame_stamp))"

lemma current_frame_in_loads: "current_frame clk shmem = current_frame_from (q_next_frame (m_q shmem)) clk shmem"
  by (simp add: current_frame_def current_frame_from_def Let_def)

lemma current_frame_from_eq:
  "current_frame_from (n + k) clk shmem = current_frame_from n clk shmem + k"
  by (simp add: current_frame_from_def Let_def)

lemma run_clock:
  assumes "engine_inv (ctrl, m_q shmem, dsps)" and "clks \<noteq> []" and "length clks \<le> cycles_before_wrap (m_q shmem)"
  obtains ctrl' q' dsps' where "audio_cycles lib clks (ctrl, m_q shmem, dsps) = Some (ctrl', q', dsps')"
    "unat (q_next_frame q') = unat (q_next_frame (m_q shmem)) + length clks * buf_size (m_q shmem)"
    "q_frame_stamp q' = ucast (jack_frame_time (last clks))"
proof -
  have inv: "wf_queue (m_q shmem)" "in_step ctrl (m_q shmem) dsps" using assms(1) by (simp_all add: engine_inv_def)
  obtain ctrl' q' dsps' where r: "audio_cycles lib clks (ctrl, m_q shmem, dsps) = Some (ctrl', q', dsps')"
    "ran [] (m_q shmem) (length clks) q'"
    by (rule held_runs [OF inv assms(3)])
  show thesis using that r run_stamp [OF inv assms(2) r(1)] by (simp add: ran_def)
qed

text \<open>
  C37: the frame a client reads is off by the irregularity of the callback only: over any number of
  cycles it moves, for the same frame time of JACK, by the frames the cycles have played less
  those by which their time stamps differ; so it goes straight on when the stamps are a buffer
  apart for each cycle, and jumps by the difference otherwise.
\<close>

theorem frame_clock_across_cycles:
  assumes "engine_inv (ctrl, m_q shmem, dsps)" and "clks \<noteq> []" and "length clks \<le> cycles_before_wrap (m_q shmem)"
    and "\<not> jfofs_clock_uses_transport (s_clock_source (m_setup shmem))"
    and "unat (q_frame_stamp (m_q shmem)) \<le> unat (jack_frame_time clk)"
    and "unat (jack_frame_time (last clks)) \<le> unat (jack_frame_time clk)"
    and "unat (q_next_frame (m_q shmem)) + length clks * buf_size (m_q shmem) + unat (jack_frame_time clk) < 2 ^ 64"
  shows "\<exists>ctrl' q' dsps'. audio_cycles lib clks (ctrl, m_q shmem, dsps) = Some (ctrl', q', dsps') \<and>
    int (unat (jfofs_get_frame clk (shmem\<lparr>m_q := q'\<rparr>))) = int (unat (jfofs_get_frame clk shmem))
      + int (length clks * buf_size (m_q shmem))
      - (int (unat (jack_frame_time (last clks))) - int (unat (q_frame_stamp (m_q shmem))))"
proof -
  have read: "unat (jfofs_get_frame clk (shmem\<lparr>m_q := q\<rparr>))
      = unat (q_next_frame q) + (unat (jack_frame_time clk) - unat (q_frame_stamp q))"
    if "unat (q_next_frame q) + unat (jack_frame_time clk) < 2 ^ 64" for q
    using current_frame_interpolates [of "shmem\<lparr>m_q := q\<rparr>" clk] assms(4) that
    by (simp add: jfofs_get_queue_next_frame_def)
  obtain ctrl' q' dsps' where r: "audio_cycles lib clks (ctrl, m_q shmem, dsps) = Some (ctrl', q', dsps')"
    "unat (q_next_frame q') = unat (q_next_frame (m_q shmem)) + length clks * buf_size (m_q shmem)"
    "q_frame_stamp q' = ucast (jack_frame_time (last clks))"
    by (rule run_clock [OF assms(1-3)])
  have "unat (jfofs_get_frame clk (shmem\<lparr>m_q := q'\<rparr>))
      = unat (q_next_frame q') + (unat (jack_frame_time clk) - unat (jack_frame_time (last clks)))"
    using read [of q'] assms(7) r(2,3) by (simp add: unat_u64_of_u32)
  moreover have "unat (jfofs_get_frame clk shmem)
      = unat (q_next_frame (m_q shmem)) + (unat (jack_frame_time clk) - unat (q_frame_stamp (m_q shmem)))"
    using read [of "m_q shmem"] assms(7) by simp
  ultimately have "int (unat (jfofs_get_frame clk (shmem\<lparr>m_q := q'\<rparr>))) = int (unat (jfofs_get_frame clk shmem))
      + int (length clks * buf_size (m_q shmem))
      - (int (unat (jack_frame_time (last clks))) - int (unat (q_frame_stamp (m_q shmem))))"
    using r(2) assms(5,6) by linarith
  then show ?thesis using r(1) by blast
qed

text \<open>
  C38: the two loads of \<open>current_frame\<close> are not taken together: when cycles run between the load of
  \<open>next_frame\<close> and that of \<open>frame_stamp\<close>, the client reads a frame that is behind by a whole buffer
  for each of them.
\<close>

theorem torn_clock_read_lags:
  assumes "engine_inv (ctrl, m_q shmem, dsps)" and "clks \<noteq> []" and "length clks \<le> cycles_before_wrap (m_q shmem)"
  shows "\<exists>ctrl' q' dsps'. audio_cycles lib clks (ctrl, m_q shmem, dsps) = Some (ctrl', q', dsps') \<and>
    current_frame_from (q_next_frame (m_q shmem)) clk (shmem\<lparr>m_q := q'\<rparr>)
      + of_nat (length clks * buf_size (m_q shmem)) = jfofs_get_frame clk (shmem\<lparr>m_q := q'\<rparr>)"
proof -
  obtain ctrl' q' dsps' where r: "audio_cycles lib clks (ctrl, m_q shmem, dsps) = Some (ctrl', q', dsps')"
    "unat (q_next_frame q') = unat (q_next_frame (m_q shmem)) + length clks * buf_size (m_q shmem)"
    by (rule run_clock [OF assms])
  have "q_next_frame q' = q_next_frame (m_q shmem) + of_nat (length clks * buf_size (m_q shmem))"
    using arg_cong [OF r(2), of "of_nat :: nat \<Rightarrow> u64"] by simp
  then show ?thesis
    using r(1) by (simp add: jfofs_get_frame_def current_frame_in_loads current_frame_from_eq [symmetric])
qed

theorem frame_clock_across_cycles_witness:
  "\<exists>ctrl' q' dsps'. audio_cycles ex_lib [ex_clock] (ex_ctrl, m_q ex_shmem, ex_dsps) = Some (ctrl', q', dsps') \<and>
    int (unat (jfofs_get_frame (ex_clock\<lparr>jack_frame_time := 104\<rparr>) (ex_shmem\<lparr>m_q := q'\<rparr>)))
      = int (unat (jfofs_get_frame (ex_clock\<lparr>jack_frame_time := 104\<rparr>) ex_shmem)) + 8 - 100"
proof -
  have q: "m_q ex_shmem = ex_queue" by (simp add: ex_shmem_def)
  have e: "engine_inv (ex_ctrl, m_q ex_shmem, ex_dsps)" "length [ex_clock] \<le> cycles_before_wrap (m_q ex_shmem)"
    using ex_engine ex_before_wrap(1) by (simp_all add: q)
  have v: "\<not> jfofs_clock_uses_transport (s_clock_source (m_setup ex_shmem))" "unat (q_frame_stamp ex_queue) = 0"
    "unat (jack_frame_time ex_clock) = 100"
    by code_simp+
  show ?thesis
    using frame_clock_across_cycles [OF e(1) _ e(2) v(1), of "ex_clock\<lparr>jack_frame_time := 104\<rparr>" ex_lib] v(2,3)
    by (simp add: q ex_runs)
qed

theorem torn_clock_read_lags_witness:
  "\<exists>ctrl' q' dsps'. audio_cycles ex_lib [ex_clock] (ex_ctrl, m_q ex_shmem, ex_dsps) = Some (ctrl', q', dsps') \<and>
    current_frame_from (q_next_frame (m_q ex_shmem)) ex_clock (ex_shmem\<lparr>m_q := q'\<rparr>)
      + of_nat (length [ex_clock] * buf_size (m_q ex_shmem)) = jfofs_get_frame ex_clock (ex_shmem\<lparr>m_q := q'\<rparr>)"
proof (rule torn_clock_read_lags)
  have q: "m_q ex_shmem = ex_queue" by (simp add: ex_shmem_def)
  show "engine_inv (ex_ctrl, m_q ex_shmem, ex_dsps)" "length [ex_clock] \<le> cycles_before_wrap (m_q ex_shmem)"
    using ex_engine ex_before_wrap(1) by (simp_all add: q)
qed simp

end
