(* ===== verification/Offline.thy ===== *)
theory Offline
  imports Examples "HOL-Library.Multiset"
begin

text \<open>
  The offline renderer of \<^verbatim>\<open>offline.c\<close>: a job renders the fof bank block by block, interleaves
  the channels and writes them with libsndfile, which is a parameter as the fofs library is.
  (\<open>JFOFS_USE_NEXTI\<close> is not set by the build.)
\<close>

subsection \<open>The job\<close>

record 'b offline_job =
  o_fof_bank :: 'b
  o_sf :: nat
  o_n_chans :: c_int
  o_block_size :: c_int
  o_ch_buf :: "c_float list list"
  o_interleaved :: "c_float list"
  o_frame_count :: u64

text \<open>What \<open>calloc\<close> and \<open>sf_open\<close> return while one job is created.\<close>

record offline_env =
  oe_job :: bool
  oe_ch_buf :: "nat \<Rightarrow> bool"
  oe_interleaved :: bool
  oe_sf_open :: "nat option"

text \<open>Releasing one resource of those held; the channel buffers \<open>0 .. n - 1\<close>.\<close>

definition release :: "resource \<Rightarrow> resource list \<Rightarrow> resource list" where
  "release r held = remove1 r held"

fun release_ch_bufs :: "nat \<Rightarrow> nat \<Rightarrow> resource list \<Rightarrow> resource list" where
  "release_ch_bufs i 0 held = held"
| "release_ch_bufs i (Suc k) held = release_ch_bufs (i + 1) k (release (Channel_Buffer i) held)"

text \<open>
  The loop that allocates the channel buffers, from \<open>i\<close> on: the buffers, or none after a
  failure with all that was acquired before released again. \<^const>\<open>None\<close> when \<open>ch_buf[i]\<close> is out
  of range.
\<close>

fun alloc_ch_bufs ::
  "offline_env \<Rightarrow> nat \<Rightarrow> nat \<Rightarrow> nat \<Rightarrow> resource list \<Rightarrow> (c_float list list option \<times> resource list) option"
where
  "alloc_ch_bufs env len i 0 held = Some (Some [], held)"
| "alloc_ch_bufs env len i (Suc k) held =
     (if \<not> i < MAX_CHANNELS then None
      else if \<not> oe_ch_buf env i
      then Some (None, release (Memory ''job'') (release Fof_Bank (release_ch_bufs 0 i held)))
      else do { (bufs, held') \<leftarrow> alloc_ch_bufs env len (i + 1) k (Channel_Buffer i # held);
                Some (map_option ((#) (replicate len 0)) bufs, held') })"

text \<open>The job, the value of \<open>*status\<close> and the resources held afterwards.\<close>

definition jfofs_offline_create ::
  "'b fofs_lib \<Rightarrow> offline_env \<Rightarrow> c_int \<Rightarrow> c_int \<Rightarrow> c_int \<Rightarrow> c_int
     \<Rightarrow> ('b offline_job option \<times> c_int \<times> resource list) option" where
  "jfofs_offline_create lib env sample_rate mode n_preallocate_fofs block_size =
     (let status = status_code JFOFS_MEMORY_ERROR;
          n_chans = fof_ModeToChannels lib mode; n = nat (sint n_chans);
          len = unat (u64_of_int block_size) in
      if \<not> oe_job env then Some (None, status, [])
      else let held = [Memory ''job''] in
      (case fof_newBank lib sample_rate mode n_preallocate_fofs block_size of
         None \<Rightarrow> Some (None, status, release (Memory ''job'') held)
       | Some bank \<Rightarrow>
           do { (bufs, held) \<leftarrow> alloc_ch_bufs env len 0 n (Fof_Bank # held);
                (case bufs of None \<Rightarrow> Some (None, status, held)
                 | Some bufs \<Rightarrow>
                     if \<not> oe_interleaved env
                     then Some (None, status, release (Memory ''job'') (release Fof_Bank (release_ch_bufs 0 n held)))
                     else let held = Memory ''interleaved'' # held in
                     (case oe_sf_open env of
                        None \<Rightarrow> Some (None, status_code JFOFS_FAILURE,
                          release (Memory ''job'') (release Fof_Bank
                            (release_ch_bufs 0 n (release (Memory ''interleaved'') held))))
                      | Some sf \<Rightarrow>
                          Some (Some \<lparr>o_fof_bank = bank, o_sf = sf, o_n_chans = n_chans, o_block_size = block_size,
                                      o_ch_buf = bufs,
                                      o_interleaved = replicate (unat (u64_of_int block_size * u64_of_int n_chans)) 0,
                                      o_frame_count = 0\<rparr>,
                                status_code JFOFS_SUCCESS, Sound_File # held))) }))"

definition jfofs_offline_close :: "'b offline_job option \<Rightarrow> resource list \<Rightarrow> resource list" where
  "jfofs_offline_close job held =
     (case job of None \<Rightarrow> held
      | Some job \<Rightarrow> release (Memory ''job'') (release_ch_bufs 0 (nat (sint (o_n_chans job)))
          (release (Memory ''interleaved'') (release Fof_Bank (release Sound_File held)))))"

subsection \<open>Rendering\<close>

definition jfofs_offline_add ::
  "'b fofs_lib \<Rightarrow> 'b offline_job \<Rightarrow> u64 \<Rightarrow> c_float list \<Rightarrow> c_int \<times> 'b offline_job" where
  "jfofs_offline_add lib job t args =
     (case fof_add_v lib (o_fof_bank job) t args of (bank, r) \<Rightarrow> (r, job\<lparr>o_fof_bank := bank\<rparr>))"

text \<open>
  The two loops that interleave: frame \<open>f\<close>, channel \<open>c\<close>. The index \<open>f * n_chans + c\<close> is an \<open>int\<close>:
  \<^const>\<open>None\<close> when it overflows or lies outside a buffer.
\<close>

fun interleave_frame ::
  "nat \<Rightarrow> c_float list list \<Rightarrow> nat \<Rightarrow> nat \<Rightarrow> nat \<Rightarrow> c_float list \<Rightarrow> c_float list option" where
  "interleave_frame n_chans bufs f c 0 out = Some out"
| "interleave_frame n_chans bufs f c (Suc k) out =
     (let i = f * n_chans + c in
      if i < length out \<and> i < 2 ^ 31 \<and> c < length bufs \<and> f < length (bufs ! c)
      then interleave_frame n_chans bufs f (c + 1) k (out[i := bufs ! c ! f])
      else None)"

fun interleave :: "nat \<Rightarrow> c_float list list \<Rightarrow> nat \<Rightarrow> nat \<Rightarrow> c_float list \<Rightarrow> c_float list option" where
  "interleave n_chans bufs f 0 out = Some out"
| "interleave n_chans bufs f (Suc k) out =
     do { out' \<leftarrow> interleave_frame n_chans bufs f 0 n_chans out; interleave n_chans bufs (f + 1) k out' }"

text \<open>\<open>sf_writef_float\<close> is given the buffer and the number of frames and says how many it wrote.\<close>

definition jfofs_offline_process ::
  "'b fofs_lib \<Rightarrow> (nat \<Rightarrow> c_float list \<Rightarrow> u64 \<Rightarrow> u64) \<Rightarrow> 'b offline_job
     \<Rightarrow> (c_int \<times> 'b offline_job) option" where
  "jfofs_offline_process lib sf_writef_float job =
     (case fof_next_block lib (o_fof_bank job) (o_block_size job) (o_ch_buf job) of (bank, bufs) \<Rightarrow>
        do { out \<leftarrow> interleave (nat (sint (o_n_chans job))) bufs 0 (nat (sint (o_block_size job))) (o_interleaved job);
             let job1 = job\<lparr>o_fof_bank := bank, o_ch_buf := bufs, o_interleaved := out\<rparr> in
             if sf_writef_float (o_sf job) out (u64_of_int (o_block_size job)) \<noteq> u64_of_int (o_block_size job)
             then Some (status_code JFOFS_FAILURE, job1)
             else Some (status_code JFOFS_SUCCESS,
                        job1\<lparr>o_frame_count := o_frame_count job + u64_of_int (o_block_size job)\<rparr>) })"

subsection \<open>Nothing leaks\<close>

lemma mset_release [simp]: "mset (release r held) = mset held - {#r#}"
  by (simp add: release_def)

lemma mset_release_ch_bufs [simp]:
  "mset (release_ch_bufs i k held) = mset held - mset (map Channel_Buffer [i..<i + k])"
proof (induction i k held rule: release_ch_bufs.induct)
  case (2 i k held)
  have "[i..<i + Suc k] = i # [i + 1..<i + 1 + k]" by (simp add: upt_rec del: upt_Suc)
  then have "mset (map Channel_Buffer [i..<i + Suc k]) = add_mset (Channel_Buffer i) (mset (map Channel_Buffer [i + 1..<i + 1 + k]))"
    by (simp only: list.map mset.simps)
  with 2 show ?case by (simp del: upt_Suc mset_upt)
qed simp

text \<open>What is held once the first \<open>i\<close> channel buffers are there.\<close>

definition held_upto :: "nat \<Rightarrow> resource multiset" where
  "held_upto i = mset (map Channel_Buffer [0..<i]) + {#Fof_Bank, Memory ''job''#}"

lemma alloc_ch_bufs_held:
  assumes "i + k \<le> MAX_CHANNELS" and "mset held = held_upto i"
  shows "alloc_ch_bufs env len i k held = Some (None, []) \<or>
    (\<exists>held'. alloc_ch_bufs env len i k held = Some (Some (replicate k (replicate len 0)), held') \<and>
      mset held' = held_upto (i + k))"
  using assms
proof (induction k arbitrary: i held)
  case 0
  then show ?case by simp
next
  case (Suc k)
  show ?case
  proof (cases "oe_ch_buf env i")
    case True
    have "mset (Channel_Buffer i # held) = held_upto (Suc i)" using Suc.prems by (simp add: held_upto_def)
    moreover have "Suc i + k \<le> MAX_CHANNELS" using Suc.prems by simp
    ultimately show ?thesis using Suc.IH [of "Suc i" "Channel_Buffer i # held"] True Suc.prems(1) by auto
  next
    case False
    have "mset (release (Memory ''job'') (release Fof_Bank (release_ch_bufs 0 i held))) = {#}"
      using Suc.prems by (simp add: held_upto_def)
    then have "release (Memory ''job'') (release Fof_Bank (release_ch_bufs 0 i held)) = []"
      by (simp only: mset_zero_iff)
    then show ?thesis using False Suc.prems by simp
  qed
qed

text \<open>A job as \<open>jfofs_offline_create\<close> makes it: the buffers have the sizes of the block.\<close>

definition wf_offline_job :: "'b offline_job \<Rightarrow> bool" where
  "wf_offline_job job \<longleftrightarrow> length (o_ch_buf job) = nat (sint (o_n_chans job)) \<and>
     (\<forall>b\<in>set (o_ch_buf job). length b = nat (sint (o_block_size job))) \<and>
     length (o_interleaved job) = nat (sint (o_block_size job)) * nat (sint (o_n_chans job))"

lemma offline_create_cases:
  assumes "nat (sint (fof_ModeToChannels lib mode)) \<le> MAX_CHANNELS"
  obtains status where "jfofs_offline_create lib env rate mode n_pre block_size = Some (None, status, [])"
      "status \<noteq> status_code JFOFS_SUCCESS"
  | job held where "jfofs_offline_create lib env rate mode n_pre block_size = Some (Some job, status_code JFOFS_SUCCESS, held)"
      "mset held = {#Sound_File, Memory ''interleaved''#} + held_upto (nat (sint (fof_ModeToChannels lib mode)))"
      "o_n_chans job = fof_ModeToChannels lib mode" "o_block_size job = block_size" "o_frame_count job = 0"
      "o_ch_buf job = replicate (nat (sint (fof_ModeToChannels lib mode))) (replicate (unat (u64_of_int block_size)) 0)"
      "length (o_interleaved job) = unat (u64_of_int block_size * u64_of_int (fof_ModeToChannels lib mode))"
proof (cases "oe_job env \<and> fof_newBank lib rate mode n_pre block_size \<noteq> None")
  case False
  then show thesis by (intro that(1)) (auto simp: jfofs_offline_create_def Let_def release_def split: option.split)
next
  case True
  then obtain bank where b: "oe_job env" "fof_newBank lib rate mode n_pre block_size = Some bank" by blast
  let ?n = "nat (sint (fof_ModeToChannels lib mode))" and ?len = "unat (u64_of_int block_size)"
  have "0 + ?n \<le> MAX_CHANNELS" "mset [Fof_Bank, Memory ''job''] = held_upto 0" using assms by (simp_all add: held_upto_def)
  from alloc_ch_bufs_held [OF this, of env ?len]
  consider "alloc_ch_bufs env ?len 0 ?n [Fof_Bank, Memory ''job''] = Some (None, [])"
    | held where "alloc_ch_bufs env ?len 0 ?n [Fof_Bank, Memory ''job''] = Some (Some (replicate ?n (replicate ?len 0)), held)"
      "mset held = held_upto ?n" by auto
  then show thesis
  proof cases
    case 1
    with b show thesis by (intro that(1)) (auto simp: jfofs_offline_create_def Let_def)
  next
    case 2
    have "mset (release (Memory ''job'') (release Fof_Bank (release_ch_bufs 0 ?n held))) = {#}"
      using 2 by (simp add: held_upto_def)
    then have r: "release (Memory ''job'') (release Fof_Bank (release_ch_bufs 0 ?n held)) = []"
      by (simp only: mset_zero_iff)
    have i: "release (Memory ''interleaved'') (Memory ''interleaved'' # held) = held" by (simp add: release_def)
    show thesis
    proof (cases "oe_interleaved env \<and> oe_sf_open env \<noteq> None")
      case True
      then obtain sf where "oe_interleaved env" "oe_sf_open env = Some sf" by blast
      with b 2 have "\<exists>job held. jfofs_offline_create lib env rate mode n_pre block_size = Some (Some job, status_code JFOFS_SUCCESS, held) \<and>
          mset held = {#Sound_File, Memory ''interleaved''#} + held_upto ?n \<and>
          o_n_chans job = fof_ModeToChannels lib mode \<and> o_block_size job = block_size \<and> o_frame_count job = 0 \<and>
          o_ch_buf job = replicate ?n (replicate ?len 0) \<and>
          length (o_interleaved job) = unat (u64_of_int block_size * u64_of_int (fof_ModeToChannels lib mode))"
        by (simp add: jfofs_offline_create_def Let_def)
      then show thesis using that(2) by blast
    next
      case False
      show thesis
      proof (cases "oe_interleaved env")
        case True
        with False b 2 r i show thesis
          by (intro that(1) [of "status_code JFOFS_FAILURE"]) (auto simp: jfofs_offline_create_def Let_def)
      next
        case False
        with b 2 r show thesis
          by (intro that(1) [of "status_code JFOFS_MEMORY_ERROR"]) (auto simp: jfofs_offline_create_def Let_def)
      qed
    qed
  qed
qed

text \<open>
  C24: an offline job never leaks: creating it returns a job with success or no job with an
  error status, whatever fails on the way; after a failure nothing is held any more, and closing
  the job releases everything that creating it acquired.
\<close>

theorem offline_create_close_releases_all:
  assumes "nat (sint (fof_ModeToChannels lib mode)) \<le> MAX_CHANNELS"
  shows "\<exists>job status held. jfofs_offline_create lib env rate mode n_pre block_size = Some (job, status, held) \<and>
    (job \<noteq> None) = (status = status_code JFOFS_SUCCESS) \<and> (job = None \<longrightarrow> held = []) \<and>
    jfofs_offline_close job held = []"
  using assms
proof (cases rule: offline_create_cases [of lib mode env rate n_pre block_size])
  case (1 status)
  then show ?thesis by (simp add: jfofs_offline_close_def)
next
  case (2 job held)
  have "mset (jfofs_offline_close (Some job) held) = {#}"
    using 2(2,3) by (simp add: jfofs_offline_close_def held_upto_def)
  then have "jfofs_offline_close (Some job) held = []" by (simp only: mset_zero_iff)
  then show ?thesis using 2(1) by simp
qed

definition ex_offline :: offline_env where
  "ex_offline = \<lparr>oe_job = True, oe_ch_buf = (\<lambda>i. True), oe_interleaved = True, oe_sf_open = Some 5\<rparr>"

theorem offline_create_close_releases_all_witness:
  "\<exists>job status held. jfofs_offline_create ex_lib ex_offline 48000 2 64 4 = Some (job, status, held) \<and>
    (job \<noteq> None) = (status = status_code JFOFS_SUCCESS) \<and> (job = None \<longrightarrow> held = []) \<and>
    jfofs_offline_close job held = []"
  by (rule offline_create_close_releases_all) (simp add: ex_lib_def)

subsection \<open>What is written\<close>

lemma interleave_frame_eq:
  assumes "f * n + c + k \<le> length out" and "length out < 2 ^ 31" and "c + k \<le> length bufs"
    and "\<forall>b\<in>set bufs. f < length b"
  shows "\<exists>out'. interleave_frame n bufs f c k out = Some out' \<and> length out' = length out \<and>
    (\<forall>d. c \<le> d \<and> d < c + k \<longrightarrow> out' ! (f * n + d) = bufs ! d ! f) \<and>
    (\<forall>j. j < f * n + c \<longrightarrow> out' ! j = out ! j)"
  using assms(1-3)
proof (induction k arbitrary: c out)
  case 0
  then show ?case by auto
next
  case (Suc k)
  let ?i = "f * n + c" and ?out = "out[f * n + c := bufs ! c ! f]"
  have "f * n + (c + 1) + k \<le> length ?out" "length ?out < 2 ^ 31" "c + 1 + k \<le> length bufs" using Suc.prems by simp_all
  from Suc.IH [OF this] obtain out' where
    out': "interleave_frame n bufs f (c + 1) k ?out = Some out'" "length out' = length out"
      "\<And>d. c + 1 \<le> d \<Longrightarrow> d < c + 1 + k \<Longrightarrow> out' ! (f * n + d) = bufs ! d ! f"
      "\<And>j. j < f * n + (c + 1) \<Longrightarrow> out' ! j = ?out ! j"
    by auto
  have "f < length (bufs ! c)" using assms(4) Suc.prems by simp
  then have "interleave_frame n bufs f c (Suc k) out = Some out'"
    using out'(1) Suc.prems by (simp add: Let_def)
  moreover have "out' ! (f * n + d) = bufs ! d ! f" if "c \<le> d" "d < c + Suc k" for d
    using that out'(3) [of d] out'(4) [of ?i] Suc.prems by (cases "d = c") simp_all
  moreover have "out' ! j = out ! j" if "j < ?i" for j using that out'(4) [of j] by simp
  ultimately show ?case using out'(2) by blast
qed

lemma interleave_eq:
  assumes "(f + k) * n \<le> length out" and "length out < 2 ^ 31" and "length bufs = n"
    and "\<forall>b\<in>set bufs. f + k \<le> length b"
  shows "\<exists>out'. interleave n bufs f k out = Some out' \<and> length out' = length out \<and>
    (\<forall>g d. f \<le> g \<and> g < f + k \<and> d < n \<longrightarrow> out' ! (g * n + d) = bufs ! d ! g) \<and>
    (\<forall>j. j < f * n \<longrightarrow> out' ! j = out ! j)"
  using assms(1,2,4)
proof (induction k arbitrary: f out)
  case 0
  then show ?case by auto
next
  case (Suc k)
  have "f * n + 0 + n \<le> length out" using Suc.prems by (simp add: algebra_simps)
  moreover have "\<forall>b\<in>set bufs. f < length b" using Suc.prems(3) by auto
  ultimately obtain out1 where out1: "interleave_frame n bufs f 0 n out = Some out1" "length out1 = length out"
    "\<And>d. d < n \<Longrightarrow> out1 ! (f * n + d) = bufs ! d ! f" "\<And>j. j < f * n \<Longrightarrow> out1 ! j = out ! j"
    using interleave_frame_eq [of f n 0 n out bufs] Suc.prems assms(3) by auto
  have "(f + 1 + k) * n \<le> length out1" "length out1 < 2 ^ 31" "\<forall>b\<in>set bufs. f + 1 + k \<le> length b"
    using Suc.prems out1 by simp_all
  from Suc.IH [OF this] obtain out2 where out2: "interleave n bufs (f + 1) k out1 = Some out2"
    "length out2 = length out"
    "\<And>g d. f + 1 \<le> g \<Longrightarrow> g < f + 1 + k \<Longrightarrow> d < n \<Longrightarrow> out2 ! (g * n + d) = bufs ! d ! g"
    "\<And>j. j < (f + 1) * n \<Longrightarrow> out2 ! j = out1 ! j"
    using out1(2) by auto
  have "interleave n bufs f (Suc k) out = Some out2" using out1(1) out2(1) by simp
  moreover have "out2 ! (g * n + d) = bufs ! d ! g" if "f \<le> g" "g < f + Suc k" "d < n" for g d
  proof (cases "g = f")
    case True
    then show ?thesis using that out1(3) out2(4) [of "f * n + d"] by simp
  next
    case False
    then show ?thesis using that out2(3) by simp
  qed
  moreover have "out2 ! j = out ! j" if "j < f * n" for j using that out2(4) [of j] out1(4) [of j] by simp
  ultimately show ?case using out2(2) by blast
qed

text \<open>The library fills the buffers it is given and does not resize them.\<close>

definition keeps_shape :: "'b fofs_lib \<Rightarrow> bool" where
  "keeps_shape lib \<longleftrightarrow> (\<forall>b n bufs. map length (snd (fof_next_block lib b n bufs)) = map length bufs)"

lemma offline_process_eq:
  assumes "wf_offline_job job" and "keeps_shape lib"
    and "nat (sint (o_block_size job)) * nat (sint (o_n_chans job)) < 2 ^ 31"
  shows "\<exists>status job'. jfofs_offline_process lib wr job = Some (status, job') \<and> wf_offline_job job' \<and>
    fof_next_block lib (o_fof_bank job) (o_block_size job) (o_ch_buf job) = (o_fof_bank job', o_ch_buf job') \<and>
    (\<forall>f<nat (sint (o_block_size job)). \<forall>c<nat (sint (o_n_chans job)).
       o_interleaved job' ! (f * nat (sint (o_n_chans job)) + c) = o_ch_buf job' ! c ! f) \<and>
    (status = status_code JFOFS_SUCCESS) = (wr (o_sf job) (o_interleaved job') (u64_of_int (o_block_size job))
       = u64_of_int (o_block_size job)) \<and>
    o_frame_count job' = o_frame_count job
      + (if status = status_code JFOFS_SUCCESS then u64_of_int (o_block_size job) else 0) \<and>
    o_n_chans job' = o_n_chans job \<and> o_block_size job' = o_block_size job"
proof -
  let ?n = "nat (sint (o_n_chans job))" and ?m = "nat (sint (o_block_size job))"
  obtain bank bufs where b: "fof_next_block lib (o_fof_bank job) (o_block_size job) (o_ch_buf job) = (bank, bufs)"
    by fastforce
  have shape: "map length bufs = map length (o_ch_buf job)" using assms(2) b by (metis keeps_shape_def snd_conv)
  then have len: "length bufs = ?n" using assms(1) by (metis length_map wf_offline_job_def)
  have "set (map length bufs) \<subseteq> {?m}" using assms(1) shape by (auto simp: wf_offline_job_def)
  then have bl: "\<forall>b\<in>set bufs. length b = ?m" by auto
  have "(0 + ?m) * ?n \<le> length (o_interleaved job)" "length (o_interleaved job) < 2 ^ 31"
    using assms(1,3) by (simp_all add: wf_offline_job_def)
  from interleave_eq [OF this len] bl obtain out where
    out: "interleave ?n bufs 0 ?m (o_interleaved job) = Some out" "length out = length (o_interleaved job)"
      "\<And>g d. g < ?m \<Longrightarrow> d < ?n \<Longrightarrow> out ! (g * ?n + d) = bufs ! d ! g" by auto
  then show ?thesis
    using assms(1) b len bl by (auto simp: jfofs_offline_process_def Let_def wf_offline_job_def)
qed

text \<open>
  C23: rendering a block always returns and writes the channels interleaved: sample \<open>c\<close> of frame
  \<open>f\<close> of what goes to the file is sample \<open>f\<close> of what the bank rendered for channel \<open>c\<close>. The
  status is success, and the frame counter moves by one block, exactly when the whole block was
  written; the job stays well formed. (The library keeps the size of the buffers it fills; a
  block has fewer than \<open>2 ^ 31\<close> samples.)
\<close>

theorem offline_process_interleaves:
  assumes "wf_offline_job job" and "keeps_shape lib"
    and "nat (sint (o_block_size job)) * nat (sint (o_n_chans job)) < 2 ^ 31"
  shows "\<exists>status job'. jfofs_offline_process lib wr job = Some (status, job') \<and> wf_offline_job job' \<and>
    fof_next_block lib (o_fof_bank job) (o_block_size job) (o_ch_buf job) = (o_fof_bank job', o_ch_buf job') \<and>
    (\<forall>f<nat (sint (o_block_size job)). \<forall>c<nat (sint (o_n_chans job)).
       o_interleaved job' ! (f * nat (sint (o_n_chans job)) + c) = o_ch_buf job' ! c ! f) \<and>
    (status = status_code JFOFS_SUCCESS) = (wr (o_sf job) (o_interleaved job') (u64_of_int (o_block_size job))
       = u64_of_int (o_block_size job)) \<and>
    o_frame_count job' = o_frame_count job
      + (if status = status_code JFOFS_SUCCESS then u64_of_int (o_block_size job) else 0)"
  using offline_process_eq [OF assms, of wr] by blast

definition ex_job :: "(u64 \<times> c_float list) list offline_job" where
  "ex_job = \<lparr>o_fof_bank = [], o_sf = 5, o_n_chans = 2, o_block_size = 2, o_ch_buf = [[1, 2], [3, 4]],
     o_interleaved = [0, 0, 0, 0], o_frame_count = 6\<rparr>"

theorem offline_process_interleaves_witness:
  "\<exists>status job'. jfofs_offline_process ex_lib (\<lambda>sf out n. n) ex_job = Some (status, job') \<and> wf_offline_job job' \<and>
    status = status_code JFOFS_SUCCESS \<and> o_frame_count job' = 8"
proof -
  have "wf_offline_job ex_job" "keeps_shape ex_lib"
    "nat (sint (o_block_size ex_job)) * nat (sint (o_n_chans ex_job)) < 2 ^ 31"
    by (simp_all add: wf_offline_job_def ex_job_def keeps_shape_def ex_lib_def)
  from offline_process_interleaves [OF this, of "\<lambda>sf out n. n"] show ?thesis
    by (auto simp: ex_job_def)
qed

subsection \<open>A whole session\<close>

text \<open>
  What a caller does between creating and closing: adding fofs and rendering blocks. \<open>Render\<close>
  carries what \<open>sf_writef_float\<close> answers this time. The result counts the blocks that were
  reported as a success.
\<close>

datatype offline_op = Add u64 "c_float list" | Render "nat \<Rightarrow> c_float list \<Rightarrow> u64 \<Rightarrow> u64"

fun offline_run :: "'b fofs_lib \<Rightarrow> offline_op list \<Rightarrow> 'b offline_job \<Rightarrow> (nat \<times> 'b offline_job) option" where
  "offline_run lib [] job = Some (0, job)"
| "offline_run lib (Add t args # ops) job = offline_run lib ops (snd (jfofs_offline_add lib job t args))"
| "offline_run lib (Render wr # ops) job =
     do { (status, job1) \<leftarrow> jfofs_offline_process lib wr job;
          (k, job2) \<leftarrow> offline_run lib ops job1;
          Some ((if status = status_code JFOFS_SUCCESS then k + 1 else k), job2) }"

lemma offline_add_fields [simp]:
  "o_n_chans (snd (jfofs_offline_add lib job t args)) = o_n_chans job"
  "o_block_size (snd (jfofs_offline_add lib job t args)) = o_block_size job"
  "o_frame_count (snd (jfofs_offline_add lib job t args)) = o_frame_count job"
  "wf_offline_job (snd (jfofs_offline_add lib job t args)) = wf_offline_job job"
  by (simp_all add: jfofs_offline_add_def wf_offline_job_def split: prod.split)

lemma offline_run_counts:
  assumes "keeps_shape lib"
  shows "wf_offline_job job \<Longrightarrow> nat (sint (o_block_size job)) * nat (sint (o_n_chans job)) < 2 ^ 31 \<Longrightarrow>
    \<exists>k job'. offline_run lib ops job = Some (k, job') \<and> k \<le> length ops \<and>
      o_frame_count job' = o_frame_count job + of_nat k * u64_of_int (o_block_size job)"
proof (induction ops arbitrary: job)
  case Nil
  then show ?case by simp
next
  case (Cons op ops)
  show ?case
  proof (cases op)
    case (Add t args)
    have "wf_offline_job (snd (jfofs_offline_add lib job t args))"
      "nat (sint (o_block_size (snd (jfofs_offline_add lib job t args)))) * nat (sint (o_n_chans (snd (jfofs_offline_add lib job t args)))) < 2 ^ 31"
      using Cons.prems by simp_all
    from Cons.IH [OF this] show ?thesis using Add by (fastforce intro: le_SucI)
  next
    case (Render w)
    obtain status job1 where p: "jfofs_offline_process lib w job = Some (status, job1)" "wf_offline_job job1"
      "o_frame_count job1 = o_frame_count job + (if status = status_code JFOFS_SUCCESS then u64_of_int (o_block_size job) else 0)"
      "o_n_chans job1 = o_n_chans job" "o_block_size job1 = o_block_size job"
      using offline_process_eq [OF Cons.prems(1) assms Cons.prems(2), of w] by blast
    then obtain k job2 where "offline_run lib ops job1 = Some (k, job2)" "k \<le> length ops"
      "o_frame_count job2 = o_frame_count job1 + of_nat k * u64_of_int (o_block_size job)"
      using Cons.IH [of job1] Cons.prems(2) by auto
    with p show ?thesis using Render by (auto simp: algebra_simps)
  qed
qed

lemma created_job_wf:
  assumes "jfofs_offline_create lib env rate mode n_pre block_size = Some (Some job, status, held)"
    and "nat (sint (fof_ModeToChannels lib mode)) \<le> MAX_CHANNELS"
    and "0 \<le> sint block_size" and "0 \<le> sint (fof_ModeToChannels lib mode)"
  shows "wf_offline_job job" "o_n_chans job = fof_ModeToChannels lib mode" "o_block_size job = block_size"
    "o_frame_count job = 0"
proof -
  let ?n = "fof_ModeToChannels lib mode"
  have "unat (u64_of_int block_size) * unat (u64_of_int ?n) < 2 ^ 64"
  proof -
    have "unat (u64_of_int block_size) < 2 ^ 31" using assms(3) sint_lt [of block_size] by (simp add: unat_u64_of_int nat_less_iff)
    moreover have "unat (u64_of_int ?n) \<le> 8" using assms(2,4) by (simp add: unat_u64_of_int)
    ultimately have "unat (u64_of_int block_size) * unat (u64_of_int ?n) \<le> 2 ^ 31 * 8" by (intro mult_le_mono) simp_all
    then show ?thesis by (rule le_less_trans) simp
  qed
  then have "unat (u64_of_int block_size * u64_of_int ?n) = nat (sint block_size) * nat (sint ?n)"
    using assms(3,4) by (simp add: unat_mult_lem [THEN iffD1] unat_u64_of_int)
  note len = this
  have "wf_offline_job job \<and> o_n_chans job = ?n \<and> o_block_size job = block_size \<and> o_frame_count job = 0"
  proof (cases rule: offline_create_cases [OF assms(2), of env rate n_pre block_size])
    case (1 status')
    then show ?thesis using assms(1) by simp
  next
    case (2 job' held')
    then have "job' = job" using assms(1) by simp
    with 2 len show ?thesis using assms(3) by (simp add: wf_offline_job_def unat_u64_of_int)
  qed
  then show "wf_offline_job job" "o_n_chans job = ?n" "o_block_size job = block_size" "o_frame_count job = 0"
    by simp_all
qed

text \<open>
  A whole session: between creating a job and closing it, any sequence of additions and
  blocks runs to its end, and the frame counter then stands at the block size times the number
  of blocks that were reported as a success; a block that could not be written does not count.
\<close>

theorem offline_session_counts_written_blocks:
  assumes "jfofs_offline_create lib env rate mode n_pre block_size = Some (Some job, status, held)"
    and "keeps_shape lib"
    and "nat (sint (fof_ModeToChannels lib mode)) \<le> MAX_CHANNELS" and "0 \<le> sint (fof_ModeToChannels lib mode)"
    and "0 \<le> sint block_size" and "nat (sint block_size) * nat (sint (fof_ModeToChannels lib mode)) < 2 ^ 31"
    and "length ops * nat (sint block_size) < 2 ^ 64"
  shows "\<exists>k job'. offline_run lib ops job = Some (k, job') \<and>
    unat (o_frame_count job') = k * nat (sint block_size)"
proof -
  note c = created_job_wf [OF assms(1,3,5,4)]
  obtain k job' where r: "offline_run lib ops job = Some (k, job')" "k \<le> length ops"
    "o_frame_count job' = of_nat k * u64_of_int block_size"
    using offline_run_counts [OF assms(2) c(1), of ops] assms(6) c by auto
  have "of_nat (nat (sint block_size)) = u64_of_int block_size"
    by (simp flip: unat_u64_of_int [OF assms(5)])
  with r(3) have "o_frame_count job' = of_nat (k * nat (sint block_size))" by simp
  moreover have "k * nat (sint block_size) < 2 ^ 64"
    using mult_le_mono1 [OF r(2)] assms(7) by (rule le_less_trans)
  ultimately have "unat (o_frame_count job') = k * nat (sint block_size)"
    by (simp add: unsigned_of_nat take_bit_nat_eq_self del: of_nat_mult)
  with r(1) show ?thesis by blast
qed

theorem offline_session_counts_written_blocks_witness:
  "\<exists>job status held k job'. jfofs_offline_create ex_lib ex_offline 48000 2 64 4 = Some (Some job, status, held) \<and>
    offline_run ex_lib [Add 0 [1], Render (\<lambda>sf out n. n), Render (\<lambda>sf out n. 0)] job = Some (k, job') \<and>
    unat (o_frame_count job') = k * nat (sint (4 :: c_int))"
proof -
  have ch: "fof_ModeToChannels ex_lib 2 = 2" "nat (sint (2 :: c_int)) = 2" "nat (sint (4 :: c_int)) = 4"
    by (simp_all add: ex_lib_def)
  obtain job status held where c: "jfofs_offline_create ex_lib ex_offline 48000 2 64 4 = Some (Some job, status, held)"
    by (cases rule: offline_create_cases [of ex_lib 2 ex_offline 48000 64 4])
      (simp_all add: ex_lib_def ex_offline_def jfofs_offline_create_def Let_def numeral_2_eq_2)
  have k: "keeps_shape ex_lib" by (simp add: keeps_shape_def ex_lib_def)
  from offline_session_counts_written_blocks [OF c k, of "[Add 0 [1], Render (\<lambda>sf out n. n), Render (\<lambda>sf out n. 0)]"]
  obtain k job' where "offline_run ex_lib [Add 0 [1], Render (\<lambda>sf out n. n), Render (\<lambda>sf out n. 0)] job = Some (k, job')"
    "unat (o_frame_count job') = k * nat (sint (4 :: c_int))"
    using ch by (auto simp: ex_lib_def)
  with c show ?thesis by blast
qed

end
