(* ===== verification/Signal_Tester.thy ===== *)
theory Signal_Tester
  imports External
begin

text \<open>
  The signal tester of \<^verbatim>\<open>signal_tester_client.c\<close>: a JACK client that accumulates sum of squares,
  minimum and maximum of the first \<open>n_frames\<close> samples it receives. The float operations of the
  machine are parameters.
\<close>

record float_ops =
  f_add :: "c_float \<Rightarrow> c_float \<Rightarrow> c_float"
  f_mul :: "c_float \<Rightarrow> c_float \<Rightarrow> c_float"
  f_div :: "c_float \<Rightarrow> c_float \<Rightarrow> c_float"
  f_less :: "c_float \<Rightarrow> c_float \<Rightarrow> bool"
  f_sqrt :: "c_float \<Rightarrow> c_float"
  f_of_u64 :: "u64 \<Rightarrow> c_float"

record signal_tester =
  t_j_client :: nat
  t_in_port :: nat
  t_n :: u64
  t_n_frames :: u64
  t_sum :: c_float
  t_min :: c_float
  t_max :: c_float

text \<open>The bit patterns of \<open>0.0f\<close>, \<open>FLT_MAX\<close> and \<open>-FLT_MAX\<close>.\<close>

definition signal_tester_client_reset :: "signal_tester \<Rightarrow> signal_tester" where
  "signal_tester_client_reset stc = stc\<lparr>t_n := 0, t_sum := 0, t_min := 0x7F7FFFFF, t_max := 0xFF7FFFFF\<rparr>"

text \<open>The client, the value of \<open>*status\<close> and the resources still held.\<close>

definition signal_tester_client_new :: "jack_setup \<Rightarrow> signal_tester option \<times> c_int \<times> resource list" where
  "signal_tester_client_new env =
     (let status = env_memalign env in
      if status \<noteq> 0 then (None, status, [])
      else case env_client_open env of
        None \<Rightarrow> (None, status, [])
      | Some j \<Rightarrow>
          (case env_port env ''in'' of
             None \<Rightarrow> (None, status, [Jack_Client])
           | Some p \<Rightarrow>
               (Some (signal_tester_client_reset \<lparr>t_j_client = j, t_in_port = p, t_n = 0, t_n_frames = 0,
                        t_sum = 0, t_min = 0, t_max = 0\<rparr>),
                status, [Memory ''stc'', Jack_Client])))"

definition signal_tester_client_set_nframes :: "signal_tester \<Rightarrow> u64 \<Rightarrow> signal_tester" where
  "signal_tester_client_set_nframes stc n = stc\<lparr>t_n_frames := n\<rparr>"

text \<open>A warning is printed when no frames were asked for.\<close>

definition signal_tester_client_activate :: "signal_tester \<Rightarrow> bool \<times> jack_call list" where
  "signal_tester_client_activate stc = (t_n_frames stc = 0, [Jack_Activate (t_j_client stc)])"

definition signal_tester_client_deactivate :: "signal_tester \<Rightarrow> jack_call list" where
  "signal_tester_client_deactivate stc = [Jack_Deactivate (t_j_client stc)]"

text \<open>The calls, and what is released; a constructed client always has its JACK client.\<close>

definition signal_tester_client_free :: "signal_tester \<Rightarrow> jack_call list \<times> resource list" where
  "signal_tester_client_free stc =
     ([Jack_Deactivate (t_j_client stc), Jack_Client_Close (t_j_client stc)], [Memory ''stc'', Jack_Client])"

text \<open>What the constructor acquired is released, unless the port was refused: then the client leaks.\<close>

lemma signal_tester_new_then_free:
  "case signal_tester_client_new env of
     (Some stc, status, held) \<Rightarrow> status = 0 \<and> set (snd (signal_tester_client_free stc)) = set held
   | (None, status, held) \<Rightarrow> held = (if env_memalign env = 0 \<and> env_client_open env \<noteq> None then [Jack_Client] else [])"
  by (auto simp: signal_tester_client_new_def signal_tester_client_free_def Let_def split: option.splits)

definition signal_tester_client_rms :: "float_ops \<Rightarrow> signal_tester \<Rightarrow> c_float" where
  "signal_tester_client_rms fl stc = f_sqrt fl (f_div fl (t_sum stc) (f_of_u64 fl (t_n stc)))"

text \<open>The body of the loop for one sample, and the loop from sample \<open>i\<close> on.\<close>

definition stc_sample :: "float_ops \<Rightarrow> c_float \<Rightarrow> signal_tester \<Rightarrow> signal_tester" where
  "stc_sample fl x stc = stc\<lparr>t_sum := f_add fl (t_sum stc) (f_mul fl x x),
     t_min := (if f_less fl x (t_min stc) then x else t_min stc),
     t_max := (if f_less fl (t_max stc) x then x else t_max stc),
     t_n := t_n stc + 1\<rparr>"

fun stc_loop :: "float_ops \<Rightarrow> c_float list \<Rightarrow> nat \<Rightarrow> nat \<Rightarrow> signal_tester \<Rightarrow> signal_tester option" where
  "stc_loop fl buf i 0 stc = Some stc"
| "stc_loop fl buf i (Suc k) stc =
     (if t_n stc < t_n_frames stc
      then if i < length buf then stc_loop fl buf (i + 1) k (stc_sample fl (buf ! i) stc) else None
      else Some stc)"

text \<open>The process callback: \<open>buf\<close> is what \<open>jack_port_get_buffer\<close> returned.\<close>

definition stc_process ::
  "float_ops \<Rightarrow> jack_nframes_t \<Rightarrow> c_float list \<Rightarrow> signal_tester \<Rightarrow> (c_int \<times> signal_tester) option" where
  "stc_process fl nframes buf stc = do { stc' \<leftarrow> stc_loop fl buf 0 (unat nframes) stc; Some (0, stc') }"

fun stc_blocks :: "float_ops \<Rightarrow> (jack_nframes_t \<times> c_float list) list \<Rightarrow> signal_tester \<Rightarrow> signal_tester option" where
  "stc_blocks fl [] stc = Some stc"
| "stc_blocks fl ((n, buf) # bs) stc = do { (r, stc1) \<leftarrow> stc_process fl n buf stc; stc_blocks fl bs stc1 }"

subsection \<open>The first samples of the signal\<close>

definition wanted :: "signal_tester \<Rightarrow> nat" where
  "wanted stc = unat (t_n_frames stc) - unat (t_n stc)"

lemma wanted_zero: "wanted stc = 0 \<longleftrightarrow> \<not> t_n stc < t_n_frames stc"
  by (auto simp: wanted_def word_less_nat_alt)

lemma wanted_sample: "wanted stc = Suc k \<Longrightarrow> wanted (stc_sample fl x stc) = k"
proof -
  assume k: "wanted stc = Suc k"
  then have "unat (t_n stc) < unat (t_n_frames stc)" by (simp add: wanted_def)
  then have "unat (t_n stc) + unat (1 :: u64) < 2 ^ LENGTH(64)"
    using unsigned_less [of "t_n_frames stc", where ?'a = nat] by simp
  then have "unat (t_n stc + 1) = Suc (unat (t_n stc))" by (simp add: unat_add_lem [THEN iffD1])
  with k show ?thesis by (simp add: wanted_def stc_sample_def)
qed

lemma wanted_fold: "wanted (fold (stc_sample fl) (take (wanted stc) xs) stc) = wanted stc - length xs"
proof (induction xs arbitrary: stc)
  case (Cons x xs)
  show ?case
  proof (cases "wanted stc")
    case (Suc k)
    then show ?thesis using Cons.IH [of "stc_sample fl x stc"] by (simp add: wanted_sample)
  qed simp
qed simp

lemma stc_loop_eq:
  "i + k \<le> length buf \<Longrightarrow>
   stc_loop fl buf i k stc = Some (fold (stc_sample fl) (take (wanted stc) (take k (drop i buf))) stc)"
proof (induction k arbitrary: i stc)
  case (Suc k)
  have d: "drop i buf = buf ! i # drop (Suc i) buf" using Suc.prems by (simp add: Cons_nth_drop_Suc)
  show ?case
  proof (cases "wanted stc")
    case 0
    then show ?thesis using wanted_zero [of stc] by simp
  next
    case (Suc w)
    then have "t_n stc < t_n_frames stc" using wanted_zero [of stc] by simp
    then show ?thesis
      using Suc Suc.IH [of "Suc i" "stc_sample fl (buf ! i) stc"] Suc.prems d by (simp add: wanted_sample)
  qed
qed simp

text \<open>
  The tester does not depend on how JACK cuts the signal into blocks: whatever the blocks, it
  ends in the state that accumulating the first \<open>n_frames - n\<close> samples of the whole signal, one
  after the other, leads to.
\<close>

theorem stc_accumulates_prefix:
  assumes "\<forall>(n, buf)\<in>set blocks. unat n \<le> length buf"
  shows "stc_blocks fl blocks stc = Some (fold (stc_sample fl)
    (take (unat (t_n_frames stc) - unat (t_n stc)) (concat (map (\<lambda>(n, buf). take (unat n) buf) blocks))) stc)"
  using assms
proof (induction blocks arbitrary: stc)
  case (Cons b bs)
  obtain n buf where b: "b = (n, buf)" by fastforce
  let ?xs = "take (unat n) buf" and ?rest = "concat (map (\<lambda>(n, buf). take (unat n) buf) bs)"
  let ?stc = "fold (stc_sample fl) (take (wanted stc) ?xs) stc"
  have "stc_process fl n buf stc = Some (0, ?stc)"
    using stc_loop_eq [of 0 "unat n" buf fl stc] Cons.prems b by (simp add: stc_process_def)
  moreover have "stc_blocks fl bs ?stc = Some (fold (stc_sample fl) (take (wanted ?stc) ?rest) ?stc)"
    using Cons by (simp add: wanted_def)
  moreover have "take (wanted stc) (?xs @ ?rest) = take (wanted stc) ?xs @ take (wanted ?stc) ?rest"
    unfolding wanted_fold by (simp only: take_append)
  ultimately show ?case by (simp only: b wanted_def [symmetric] stc_blocks.simps bind.bind_lunit prod.case list.map concat.simps fold_append comp_apply)
qed simp

definition ex_float :: float_ops where
  "ex_float = \<lparr>f_add = (+), f_mul = (*), f_div = (div), f_less = (<), f_sqrt = (\<lambda>x. x), f_of_u64 = ucast\<rparr>"

definition ex_stc :: signal_tester where
  "ex_stc = \<lparr>t_j_client = 0, t_in_port = 1, t_n = 0, t_n_frames = 3, t_sum = 0, t_min = 9, t_max = 0\<rparr>"

theorem stc_accumulates_prefix_witness:
  "stc_blocks ex_float [(2, [1, 2]), (2, [3, 4])] ex_stc = Some (fold (stc_sample ex_float) [1, 2, 3] ex_stc) \<and>
   t_sum (fold (stc_sample ex_float) [1, 2, 3] ex_stc) = 14"
proof
  have "\<forall>(n, buf)\<in>set [(2 :: jack_nframes_t, [1, 2]), (2, [3, 4 :: c_float])]. unat n \<le> length buf" by simp
  from stc_accumulates_prefix [OF this, of ex_float ex_stc]
  have "stc_blocks ex_float [(2, [1, 2]), (2, [3, 4])] ex_stc = Some (fold (stc_sample ex_float) (take 3 [1, 2, 3, 4]) ex_stc)"
    by (simp add: ex_stc_def)
  then show "stc_blocks ex_float [(2, [1, 2]), (2, [3, 4])] ex_stc = Some (fold (stc_sample ex_float) [1, 2, 3] ex_stc)"
    by (simp add: eval_nat_numeral)
  show "t_sum (fold (stc_sample ex_float) [1, 2, 3] ex_stc) = 14"
    by (simp add: ex_stc_def ex_float_def stc_sample_def)
qed

end
