(* ===== verification/Sin_Gen.thy ===== *)
theory Sin_Gen
  imports External
begin

text \<open>
  The signal generator of \<^verbatim>\<open>sin_gen.c\<close>, the JACK client that feeds the tests. A \<open>double\<close> is its bit
  pattern and the float operations of the machine are parameters.
\<close>

record double_ops =
  g_two_pi :: "64 word"
  g_mul :: "64 word \<Rightarrow> 64 word \<Rightarrow> 64 word"
  g_div :: "64 word \<Rightarrow> 64 word \<Rightarrow> 64 word"
  g_sin :: "64 word \<Rightarrow> 64 word"
  g_of_u32 :: "u32 \<Rightarrow> 64 word"
  g_to_float :: "64 word \<Rightarrow> c_float"

record sin_gen =
  ang_velocity :: "64 word"
  amplitude :: "64 word"
  g_j_client :: nat
  g_out_port :: nat

text \<open>The client, the value of \<open>*status\<close> and the resources still held.\<close>

definition sin_gen_new ::
  "double_ops \<Rightarrow> jack_setup \<Rightarrow> 64 word \<Rightarrow> 64 word \<Rightarrow> sin_gen option \<times> c_int \<times> resource list" where
  "sin_gen_new fl env freq ampl =
     (let status = env_memalign env in
      if status \<noteq> 0 then (None, status, [])
      else case env_client_open env of
        None \<Rightarrow> (None, status_code JFOFS_JACK_ERROR_MASK OR env_jstatus env, [Memory ''sgen''])
      | Some j \<Rightarrow>
          (let vel = g_div fl (g_mul fl (g_two_pi fl) freq) (g_of_u32 fl (env_sample_rate env)) in
           case env_port env ''output'' of
             None \<Rightarrow> (None, status_code JFOFS_PORT_ERROR, [Memory ''sgen'', Jack_Client])
           | Some p \<Rightarrow> (Some \<lparr>ang_velocity = vel, amplitude = ampl, g_j_client = j, g_out_port = p\<rparr>,
                        status, [Memory ''sgen'', Jack_Client])))"

text \<open>One sample, the loop that writes them from index \<open>i\<close> on, and the process callback.\<close>

definition sin_sample :: "double_ops \<Rightarrow> sin_gen \<Rightarrow> u32 \<Rightarrow> c_float" where
  "sin_sample fl sgen n = g_to_float fl (g_mul fl (amplitude sgen) (g_sin fl (g_mul fl (ang_velocity sgen) (g_of_u32 fl n))))"

fun sin_loop :: "double_ops \<Rightarrow> sin_gen \<Rightarrow> u32 \<Rightarrow> u32 \<Rightarrow> nat \<Rightarrow> c_float list" where
  "sin_loop fl sgen nframes0 i 0 = []"
| "sin_loop fl sgen nframes0 i (Suc k) = sin_sample fl sgen (i + nframes0) # sin_loop fl sgen nframes0 (i + 1) k"

definition sin_gen_process :: "double_ops \<Rightarrow> jack_nframes_t \<Rightarrow> jack_nframes_t \<Rightarrow> sin_gen \<Rightarrow> c_int \<times> c_float list" where
  "sin_gen_process fl last_frame_time nframes sgen = (0, sin_loop fl sgen last_frame_time 0 (unat nframes))"

definition sin_gen_activate :: "(nat \<Rightarrow> c_int) \<Rightarrow> sin_gen \<Rightarrow> c_int" where
  "sin_gen_activate jack_activate sgen = jack_activate (g_j_client sgen)"

definition sin_gen_deactivate :: "(nat \<Rightarrow> c_int) \<Rightarrow> sin_gen \<Rightarrow> c_int" where
  "sin_gen_deactivate jack_deactivate sgen = jack_deactivate (g_j_client sgen)"

definition sin_gen_free :: "sin_gen \<Rightarrow> jack_call list \<times> resource list" where
  "sin_gen_free sgen = ([Jack_Deactivate (g_j_client sgen), Jack_Client_Close (g_j_client sgen)],
     [Memory ''sgen'', Jack_Client])"

text \<open>A generator that could be made gives back all it holds; one that could not leaks what it had.\<close>

lemma sin_gen_new_then_free:
  "case sin_gen_new fl env freq ampl of
     (Some sgen, status, held) \<Rightarrow> status = 0 \<and> snd (sin_gen_free sgen) = held
   | (None, status, held) \<Rightarrow> env_memalign env = 0 \<longrightarrow> Memory ''sgen'' \<in> set held"
  by (auto simp: sin_gen_new_def sin_gen_free_def Let_def split: option.splits)

subsection \<open>One wave over all blocks\<close>

lemma sin_loop_eq: "sin_loop fl sgen n0 i k = map (\<lambda>j. sin_sample fl sgen (n0 + i + of_nat j)) [0..<k]"
proof (induction k arbitrary: i)
  case (Suc k)
  have "[0..<Suc k] = 0 # map Suc [0..<k]" by (simp add: map_Suc_upt upt_conv_Cons)
  with Suc [of "i + 1"] show ?case by (simp add: ac_simps comp_def del: upt_Suc)
qed simp

text \<open>Consecutive blocks from frame \<open>n0\<close> on, as JACK numbers them: the frame counter wraps.\<close>

fun sin_blocks :: "double_ops \<Rightarrow> sin_gen \<Rightarrow> u32 \<Rightarrow> u32 list \<Rightarrow> c_float list" where
  "sin_blocks fl sgen n0 [] = []"
| "sin_blocks fl sgen n0 (n # ns) = snd (sin_gen_process fl n0 n sgen) @ sin_blocks fl sgen (n0 + n) ns"

text \<open>However JACK cuts the time into blocks, the output is the same wave without a seam.\<close>

lemma sin_blocks_seamless:
  "sin_blocks fl sgen n0 ns = map (\<lambda>j. sin_sample fl sgen (n0 + of_nat j)) [0..<sum_list (map unat ns)]"
proof (induction ns arbitrary: n0)
  case (Cons n ns)
  have "map ((+) (unat n)) [0..<m] = [unat n..<unat n + m]" for m
    by (rule nth_equalityI) simp_all
  then have "[0..<unat n + m] = [0..<unat n] @ map ((+) (unat n)) [0..<m]" for m
    by (simp only: upt_add_eq_append [OF le0])
  with Cons.IH [of "n0 + n"] show ?case
    by (simp add: sin_gen_process_def sin_loop_eq comp_def add.assoc)
qed simp

end
