(* ===== verification/Debug.thy ===== *)
theory Debug
  imports Examples
begin

text \<open>
  The checks of a \<open>DEBUG_ENABLE\<close> build in \<^verbatim>\<open>debug.c\<close>: the address range of the fof array and the
  integrity check of the free list. Addresses are cell indices, \<open>fof_max\<close> one past the last cell.
\<close>

record debug_info =
  fof_min :: nat
  fof_max :: nat
  ctrl_entry_cnt :: c_int

definition define_fof_limits :: "nat \<Rightarrow> nat \<Rightarrow> debug_info" where
  "define_fof_limits mn mx = \<lparr>fof_min = mn, fof_max = mx, ctrl_entry_cnt = 0\<rparr>"

text \<open>The second result tells whether the message is printed.\<close>

definition add_ctrl_entry_cnt :: "c_int \<Rightarrow> debug_info \<Rightarrow> debug_info \<times> bool" where
  "add_ctrl_entry_cnt i dbg =
     (let dbg1 = dbg\<lparr>ctrl_entry_cnt := ctrl_entry_cnt dbg + i\<rparr> in (dbg1, 1 < sint (ctrl_entry_cnt dbg1)))"

definition check_fof_addr :: "debug_info \<Rightarrow> nat \<Rightarrow> bool" where
  "check_fof_addr dbg fof \<longleftrightarrow> fof < fof_min dbg \<or> fof_max dbg < fof"

definition check_fof_addrz :: "debug_info \<Rightarrow> cell_ptr \<Rightarrow> bool" where
  "check_fof_addrz dbg fof \<longleftrightarrow> (case fof of None \<Rightarrow> False | Some a \<Rightarrow> check_fof_addr dbg a)"

text \<open>
  The loop of \<open>check_free_list\<close>: the error count, or -1 once more cells were seen than the pool
  has. Indexing \<open>fof_visited\<close> out of range is undefined.
\<close>

definition mark_visited :: "debug_info \<Rightarrow> int \<Rightarrow> nat \<Rightarrow> nat list \<Rightarrow> int \<Rightarrow> (nat list \<times> int) option" where
  "mark_visited dbg max_fofs a visited errs =
     (let ofs = int a - int (fof_min dbg);
          errs = (if max_fofs < ofs \<or> ofs < 0 then errs + 1 else errs) in
      if 0 \<le> ofs \<and> nat ofs < length visited
      then Some (visited[nat ofs := visited ! nat ofs + 1], if visited ! nat ofs \<noteq> 0 then errs + 1 else errs)
      else None)"

function check_list ::
  "debug_info \<Rightarrow> bool \<Rightarrow> fof_queue \<Rightarrow> cell_ptr \<Rightarrow> nat list \<Rightarrow> int \<Rightarrow> int \<Rightarrow> (int \<times> int) option" where
  "check_list dbg integrity q fof visited cnt errs =
     (case fof of None \<Rightarrow> Some (errs, cnt)
      | Some a \<Rightarrow>
          let errs = (if check_fof_addr dbg a then errs + 1 else errs) in
          do { (visited, errs) \<leftarrow> (if integrity then mark_visited dbg (sint (q_max_fofs q)) a visited errs
                                  else Some (visited, errs));
               nxt \<leftarrow> load_next fof q;
               if sint (q_max_fofs q) < cnt + 1 then Some (-1, cnt + 1)
               else check_list dbg integrity q nxt visited (cnt + 1) errs })"
  by pat_completeness auto

termination
  by (relation "measure (\<lambda>(dbg, integrity, q, fof, visited, cnt, errs). nat (sint (q_max_fofs q) - cnt))") auto

declare check_list.simps [simp del]

text \<open>The value returned and \<open>*cnt\<close> afterwards.\<close>

definition check_free_list :: "debug_info \<Rightarrow> fof_queue \<Rightarrow> int \<Rightarrow> bool \<Rightarrow> (int \<times> int) option" where
  "check_free_list dbg q cnt integrity =
     check_list dbg integrity q (q_free_fofs q) (replicate (nat (sint (q_max_fofs q))) 0) cnt 0"

subsection \<open>What a clean check means\<close>

abbreviation pool_size :: "fof_queue \<Rightarrow> nat" where
  "pool_size q \<equiv> nat (sint (q_max_fofs q))"

text \<open>The array of marks: \<open>V\<close> is the set of cells seen.\<close>

definition marks :: "fof_queue \<Rightarrow> nat set \<Rightarrow> nat list \<Rightarrow> bool" where
  "marks q V visited \<longleftrightarrow> length visited = pool_size q \<and> (\<forall>i<pool_size q. (visited ! i \<noteq> 0) = (i \<in> V))"

lemma mark_visited_eq:
  assumes "marks q V visited" and "fof_min dbg = 0"
  shows "mark_visited dbg (sint (q_max_fofs q)) a visited errs =
     (if a < pool_size q then Some (visited[a := visited ! a + 1], if a \<in> V then errs + 1 else errs) else None)"
    and "a < pool_size q \<Longrightarrow> marks q (insert a V) (visited[a := visited ! a + 1])"
  using assms by (auto simp: mark_visited_def marks_def Let_def nth_list_update zless_nat_eq_int_zless)

lemma check_list_proper:
  assumes "dbg = define_fof_limits 0 (pool_size q)" and "length (q_mem q) = pool_size q"
  shows "chain (nexts q) p xs \<Longrightarrow> set xs \<subseteq> {..<pool_size q} \<Longrightarrow> set xs \<inter> V = {} \<Longrightarrow> V \<subseteq> {..<pool_size q} \<Longrightarrow>
    marks q V visited \<Longrightarrow> cnt = int (card V) \<Longrightarrow>
    check_list dbg True q p visited cnt errs = Some (errs, cnt + int (length xs))"
proof (induction xs arbitrary: p V visited cnt)
  case Nil
  then show ?case by (simp add: check_list.simps)
next
  case (Cons a xs)
  have fin: "finite V" using Cons.prems(4) by (rule finite_subset) simp
  have a: "p = Some a" "a < pool_size q" "a \<notin> V" "chain (nexts q) (nexts q a) xs" using Cons.prems by auto
  have "a \<notin> set xs" using chain_distinct [OF Cons.prems(1)] by simp
  have card: "card (insert a V) = Suc (card V)" using fin a(3) by simp
  have "card (insert a V) \<le> card {..<pool_size q}" using Cons.prems(4) a(2) by (intro card_mono) auto
  then have cnt: "\<not> sint (q_max_fofs q) < cnt + 1" using card Cons.prems(6) by simp
  have IH: "check_list dbg True q (nexts q a) (visited[a := visited ! a + 1]) (cnt + 1) errs
      = Some (errs, cnt + 1 + int (length xs))"
    using Cons.prems a \<open>a \<notin> set xs\<close> card mark_visited_eq(2) [OF Cons.prems(5), of dbg a] assms(1)
    by (intro Cons.IH [of "nexts q a" "insert a V"]) (auto simp: define_fof_limits_def)
  have "mark_visited dbg (sint (q_max_fofs q)) a visited errs = Some (visited[a := visited ! a + 1], errs)"
    using mark_visited_eq(1) [OF Cons.prems(5), of dbg a errs] a assms(1) by (simp add: define_fof_limits_def)
  then show ?case
    using IH a cnt assms by (subst check_list.simps)
      (simp add: Let_def check_fof_addr_def define_fof_limits_def load_next_def nexts_def)
qed

lemma check_list_clean:
  assumes "dbg = define_fof_limits 0 (pool_size q)" and "length (q_mem q) = pool_size q"
  shows "check_list dbg integrity q p visited cnt errs = Some (0, k) \<Longrightarrow> integrity \<Longrightarrow> 0 \<le> errs \<Longrightarrow> marks q V visited \<Longrightarrow>
    errs = 0 \<and> (\<exists>xs. chain (nexts q) p xs \<and> set xs \<subseteq> {..<pool_size q} \<and> k = cnt + int (length xs))"
  using assms
proof (induction dbg integrity q p visited cnt errs arbitrary: V rule: check_list.induct)
  case (1 dbg integrity q p visited cnt errs)
  show ?case
  proof (cases p)
    case None
    then show ?thesis using "1.prems"(1) by (simp add: check_list.simps)
  next
    case (Some a)
    let ?e = "if check_fof_addr dbg a then errs + 1 else errs"
    have z: "fof_min dbg = 0" using "1.prems"(5) by (simp add: define_fof_limits_def)
    note mark = mark_visited_eq [OF "1.prems"(4) z, of a]
    have a: "a < pool_size q"
      using "1.prems"(1,2) Some mark(1) by (subst (asm) check_list.simps) (auto simp: Let_def split: if_splits)
    then have ok: "\<not> check_fof_addr dbg a" using "1.prems"(5) by (simp add: check_fof_addr_def define_fof_limits_def)
    let ?v = "visited[a := visited ! a + 1]" and ?e2 = "if a \<in> V then errs + 1 else errs"
    have mk: "mark_visited dbg (sint (q_max_fofs q)) a visited errs = Some (?v, ?e2)" using mark(1) a by simp
    have nx: "load_next p q = Some (nexts q a)" using Some a "1.prems"(6) by (simp add: load_next_def nexts_def)
    have run: "check_list dbg integrity q p visited cnt errs
        = (if sint (q_max_fofs q) < cnt + 1 then Some (-1, cnt + 1)
           else check_list dbg integrity q (nexts q a) ?v (cnt + 1) ?e2)"
      using Some "1.prems"(2) ok mk nx by (subst check_list.simps) (simp add: Let_def)
    then have le: "\<not> sint (q_max_fofs q) < cnt + 1" and rest: "check_list dbg integrity q (nexts q a) ?v (cnt + 1) ?e2 = Some (0, k)"
      using "1.prems"(1) by (auto split: if_splits)
    have "?e2 = 0 \<and> (\<exists>xs. chain (nexts q) (nexts q a) xs \<and> set xs \<subseteq> {..<pool_size q} \<and> k = cnt + 1 + int (length xs))"
      by (rule "1.IH" [of a ?e "(?v, ?e2)" ?v ?e2 "nexts q a" "insert a V"])
        (use Some ok mk nx le rest "1.prems" mark(2) [OF a] in auto)
    then obtain xs where "?e2 = 0" "chain (nexts q) p (a # xs)" "set (a # xs) \<subseteq> {..<pool_size q}" "k = cnt + int (length (a # xs))"
      using Some a by auto
    moreover from this(1) have "errs = 0" using "1.prems"(3) by (auto split: if_splits)
    ultimately show ?thesis by blast
  qed
qed

text \<open>
  C32: the integrity check is exact: on a pool of \<open>max_fofs\<close> cells it reports zero errors and \<open>k\<close>
  free cells exactly when the free list is a proper null-terminated list of \<open>k\<close> cells of the
  pool; a cycle, a shared tail or a stray pointer never passes. It always ends.
\<close>

theorem check_free_list_exact:
  assumes "length (q_mem q) = pool_size q"
  shows "check_free_list (define_fof_limits 0 (pool_size q)) q 0 True = Some (0, int k) \<longleftrightarrow>
    (\<exists>xs. chain (nexts q) (q_free_fofs q) xs \<and> set xs \<subseteq> {..<length (q_mem q)} \<and> length xs = k)"
proof -
  let ?v = "replicate (pool_size q) (0 :: nat)"
  have m: "marks q {} ?v" by (simp add: marks_def)
  show ?thesis
  proof
    assume "check_free_list (define_fof_limits 0 (pool_size q)) q 0 True = Some (0, int k)"
    then have "check_list (define_fof_limits 0 (pool_size q)) True q (q_free_fofs q) ?v 0 0 = Some (0, int k)"
      by (simp add: check_free_list_def)
    from check_list_clean [OF refl assms this _ _ m]
    show "\<exists>xs. chain (nexts q) (q_free_fofs q) xs \<and> set xs \<subseteq> {..<length (q_mem q)} \<and> length xs = k"
      using assms by auto
  next
    assume "\<exists>xs. chain (nexts q) (q_free_fofs q) xs \<and> set xs \<subseteq> {..<length (q_mem q)} \<and> length xs = k"
    then obtain xs where "chain (nexts q) (q_free_fofs q) xs" "set xs \<subseteq> {..<pool_size q}" "length xs = k"
      using assms by auto
    then show "check_free_list (define_fof_limits 0 (pool_size q)) q 0 True = Some (0, int k)"
      using check_list_proper [OF refl assms, of "q_free_fofs q" xs "{}" ?v 0 0] m by (simp add: check_free_list_def)
  qed
qed

theorem check_free_list_exact_witness:
  "check_free_list (define_fof_limits 0 (pool_size ex_queue)) ex_queue 0 True = Some (0, int 3)"
proof -
  have "length (q_mem ex_queue) = pool_size ex_queue" by (simp add: ex_defs)
  moreover have "chain (nexts ex_queue) (q_free_fofs ex_queue) [0, 1, 2]" "set [0, 1, 2 :: nat] \<subseteq> {..<length (q_mem ex_queue)}"
    by (auto simp: ex_defs nexts_def)
  ultimately show ?thesis using check_free_list_exact [of ex_queue 3] by fastforce
qed

end
