(* ===== verification/Options.thy ===== *)
theory Options
  imports Clock
begin

text \<open>
  Command line options: the C library's \<open>atoi\<close> on the strings the option parsers receive, and the
  calls of a parser in the order of the command line. A \<^const>\<open>None\<close> is a value outside \<open>int\<close>,
  for which \<open>atoi\<close> is undefined.
\<close>

definition is_space :: "char \<Rightarrow> bool" where
  "is_space c \<longleftrightarrow> of_char c = (32 :: nat) \<or> 9 \<le> (of_char c :: nat) \<and> of_char c \<le> (13 :: nat)"

definition is_digit :: "char \<Rightarrow> bool" where
  "is_digit c \<longleftrightarrow> 48 \<le> (of_char c :: nat) \<and> of_char c \<le> (57 :: nat)"

fun digits_value :: "nat \<Rightarrow> string \<Rightarrow> nat" where
  "digits_value n [] = n"
| "digits_value n (c # cs) = (if is_digit c then digits_value (10 * n + (of_char c - 48)) cs else n)"

definition atoi :: "string \<Rightarrow> c_int option" where
  "atoi s =
     (let s = dropWhile is_space s;
          v = (case s of [] \<Rightarrow> 0
               | c # cs \<Rightarrow> if c = CHR ''-'' then - int (digits_value 0 cs)
                           else if c = CHR ''+'' then int (digits_value 0 cs)
                           else int (digits_value 0 s))
      in if - (2 ^ 31) \<le> v \<and> v < 2 ^ 31 then Some (word_of_int v) else None)"

text \<open>One call of the parser per option; \<open>Some None\<close> is \<open>ARGP_ERR_UNKNOWN\<close>, which ends the program.\<close>

fun argp_parse :: "(char \<Rightarrow> string \<Rightarrow> 'a \<Rightarrow> 'a option option) \<Rightarrow> (char \<times> string) list \<Rightarrow> 'a \<Rightarrow> 'a option option" where
  "argp_parse parse_opt [] args = Some (Some args)"
| "argp_parse parse_opt ((key, arg) # opts) args =
     do { r \<leftarrow> parse_opt key arg args;
          case r of None \<Rightarrow> Some None | Some args1 \<Rightarrow> argp_parse parse_opt opts args1 }"

text \<open>The last value given for a key.\<close>

fun last_value :: "char \<Rightarrow> (char \<times> string) list \<Rightarrow> string option \<Rightarrow> string option" where
  "last_value key [] v = v"
| "last_value key ((k, arg) # opts) v = last_value key opts (if k = key then Some arg else v)"

subsection \<open>Reading back what was printed\<close>

lemma digit_char:
  fixes d :: nat
  assumes "d < 10"
  shows "of_char (char_of (48 + d) :: char) = 48 + d" "is_digit (char_of (48 + d))" "\<not> is_space (char_of (48 + d))"
    "char_of (48 + d) \<noteq> CHR ''-''" "char_of (48 + d) \<noteq> CHR ''+''"
proof -
  have "(48 + d) mod 256 = 48 + d" using assms by simp
  then show o: "of_char (char_of (48 + d) :: char) = 48 + d" by (simp only: of_char_of)
  show "is_digit (char_of (48 + d))" "\<not> is_space (char_of (48 + d))"
    using assms unfolding is_digit_def is_space_def o by simp_all
  show "char_of (48 + d) \<noteq> CHR ''-''"
  proof
    assume "char_of (48 + d) = CHR ''-''"
    then have "48 + d = of_char (CHR ''-'')" using o by (simp only:)
    then show False by simp
  qed
  show "char_of (48 + d) \<noteq> CHR ''+''"
  proof
    assume "char_of (48 + d) = CHR ''+''"
    then have "48 + d = of_char (CHR ''+'')" using o by (simp only:)
    then show False by simp
  qed
qed

lemma decimal_digits: "c \<in> set (decimal n) \<Longrightarrow> \<exists>d<10::nat. c = char_of (48 + d)"
proof (induction n rule: decimal.induct)
  case (1 n)
  show ?case
  proof (cases "n < 10")
    case True
    with 1(2) show ?thesis by (subst (asm) decimal.simps) auto
  next
    case False
    with 1(2) have "c \<in> set (decimal (n div 10)) \<or> c = char_of (48 + n mod 10)"
      by (subst (asm) decimal.simps) auto
    moreover have "n mod 10 < 10" by simp
    ultimately show ?thesis using 1(1) [OF False] by blast
  qed
qed

lemma decimal_not_empty: "decimal n \<noteq> []"
  by (subst decimal.simps) simp

lemma digits_value_append:
  "\<forall>c\<in>set xs. is_digit c \<Longrightarrow> digits_value n (xs @ ys) = digits_value (digits_value n xs) ys"
  by (induction xs arbitrary: n) auto

lemma digits_value_decimal: "digits_value 0 (decimal n) = n"
proof (induction n rule: decimal.induct)
  case (1 n)
  show ?case
  proof (cases "n < 10")
    case True
    then show ?thesis using digit_char [OF True] by (subst decimal.simps) simp
  next
    case False
    have m: "n mod 10 < 10" by simp
    have "\<forall>c\<in>set (decimal (n div 10)). is_digit c" using decimal_digits digit_char(2) by blast
    from digits_value_append [OF this, of 0 "[char_of (48 + n mod 10)]"]
    show ?thesis using False 1 [OF False] digit_char(1,2) [OF m] by (subst decimal.simps) simp
  qed
qed

lemma atoi_decimal:
  assumes "n < 2 ^ 31"
  shows "atoi (decimal n) = Some (of_nat n)"
proof -
  obtain c cs where d: "decimal n = c # cs" using decimal_not_empty [of n] by (cases "decimal n") auto
  then obtain k :: nat where "k < 10" "c = char_of (48 + k)" using decimal_digits [of c n] by auto
  then have c: "\<not> is_space c" "c \<noteq> CHR ''-''" "c \<noteq> CHR ''+''" using digit_char [of k] by simp_all
  have "int n < 2 ^ 31" using assms by (metis of_nat_less_iff of_nat_numeral of_nat_power)
  moreover have "dropWhile is_space (decimal n) = decimal n" using c by (simp add: d)
  ultimately show ?thesis using c digits_value_decimal [of n] by (simp add: atoi_def Let_def d)
qed

lemma atoi_minus_decimal:
  assumes "n \<le> 2 ^ 31"
  shows "atoi (''-'' @ decimal n) = Some (- of_nat n)"
proof -
  have "int n \<le> 2 ^ 31" using assms by (metis of_nat_le_iff of_nat_numeral of_nat_power)
  moreover have "\<not> is_space (CHR ''-'')" by (simp add: is_space_def)
  ultimately show ?thesis using digits_value_decimal [of n] by (simp add: atoi_def Let_def)
qed

lemma argp_parse_append:
  "argp_parse p (xs @ ys) args = do { r \<leftarrow> argp_parse p xs args;
     case r of None \<Rightarrow> Some None | Some args1 \<Rightarrow> argp_parse p ys args1 }"
  by (induction p xs args rule: argp_parse.induct) (auto split: bind_splits option.splits)

end
