(* ===== verification/Stress.thy ===== *)
theory Stress
  imports Api Options
begin

text \<open>
  The stress program of \<^verbatim>\<open>stress_main.c\<close>, an API client that adds fofs until the server refuses too
  many, with the helpers of \<^verbatim>\<open>test_util.c\<close> it shares with the tests. A \<open>double\<close> is its bit
  pattern; \<open>atof\<close>, the conversion to \<open>float\<close> and libfofs' \<open>fof_t60_to_alpha\<close> are parameters.
\<close>

type_synonym c_double = "64 word"

record float_env =
  x_atof :: "string \<Rightarrow> c_double"
  x_float_of_double :: "c_double \<Rightarrow> c_float"
  x_t60_to_alpha :: "c_double \<Rightarrow> c_float"

subsection \<open>Helpers\<close>

text \<open>The arguments in the order \<open>ampl\<close>, \<open>freq\<close>, \<open>gliss\<close>, \<open>phi\<close>, \<open>beta\<close>, \<open>alpha\<close>, \<open>amin\<close>, \<open>cutoff\<close>, \<open>pan1\<close> to \<open>pan3\<close>.\<close>

definition fof_default :: "c_float list" where
  "fof_default = [0x3F800000, 0x42C80000, 0, 0, 0x3DCCCCCD, 0x415D0E56, 0x3A83126F, 0x3B03126F, 0, 0, 0]"

text \<open>Floats are compared by \<open>feq\<close>: a NaN differs from itself, the two zeros are equal.\<close>

fun args_equal :: "(c_float \<Rightarrow> c_float \<Rightarrow> bool) \<Rightarrow> c_float list \<Rightarrow> c_float list \<Rightarrow> bool" where
  "args_equal feq (x # xs) (y # ys) \<longleftrightarrow> feq x y \<and> args_equal feq xs ys"
| "args_equal feq _ _ \<longleftrightarrow> True"

definition fof_equal :: "(c_float \<Rightarrow> c_float \<Rightarrow> bool) \<Rightarrow> fof \<Rightarrow> fof \<Rightarrow> bool" where
  "fof_equal feq fof1 fof2 \<longleftrightarrow> args_equal feq (argv fof1) (argv fof2) \<and> time_us fof1 = time_us fof2"

record timespec =
  tv_sec :: "64 word"  \<comment> \<open>\<open>time_t\<close>, read with \<^const>\<open>sint\<close>\<close>
  tv_nsec :: "64 word" \<comment> \<open>\<open>long\<close>, read with \<^const>\<open>sint\<close>\<close>

text \<open>The argument \<open>sleep_us\<close> hands to \<open>nanosleep\<close>; \<open>jfofs_sleep\<close> of the tests is the same code.\<close>

definition sleep_us :: "jfofs_time_t \<Rightarrow> timespec" where
  "sleep_us t = (let sec = t div 1000000 in \<lparr>tv_sec = sec, tv_nsec = (t - sec) * 1000\<rparr>)"

definition jfofs_sleep :: "jfofs_time_t \<Rightarrow> timespec" where
  "jfofs_sleep t = (let sec = t div 1000000 in \<lparr>tv_sec = sec, tv_nsec = (t - sec) * 1000\<rparr>)"

text \<open>
  What POSIX says of \<open>nanosleep\<close>: with nanoseconds out of range it fails at once, otherwise it
  suspends the thread for that many nanoseconds.
\<close>

definition nanosleep :: "timespec \<Rightarrow> nat option" where
  "nanosleep ts =
     (if sint (tv_sec ts) < 0 \<or> sint (tv_nsec ts) < 0 \<or> 1000000000 \<le> sint (tv_nsec ts) then None
      else Some (nat (sint (tv_sec ts)) * 1000000000 + nat (sint (tv_nsec ts))))"

subsection \<open>Options\<close>

record stress_arguments =
  w_verbose :: c_int
  w_adur :: c_double
  w_bdur :: c_double
  w_sleep :: c_int
  w_latancy :: c_int

definition stress_parse_opt ::
  "float_env \<Rightarrow> char \<Rightarrow> string \<Rightarrow> stress_arguments \<Rightarrow> stress_arguments option option" where
  "stress_parse_opt fe key arg args =
     (if key = CHR ''v'' then Some (Some (args\<lparr>w_verbose := 1\<rparr>))
      else if key = CHR ''a'' then Some (Some (args\<lparr>w_adur := x_atof fe arg\<rparr>))
      else if key = CHR ''b'' then Some (Some (args\<lparr>w_bdur := x_atof fe arg\<rparr>))
      else if key = CHR ''s'' then do { v \<leftarrow> atoi arg; Some (Some (args\<lparr>w_sleep := v\<rparr>)) }
      else if key = CHR ''l'' then do { v \<leftarrow> atoi arg; Some (Some (args\<lparr>w_latancy := v\<rparr>)) }
      else Some None)"

text \<open>The bit patterns are those of \<open>0.01\<close> and \<open>0.001\<close>.\<close>

definition default_stress_arguments :: stress_arguments where
  "default_stress_arguments = \<lparr>w_verbose = 0, w_adur = 0x3F847AE147AE147B, w_bdur = 0x3F50624DD2F1A9FC,
     w_sleep = 2000, w_latancy = 500\<rparr>"

definition stress_fof :: "float_env \<Rightarrow> stress_arguments \<Rightarrow> c_float list" where
  "stress_fof fe args = fof_default[4 := x_float_of_double fe (w_bdur args), 5 := x_t60_to_alpha fe (w_adur args)]"

subsection \<open>The loop\<close>

record stress_counters =
  k_cnt :: u64
  k_tcnt :: c_int
  k_s6_cnt :: c_int

text \<open>The dots printed after each sleep.\<close>

definition stress_progress :: "stress_counters \<Rightarrow> stress_counters" where
  "stress_progress k =
     (if 200 < k_cnt k + 1
      then let tcnt = k_tcnt k + 1 in k\<lparr>k_cnt := 0, k_tcnt := (if 60 < sint tcnt then 0 else tcnt)\<rparr>
      else k\<lparr>k_cnt := k_cnt k + 1\<rparr>)"

text \<open>One pass: the status of the addition, the segment, and the counters or the exit code.\<close>

definition stress_pass ::
  "bool \<Rightarrow> stress_arguments \<Rightarrow> c_float list \<Rightarrow> jack_clock \<Rightarrow> shmem \<Rightarrow> stress_counters
     \<Rightarrow> (jfofs_status \<times> shmem \<times> (stress_counters + c_int)) option" where
  "stress_pass counting args fof clk shmem k =
     do { now_us \<leftarrow> jfofs_get_time clk shmem;
          (status, shmem1) \<leftarrow> jfofs_add counting shmem (now_us + u64_of_int (w_latancy args)) fof;
          let s6 = (if status_code status = 6 then k_s6_cnt k + 1 else k_s6_cnt k) in
          Some (status, shmem1,
                (if status_code status = 6 \<and> 10 < sint s6 then Inr (- 1)
                 else Inl (stress_progress (k\<lparr>k_s6_cnt := s6\<rparr>)))) }"

text \<open>
  A run over some passes: before each the server and the other clients have changed the segment
  (\<open>world\<close>) and the clock has gone on.
\<close>

fun stress_loop ::
  "bool \<Rightarrow> stress_arguments \<Rightarrow> c_float list \<Rightarrow> ((shmem \<Rightarrow> shmem) \<times> jack_clock) list \<Rightarrow> shmem \<Rightarrow> stress_counters
     \<Rightarrow> (jfofs_status list \<times> shmem \<times> (stress_counters + c_int)) option" where
  "stress_loop counting args fof [] shmem k = Some ([], shmem, Inl k)"
| "stress_loop counting args fof ((world, clk) # rest) shmem k =
     do { (status, shmem1, r) \<leftarrow> stress_pass counting args fof clk (world shmem) k;
          case r of Inr code \<Rightarrow> Some ([status], shmem1, Inr code)
          | Inl k1 \<Rightarrow> do { (sts, shmem2, r2) \<leftarrow> stress_loop counting args fof rest shmem1 k1;
                          Some (status # sts, shmem2, r2) } }"

text \<open>Leaving the program runs \<open>exit_handler\<close>, which frees the client when there is one.\<close>

definition stress_exit_handler :: "jfofs option \<Rightarrow> shmem \<Rightarrow> shmem" where
  "stress_exit_handler jfofs shmem = (case jfofs of None \<Rightarrow> shmem | Some a \<Rightarrow> jfofs_free a shmem)"

text \<open>A signal: the segment after the exit, and the exit code.\<close>

definition stress_termination_handler :: "jfofs option \<Rightarrow> shmem \<Rightarrow> shmem \<times> c_int" where
  "stress_termination_handler jfofs shmem = (stress_exit_handler jfofs shmem, - 1)"

definition stress_signal_handlers :: "(signal \<Rightarrow> disposition) \<Rightarrow> signal \<Rightarrow> disposition" where
  "stress_signal_handlers = install_handlers [SIGINT, SIGHUP, SIGTERM]"

text \<open>The program.\<close>

definition stress_main ::
  "float_env \<Rightarrow> build \<Rightarrow> jack_setup \<Rightarrow> os_shm \<Rightarrow> bool \<Rightarrow> stress_arguments \<Rightarrow> ((shmem \<Rightarrow> shmem) \<times> jack_clock) list
     \<Rightarrow> shmem \<Rightarrow> (jfofs_status list \<times> shmem \<times> (stress_counters + c_int)) option" where
  "stress_main fe b env os counting args passes shmem =
     do { (jfofs, status, shmem1, res) \<leftarrow> jfofs_new b env os False shmem;
          case jfofs of None \<Rightarrow> Some ([], stress_exit_handler None shmem1, Inr (- 1))
          | Some jfofs \<Rightarrow>
              do { (sts, shmem2, r) \<leftarrow> stress_loop counting args (stress_fof fe args) passes shmem1
                                         \<lparr>k_cnt = 0, k_tcnt = 0, k_s6_cnt = 0\<rparr>;
                   Some (sts, (if isl r then shmem2 else stress_exit_handler (Some jfofs) shmem2), r) } }"

subsection \<open>Sleeping\<close>

lemma sint_small64:
  assumes "unat x < 2 ^ 63"
  shows "sint (x :: 64 word) = int (unat x)"
proof -
  have "uint x = int (unat x)" by simp
  moreover have "int (unat x) < 2 ^ 63"
    using assms by (metis of_nat_less_iff of_nat_numeral of_nat_power)
  ultimately have u: "uint x < 2 ^ 63" by (simp only:)
  have l: "- (2 ^ 63) \<le> uint x" by (rule order_trans [of _ 0]) simp_all
  have "signed_take_bit 63 (uint x) = uint x"
    using l u by (rule signed_take_bit_int_eq_self)
  then have "sint x = uint x" by (simp add: sint_uint)
  then show ?thesis by simp
qed

lemma unat_sleep:
  assumes "unat t < 2 ^ 53"
  shows "sint (tv_sec (sleep_us t)) = int (unat t div 1000000)"
    "sint (tv_nsec (sleep_us t)) = int ((unat t - unat t div 1000000) * 1000)"
proof -
  let ?u = "unat t"
  have s: "unat (t div 1000000) = ?u div 1000000" by (simp add: unat_div)
  then have d: "unat (t - t div 1000000) = ?u - ?u div 1000000"
    using unat_sub [of "t div 1000000" t] by (simp add: word_le_nat_alt)
  have b: "(?u - ?u div 1000000) * 1000 < 2 ^ 63" using assms by simp
  then have m: "unat ((t - t div 1000000) * 1000) = (?u - ?u div 1000000) * 1000"
    using d by (subst unat_mult_lem [THEN iffD1]) simp_all
  have "sint (t div 1000000) = int (?u div 1000000)" using assms s by (subst sint_small64) simp_all
  then show "sint (tv_sec (sleep_us t)) = int (?u div 1000000)" by (simp add: sleep_us_def Let_def)
  have "sint ((t - t div 1000000) * 1000) = int ((?u - ?u div 1000000) * 1000)"
    using b m by (subst sint_small64) (simp_all only:)
  then show "sint (tv_nsec (sleep_us t)) = int ((?u - ?u div 1000000) * 1000)" by (simp only: sleep_us_def Let_def timespec.simps)
qed

text \<open>
  Sleeping is right below one second only: for fewer than 1000000 microseconds
  \<open>nanosleep\<close> is asked for exactly that time; for exactly one second it is asked for almost two;
  for any longer time the nanoseconds are out of range and the call returns at once. (The whole
  seconds are subtracted from the microseconds without being scaled.)
\<close>

theorem sleep_right_below_a_second:
  assumes "unat t < 2 ^ 53"
  shows "nanosleep (sleep_us t) =
    (if unat t < 1000000 then Some (unat t * 1000) else if unat t = 1000000 then Some 1999999000 else None)
    \<and> jfofs_sleep t = sleep_us t"
proof -
  define u where "u = unat t"
  have n: "sint (tv_sec (sleep_us t)) = int (u div 1000000)"
    "sint (tv_nsec (sleep_us t)) = int ((u - u div 1000000) * 1000)"
    using unat_sleep [OF assms] by (simp_all add: u_def)
  have "jfofs_sleep t = sleep_us t" by (simp add: jfofs_sleep_def sleep_us_def)
  moreover consider "u < 1000000" | "u = 1000000" | "1000000 < u" by linarith
  then have "nanosleep (sleep_us t) = (if u < 1000000 then Some (u * 1000) else if u = 1000000 then Some 1999999000 else None)"
  proof cases
    case 1
    then have "u div 1000000 = 0" by simp
    with 1 n show ?thesis by (simp add: nanosleep_def)
  next
    case 2
    have "sint (tv_sec (sleep_us t)) = 1" "sint (tv_nsec (sleep_us t)) = 999999000"
      unfolding n 2 by simp_all
    then have "nanosleep (sleep_us t) = Some 1999999000" by (simp add: nanosleep_def)
    then show ?thesis unfolding 2 by simp
  next
    case 3
    define k r where kr: "k = u div 1000000" "r = u mod 1000000"
    then have u: "u = k * 1000000 + r" "r < 1000000" by simp_all
    with 3 have "k = 1 \<and> 1 \<le> r \<or> 2 \<le> k" by linarith
    then have "1000000 \<le> u - k" using u by linarith
    then have "1000000 \<le> u - u div 1000000" by (simp only: kr)
    then have "1000000000 \<le> int ((u - u div 1000000) * 1000)" by simp
    then have "nanosleep (sleep_us t) = None" unfolding nanosleep_def n by simp
    with 3 show ?thesis by simp
  qed
  ultimately show ?thesis by (simp add: u_def)
qed

theorem sleep_right_below_a_second_witness:
  "nanosleep (sleep_us 2000) = Some 2000000 \<and> nanosleep (sleep_us 1500000) = None"
  using sleep_right_below_a_second [of 2000] sleep_right_below_a_second [of 1500000] by simp

subsection \<open>Giving up\<close>

definition usable :: "shmem \<Rightarrow> bool" where
  "usable shmem \<longleftrightarrow> wf_counters shmem \<and> u64_of_int (q_sample_rate (m_q shmem)) \<noteq> 0"

lemma count_event_reference:
  "count_event e (Some shmem) = Some g \<Longrightarrow> \<exists>stats. g = Some (shmem\<lparr>m_statistics := stats\<rparr>)"
  by (cases e) (auto simp: count_event_def incr_slot_cnt_def incr_late_cnt_def incr_excess_cnt_def
      Let_def split: if_splits)

lemma count_events_reference:
  "count_events es (Some shmem) = Some g \<Longrightarrow> \<exists>stats. g = Some (shmem\<lparr>m_statistics := stats\<rparr>)"
proof (induction es arbitrary: shmem)
  case Nil
  then show ?case by (auto intro!: exI [of _ "m_statistics shmem"])
next
  case (Cons e es)
  then obtain g1 where g1: "count_event e (Some shmem) = Some g1" "count_events es g1 = Some g"
    by (auto split: bind_splits)
  obtain stats where "g1 = Some (shmem\<lparr>m_statistics := stats\<rparr>)" using count_event_reference [OF g1(1)] by blast
  with Cons.IH [of "shmem\<lparr>m_statistics := stats\<rparr>"] g1(2) show ?case by auto
qed

text \<open>An addition returns, leaves the segment usable and does not touch the reference count.\<close>

lemma add_usable:
  assumes "usable shmem"
  obtains st shmem' where "jfofs_add counting shmem t fof = Some (st, shmem')" "usable shmem'"
    "m_reference_cnt shmem' = m_reference_cnt shmem"
proof (cases counting)
  case True
  have w: "wf_counters shmem" using assms by (simp add: usable_def)
  obtain st shmem' where a: "jfofs_add True shmem t fof = Some (st, shmem')" "wf_counters shmem'"
    "q_frame (m_q shmem') = q_frame (m_q shmem)"
    by (rule jfofs_add_total [OF w])
  have "m_reference_cnt shmem' = m_reference_cnt shmem"
    using a(1) count_events_reference by (fastforce simp: jfofs_add_def Let_def split: bind_splits)
  then show ?thesis using that a assms True by (simp add: usable_def q_frame_def)
next
  case False
  have w: "wf_counters shmem" using assms by (simp add: usable_def)
  then have q: "wf_queue (m_q shmem)" by (simp add: wf_counters_def)
  obtain st q' where r: "fof_queue_add (m_q shmem) t fof = Some (st, add_events (abs_queue (m_q shmem)) (t, fof) st, q')"
    "wf_queue q'" "q_frame q' = q_frame (m_q shmem)"
    by (rule add_refines [OF q])
  then show ?thesis using that w assms False by (simp add: usable_def wf_counters_def jfofs_add_def q_frame_def)
qed

lemma get_time_usable: "usable shmem \<Longrightarrow> \<exists>t. jfofs_get_time clk shmem = Some t"
  by (simp add: usable_def jfofs_get_time_def)

lemma progress_s6 [simp]: "k_s6_cnt (stress_progress k) = k_s6_cnt k"
  by (simp add: stress_progress_def Let_def)

text \<open>What the server and other clients may do to the segment meanwhile.\<close>

definition keeps_usable :: "(shmem \<Rightarrow> shmem) \<Rightarrow> bool" where
  "keeps_usable world \<longleftrightarrow> (\<forall>shmem. usable shmem \<longrightarrow> usable (world shmem) \<and>
     m_reference_cnt (world shmem) = m_reference_cnt shmem)"

abbreviation refusals :: "jfofs_status list \<Rightarrow> nat" where
  "refusals sts \<equiv> count_list sts JFOFS_FOF_LIMIT_ERROR"

lemma stress_pass_refusals:
  assumes "usable shmem" and "k_s6_cnt k = of_nat n" and "n \<le> 10"
  obtains st m shmem1 where "m = (if st = JFOFS_FOF_LIMIT_ERROR then Suc n else n)"
    "stress_pass counting args fof clk shmem k = Some (st, shmem1,
      if st = JFOFS_FOF_LIMIT_ERROR \<and> 10 < m then Inr (- 1) else Inl (stress_progress (k\<lparr>k_s6_cnt := of_nat m\<rparr>)))"
    "usable shmem1" "m_reference_cnt shmem1 = m_reference_cnt shmem"
proof -
  obtain t0 where t: "jfofs_get_time clk shmem = Some t0" using get_time_usable [OF assms(1)] by blast
  obtain st shmem1 where a: "jfofs_add counting shmem (t0 + u64_of_int (w_latancy args)) fof = Some (st, shmem1)"
    "usable shmem1" "m_reference_cnt shmem1 = m_reference_cnt shmem"
    by (rule add_usable [OF assms(1)])
  have c: "status_code st = 6 \<longleftrightarrow> st = JFOFS_FOF_LIMIT_ERROR"
    using status_code_inject [of st JFOFS_FOF_LIMIT_ERROR] by simp
  define m where "m = (if st = JFOFS_FOF_LIMIT_ERROR then Suc n else n)"
  have s: "(if st = JFOFS_FOF_LIMIT_ERROR then k_s6_cnt k + 1 else k_s6_cnt k) = of_nat m"
    using assms(2) by (simp add: m_def ac_simps)
  have "sint (of_nat m :: c_int) = int m" using assms(3) by (intro sint_of_nat) (simp add: m_def)
  then have "stress_pass counting args fof clk shmem k = Some (st, shmem1,
      if st = JFOFS_FOF_LIMIT_ERROR \<and> 10 < m then Inr (- 1)
      else Inl (stress_progress (k\<lparr>k_s6_cnt := of_nat m\<rparr>)))"
    using t a(1) s by (simp add: stress_pass_def c Let_def)
  then show thesis by (rule that [OF m_def _ a(2,3)])
qed

lemma stress_loop_refusals:
  assumes "usable shmem" and "\<forall>(world, clk) \<in> set passes. keeps_usable world"
    and "k_s6_cnt k = of_nat n" and "n \<le> 10"
  shows "\<exists>sts shmem' r. stress_loop counting args fof passes shmem k = Some (sts, shmem', r) \<and>
    m_reference_cnt shmem' = m_reference_cnt shmem \<and>
    (if isl r then n + refusals sts \<le> 10 \<and> length sts = length passes
     else r = Inr (- 1) \<and> n + refusals sts = 11 \<and> last sts = JFOFS_FOF_LIMIT_ERROR)"
  using assms
proof (induction passes arbitrary: shmem k n)
  case Nil
  then show ?case by simp
next
  case (Cons p passes)
  obtain world clk where p: "p = (world, clk)" by (cases p)
  have u: "usable (world shmem)" "m_reference_cnt (world shmem) = m_reference_cnt shmem"
    using Cons.prems(1,2) by (auto simp: p keeps_usable_def)
  obtain st m shmem1 where m_def: "m = (if st = JFOFS_FOF_LIMIT_ERROR then Suc n else n)"
    and pass: "stress_pass counting args fof clk (world shmem) k = Some (st, shmem1,
      if st = JFOFS_FOF_LIMIT_ERROR \<and> 10 < m then Inr (- 1)
      else Inl (stress_progress (k\<lparr>k_s6_cnt := of_nat m\<rparr>)))"
    and a: "usable shmem1" "m_reference_cnt shmem1 = m_reference_cnt (world shmem)"
    by (rule stress_pass_refusals [OF u(1) Cons.prems(3,4)])
  show ?case
  proof (cases "10 < m")
    case True
    then have "st = JFOFS_FOF_LIMIT_ERROR" "n = 10" using Cons.prems(4) by (auto simp: m_def split: if_splits)
    then show ?thesis using pass a(2) u(2) True by (simp add: p)
  next
    case False
    have "\<forall>(world, clk) \<in> set passes. keeps_usable world" using Cons.prems(2) by auto
    from Cons.IH [OF a(1) this, of "stress_progress (k\<lparr>k_s6_cnt := of_nat m\<rparr>)" m] False
    obtain sts shmem' r where l: "stress_loop counting args fof passes shmem1 (stress_progress (k\<lparr>k_s6_cnt := of_nat m\<rparr>)) = Some (sts, shmem', r)"
      "m_reference_cnt shmem' = m_reference_cnt shmem1"
      "if isl r then m + refusals sts \<le> 10 \<and> length sts = length passes
       else r = Inr (- 1) \<and> m + refusals sts = 11 \<and> last sts = JFOFS_FOF_LIMIT_ERROR"
      by auto
    have "sts \<noteq> []" if "\<not> isl r" using l(3) that False by auto
    moreover have "n + refusals (st # sts) = m + refusals sts" by (simp add: m_def)
    ultimately show ?thesis using pass l a(2) u(2) False by (auto simp: p simp del: count_list.simps)
  qed
qed

text \<open>
  The stress program gives up at the eleventh refusal and cleans up: once it has linked the
  segment, every pass returns; while at most ten additions were refused for want of a cell it
  goes on, whatever the other statuses are, and at the eleventh it exits with \<open>-1\<close>, after which the
  segment counts as many clients as before.
\<close>

theorem stress_gives_up_at_eleventh_refusal:
  assumes "usable shmem" and "env_memalign env = 0" and "env_client_open env = Some j"
    and "os_shm_open os" and "os_mmap os \<noteq> None" and "os_mmap_fixed os = Some (m_base shmem)"
    and "\<forall>(world, clk) \<in> set passes. keeps_usable world"
  shows "\<exists>sts shmem' r. stress_main fe b env os counting args passes shmem = Some (sts, shmem', r) \<and>
    (if isl r then refusals sts \<le> 10 \<and> length sts = length passes \<and>
                   m_reference_cnt shmem' = m_reference_cnt shmem + 1
     else r = Inr (- 1) \<and> refusals sts = 11 \<and> last sts = JFOFS_FOF_LIMIT_ERROR \<and>
          m_reference_cnt shmem' = m_reference_cnt shmem)"
proof -
  let ?shmem = "shmem\<lparr>m_reference_cnt := m_reference_cnt shmem + 1\<rparr>"
  let ?k = "\<lparr>k_cnt = 0, k_tcnt = 0, k_s6_cnt = 0\<rparr> :: stress_counters"
  obtain jfofs status res where n: "jfofs_new b env os False shmem = Some (Some jfofs, status, ?shmem, res)"
    "a_is_shmem_linked jfofs"
    using assms(2-6) by (auto simp: jfofs_new_def shmem_link_def shmem_layout_def shmem_aligning_ptr_def Let_def)
  have "usable ?shmem" using assms(1) by (simp add: usable_def wf_counters_def)
  from stress_loop_refusals [OF this assms(7), of ?k 0 counting args "stress_fof fe args", unfolded add_0]
  obtain sts shmem' r where "stress_loop counting args (stress_fof fe args) passes ?shmem ?k = Some (sts, shmem', r)"
    "m_reference_cnt shmem' = m_reference_cnt shmem + 1"
    "if isl r then refusals sts \<le> 10 \<and> length sts = length passes
     else r = Inr (- 1) \<and> refusals sts = 11 \<and> last sts = JFOFS_FOF_LIMIT_ERROR"
    by fastforce
  then show ?thesis using n by (auto simp: stress_main_def stress_exit_handler_def jfofs_free_def shmem_unmap_def split: if_splits)
qed

lemma ex_usable: "usable ex_shmem"
  using ex_wf_counters by (simp add: usable_def ex_shmem_def ex_defs)

lemma idle_keeps_usable: "keeps_usable (\<lambda>shmem. shmem)"
  by (simp add: keeps_usable_def)

text \<open>
  A server that runs no cycle: three cells, so the fourth addition is the first refusal and the
  program ends in the fourteenth pass.
\<close>

theorem stress_gives_up_at_eleventh_refusal_witness:
  "\<exists>sts shmem' r. stress_main \<lparr>x_atof = (\<lambda>s. 0), x_float_of_double = (\<lambda>d. 0), x_t60_to_alpha = (\<lambda>d. 0)\<rparr>
      ex_build ex_jack ex_os True default_stress_arguments (replicate 20 (\<lambda>shmem. shmem, ex_clock)) ex_shmem
        = Some (sts, shmem', r) \<and>
    (if isl r then refusals sts \<le> 10 \<and> length sts = length (replicate 20 (\<lambda>shmem :: shmem. shmem, ex_clock)) \<and>
                   m_reference_cnt shmem' = m_reference_cnt ex_shmem + 1
     else r = Inr (- 1) \<and> refusals sts = 11 \<and> last sts = JFOFS_FOF_LIMIT_ERROR \<and>
          m_reference_cnt shmem' = m_reference_cnt ex_shmem)"
  by (rule stress_gives_up_at_eleventh_refusal [OF ex_usable])
    (auto simp: ex_jack_def ex_os_def ex_shmem_def idle_keeps_usable)

text \<open>
  A signal in the middle of the run gives the client back as well, unless the signal was ignored
  when the program was started; \<open>SIGTSTP\<close> is left alone.
\<close>

lemma stress_signal_gives_client_back:
  assumes "a_is_shmem_linked a"
  shows "stress_signal_handlers d s = (if s \<noteq> SIGTSTP \<and> d s \<noteq> SIG_IGN then Handled else d s)"
    and "m_reference_cnt (fst (stress_termination_handler (Some a) shmem)) = m_reference_cnt shmem - 1"
  by (cases s; simp add: stress_signal_handlers_def install_handlers_eq)
     (simp add: stress_termination_handler_def stress_exit_handler_def jfofs_free_def shmem_unmap_def assms)

end
