(* ===== verification/Pipewire_Query.thy ===== *)
theory Pipewire_Query
  imports Prelude
begin

text \<open>
  The query of \<^verbatim>\<open>pipewire_query.c\<close>, which the server makes in a build with pipewire. What the
  library answers is a parameter: whether a core can be made, the properties it has, and
  \<open>strdup\<close>. The calls that take and give back resources of the library are events.
\<close>

record pipewire =
  pw_core_new :: bool
  pw_core_get_properties :: "(string \<rightharpoonup> string) option"
  pw_strdup :: "string \<Rightarrow> string option"

datatype pw_event = Pw_Init | Pw_Core_New | Pw_Core_Destroy | Pw_Deinit

definition pipewire_query :: "pipewire \<Rightarrow> string \<Rightarrow> string option \<times> pw_event list" where
  "pipewire_query pw query =
     (if \<not> pw_core_new pw then (None, [Pw_Init, Pw_Deinit])
      else case pw_core_get_properties pw of
        None \<Rightarrow> (None, [Pw_Init, Pw_Core_New, Pw_Core_Destroy, Pw_Deinit])
      | Some props \<Rightarrow>
          (let value = props query;
               reply = (case value of None \<Rightarrow> None | Some v \<Rightarrow> pw_strdup pw v) in
           (reply, [Pw_Init, Pw_Core_New, Pw_Core_Destroy, Pw_Deinit])))"

text \<open>Whatever the library answers, the query gives everything back, the core before the library.\<close>

fun pw_balanced :: "pw_event list \<Rightarrow> bool \<Rightarrow> bool \<Rightarrow> bool" where
  "pw_balanced [] up core \<longleftrightarrow> \<not> up \<and> \<not> core"
| "pw_balanced (Pw_Init # es) up core \<longleftrightarrow> \<not> up \<and> pw_balanced es True core"
| "pw_balanced (Pw_Core_New # es) up core \<longleftrightarrow> up \<and> \<not> core \<and> pw_balanced es up True"
| "pw_balanced (Pw_Core_Destroy # es) up core \<longleftrightarrow> core \<and> pw_balanced es up False"
| "pw_balanced (Pw_Deinit # es) up core \<longleftrightarrow> up \<and> \<not> core \<and> pw_balanced es False core"

lemma pipewire_query_balanced: "pw_balanced (snd (pipewire_query pw query)) False False"
  by (simp add: pipewire_query_def Let_def split: option.split)

lemma pipewire_query_answer:
  "fst (pipewire_query pw query) = Some v \<Longrightarrow>
   pw_core_new pw \<and> (\<exists>props u. pw_core_get_properties pw = Some props \<and> props query = Some u \<and> pw_strdup pw u = Some v)"
  by (auto simp: pipewire_query_def Let_def split: if_splits option.splits)

end
