(* ===== verification/Server_Main.thy ===== *)
theory Server_Main
  imports Manager Options Pipewire_Query Api
begin

text \<open>
  The server program of \<^verbatim>\<open>main.c\<close>: its option parser, the setup it builds, the exit paths. The
  parsed command line, the answers of pipewire and the way the final \<open>sleep\<close> ends are inputs.
\<close>

subsection \<open>Options\<close>

record arguments =
  g_verbose :: c_int
  g_clock_source :: c_int
  g_mode :: c_int
  g_n_clients :: c_int
  g_n_fofs :: c_int
  g_n_slots :: c_int
  g_n_max_fofs :: c_int
  g_trace_level :: c_int
  g_xrun_limit :: c_int

definition parse_opt :: "char \<Rightarrow> string \<Rightarrow> arguments \<Rightarrow> arguments option option" where
  "parse_opt key arg args =
     (if key = CHR ''v'' then Some (Some (args\<lparr>g_verbose := 1\<rparr>))
      else if key = CHR ''c'' then do { v \<leftarrow> atoi arg; Some (Some (args\<lparr>g_clock_source := v\<rparr>)) }
      else if key = CHR ''m'' then do { v \<leftarrow> atoi arg; Some (Some (args\<lparr>g_mode := v\<rparr>)) }
      else if key = CHR ''n'' then do { v \<leftarrow> atoi arg; Some (Some (args\<lparr>g_n_clients := v\<rparr>)) }
      else if key = CHR ''p'' then do { v \<leftarrow> atoi arg; Some (Some (args\<lparr>g_n_fofs := v\<rparr>)) }
      else if key = CHR ''s'' then do { v \<leftarrow> atoi arg; Some (Some (args\<lparr>g_n_slots := v\<rparr>)) }
      else if key = CHR ''q'' then do { v \<leftarrow> atoi arg; Some (Some (args\<lparr>g_n_max_fofs := v\<rparr>)) }
      else if key = CHR ''t'' then do { v \<leftarrow> atoi arg; Some (Some (args\<lparr>g_trace_level := v\<rparr>)) }
      else if key = CHR ''x'' then do { v \<leftarrow> atoi arg; Some (Some (args\<lparr>g_xrun_limit := v\<rparr>)) }
      else Some None)"

definition default_arguments :: arguments where
  "default_arguments = \<lparr>g_verbose = 0, g_clock_source = clock_code JFOFS_CLOCK_JACK_FRAME_TIME, g_mode = 1,
     g_n_clients = 1, g_n_fofs = 10 * 1024, g_n_slots = 32, g_n_max_fofs = 1024, g_trace_level = 0,
     g_xrun_limit = 0\<rparr>"

text \<open>
  The setup. A build with pipewire asks it for rate and block size (\<open>pw\<close> is its state); the
  result is \<open>Some None\<close> when it has no answer.
\<close>

definition setup_of_arguments :: "pipewire option \<Rightarrow> arguments \<Rightarrow> setup_t option option" where
  "setup_of_arguments pw args =
     (let setup = (\<lambda>r b. \<lparr>s_clock_source = g_clock_source args, s_mode = g_mode args,
            s_fofs_trace_level = g_trace_level args, s_n_clients = g_n_clients args,
            s_n_preallocate_fofs = g_n_fofs args, s_n_max_fofs = g_n_max_fofs args,
            s_n_slots = g_n_slots args, s_sample_rate = r, s_max_buffer_size = b,
            s_xrun_limit = g_xrun_limit args, s_verbose = g_verbose args\<rparr>) in
      case pw of
        None \<Rightarrow> Some (Some (setup 48000 1024))
      | Some pipewire \<Rightarrow>
          (case (fst (pipewire_query pipewire ''default.clock.rate''),
                 fst (pipewire_query pipewire ''default.clock.max-quantum'')) of
             (Some pw_rate, Some pw_buffer) \<Rightarrow>
               do { r \<leftarrow> atoi pw_rate; b \<leftarrow> atoi pw_buffer; Some (Some (setup r b)) }
           | _ \<Rightarrow> Some None))"

subsection \<open>Exit paths\<close>

text \<open>How the process ends: by \<open>argp\<close> on a bad option, or with an exit code.\<close>

datatype server_exit = Usage | Exited c_int

definition exit_handler ::
  "mgr_env \<Rightarrow> build \<Rightarrow> c_int \<Rightarrow> 'b manager option \<Rightarrow> (server_exit \<times> mgr_event list) option" where
  "exit_handler env b status mgr =
     (let code = Exited (if status \<noteq> 0 then 1 else 0) in
      case mgr of None \<Rightarrow> Some (code, [])
      | Some mgr \<Rightarrow> do { printed \<leftarrow> (if statistics_enable b then dump_statistics (Some (mg_shmem mgr)) else Some None);
                        (st, evs, mgr1) \<leftarrow> manager_deactivate_clients env mgr;
                        evs' \<leftarrow> manager_free env mgr1;
                        Some (code, evs @ evs') })"

text \<open>
  With \<open>SIGTSTP\<close> a build with statistics prints the counters of the manager, which is a null
  pointer before the manager was made.
\<close>

definition termination_handler ::
  "mgr_env \<Rightarrow> build \<Rightarrow> bool \<Rightarrow> 'b manager option \<Rightarrow> (server_exit \<times> mgr_event list) option" where
  "termination_handler env b is_sigtstp mgr =
     (if statistics_enable b \<and> is_sigtstp
      then do { m \<leftarrow> mgr;
                let stats = m_statistics (mg_shmem m) in
                do { total \<leftarrow> sum_slots (nat (sint (st_n_slots stats))) 0 0 stats; exit_handler env b 1 mgr } }
      else exit_handler env b 1 mgr)"

text \<open>The handlers \<open>main\<close> installs before anything else.\<close>

definition server_signal_handlers :: "(signal \<Rightarrow> disposition) \<Rightarrow> signal \<Rightarrow> disposition" where
  "server_signal_handlers = install_handlers [SIGINT, SIGHUP, SIGTERM, SIGTSTP]"

lemma server_handles_all_signals:
  "server_signal_handlers d s = (if d s = SIG_IGN then SIG_IGN else Handled)"
  by (cases s; simp add: server_signal_handlers_def install_handlers_eq)

text \<open>
  The program: \<open>life\<close> is what the JACK threads and the API clients make of the manager until the
  end; \<open>sig\<close> is \<^const>\<open>None\<close> when the final \<open>sleep\<close> returns, else the signal that ended it (whether
  it was \<open>SIGTSTP\<close>).
\<close>

definition server_main ::
  "'b fofs_lib \<Rightarrow> build \<Rightarrow> os_shm \<Rightarrow> mgr_env \<Rightarrow> pipewire option \<Rightarrow> (char \<times> string) list
     \<Rightarrow> ('b manager \<Rightarrow> 'b manager) \<Rightarrow> bool option \<Rightarrow> (server_exit \<times> mgr_event list) option" where
  "server_main lib b os env pw opts life sig =
     do { r \<leftarrow> argp_parse parse_opt opts default_arguments;
          case r of None \<Rightarrow> Some (Usage, [])
          | Some args \<Rightarrow>
              do { s \<leftarrow> setup_of_arguments pw args;
                   case s of None \<Rightarrow> exit_handler env b 1 (None :: 'b manager option)
                   | Some setup \<Rightarrow>
                       do { (mgr, status, setup', evs) \<leftarrow> manager_create lib b os env setup;
                            (code, evs') \<leftarrow> (case mgr of None \<Rightarrow> exit_handler env b status (None :: 'b manager option)
                                            | Some m \<Rightarrow> (case sig of None \<Rightarrow> exit_handler env b 0 (Some (life m))
                                                | Some is_sigtstp \<Rightarrow> termination_handler env b is_sigtstp (Some (life m))));
                            Some (code, evs @ evs') } } }"

subsection \<open>The options that count\<close>

definition arg_of :: "char \<Rightarrow> arguments \<Rightarrow> c_int" where
  "arg_of key args =
     (if key = CHR ''c'' then g_clock_source args else if key = CHR ''m'' then g_mode args
      else if key = CHR ''n'' then g_n_clients args else if key = CHR ''p'' then g_n_fofs args
      else if key = CHR ''s'' then g_n_slots args else if key = CHR ''q'' then g_n_max_fofs args
      else if key = CHR ''t'' then g_trace_level args else g_xrun_limit args)"

lemma parse_opt_verbose: "parse_opt (CHR ''v'') v args = Some (Some (args\<lparr>g_verbose := 1\<rparr>))"
  by (simp add: parse_opt_def)

lemma parse_opt_set:
  assumes "k \<in> set ''cmnpsqtx''"
  shows "parse_opt k v args = do { w \<leftarrow> atoi v; Some (Some (args\<lparr>
    g_clock_source := (if k = CHR ''c'' then w else g_clock_source args),
    g_mode := (if k = CHR ''m'' then w else g_mode args),
    g_n_clients := (if k = CHR ''n'' then w else g_n_clients args),
    g_n_fofs := (if k = CHR ''p'' then w else g_n_fofs args),
    g_n_slots := (if k = CHR ''s'' then w else g_n_slots args),
    g_n_max_fofs := (if k = CHR ''q'' then w else g_n_max_fofs args),
    g_trace_level := (if k = CHR ''t'' then w else g_trace_level args),
    g_xrun_limit := (if k = CHR ''x'' then w else g_xrun_limit args)\<rparr>)) }"
proof -
  from assms have "k = CHR ''c'' \<or> k = CHR ''m'' \<or> k = CHR ''n'' \<or> k = CHR ''p'' \<or> k = CHR ''s'' \<or>
    k = CHR ''q'' \<or> k = CHR ''t'' \<or> k = CHR ''x''" by simp
  then show ?thesis by (elim disjE) (simp_all add: parse_opt_def)
qed

lemma parse_opt_unknown:
  "k \<noteq> CHR ''v'' \<Longrightarrow> k \<notin> set ''cmnpsqtx'' \<Longrightarrow> parse_opt k v args = Some None"
  by (simp add: parse_opt_def)

lemma parse_opt_arg:
  assumes "parse_opt k v args = Some (Some args')" and "key \<in> set ''cmnpsqtx''"
  shows "if k = key then atoi v = Some (arg_of key args') else arg_of key args' = arg_of key args"
proof (cases "k \<in> set ''cmnpsqtx''")
  case True
  from assms(2) have "key = CHR ''c'' \<or> key = CHR ''m'' \<or> key = CHR ''n'' \<or> key = CHR ''p'' \<or> key = CHR ''s'' \<or>
    key = CHR ''q'' \<or> key = CHR ''t'' \<or> key = CHR ''x''" by simp
  moreover obtain w where w: "atoi v = Some w" using assms(1) True by (cases "atoi v") (simp_all only: parse_opt_set, simp)
  moreover note assms(1) [unfolded parse_opt_set [OF True] w bind.bind_lunit option.inject, symmetric]
  ultimately show ?thesis by (elim disjE) (simp_all add: arg_of_def)
next
  case False
  with assms(2) have ne: "k \<noteq> key" by blast
  have "k = CHR ''v''" using assms(1) False parse_opt_unknown [of k v args] by fastforce
  then have "args' = args\<lparr>g_verbose := 1\<rparr>" using assms(1) parse_opt_verbose [of v args] by simp
  then show ?thesis using ne by (simp add: arg_of_def)
qed

lemma parse_opts_arg:
  assumes "key \<in> set ''cmnpsqtx''"
  shows "argp_parse parse_opt opts args = Some (Some args') \<Longrightarrow>
    (case last_value key opts None of None \<Rightarrow> arg_of key args' = arg_of key args
     | Some v \<Rightarrow> atoi v = Some (arg_of key args'))"
proof (induction opts arbitrary: args' rule: rev_induct)
  case Nil
  then show ?case by simp
next
  case (snoc o1 opts)
  obtain k v where o1: "o1 = (k, v)" by fastforce
  obtain args1 where a: "argp_parse parse_opt opts args = Some (Some args1)" "parse_opt k v args1 = Some (Some args')"
    using snoc.prems by (auto simp: argp_parse_append o1 split: bind_splits option.splits)
  have lv: "last_value key (opts @ [(k, v)]) w = (if k = key then Some v else last_value key opts w)" for w
    by (induction opts arbitrary: w) auto
  show ?case
    using snoc.IH [OF a(1)] parse_opt_arg [OF a(2) assms] by (auto simp: o1 lv split: option.splits if_splits)
qed

text \<open>
  The options of the server: after a command line that was parsed, each numeric setting has
  the value of the last occurrence of its option, read as a decimal number, or its default when
  the option does not occur; printing a number and parsing it gives it back.
\<close>

theorem server_options_last_wins:
  assumes "argp_parse parse_opt opts default_arguments = Some (Some args)" and "key \<in> set ''cmnpsqtx''"
  shows "(case last_value key opts None of
      None \<Rightarrow> arg_of key args = arg_of key default_arguments
    | Some v \<Rightarrow> atoi v = Some (arg_of key args) \<and>
        (\<forall>n<2 ^ 31. v = decimal n \<longrightarrow> arg_of key args = of_nat n))"
  using parse_opts_arg [OF assms(2,1)] by (auto simp: atoi_decimal split: option.splits)

lemma ex_options:
  "argp_parse parse_opt [(CHR ''s'', ''16''), (CHR ''v'', []), (CHR ''s'', '' +64x'')] default_arguments
     = Some (Some (default_arguments\<lparr>g_verbose := 1, g_n_slots := 64\<rparr>))"
  "last_value (CHR ''s'') [(CHR ''s'', ''16''), (CHR ''v'', []), (CHR ''s'', '' +64x'')] None = Some '' +64x''"
  by code_simp+

theorem server_options_last_wins_witness:
  "(case last_value (CHR ''s'') [(CHR ''s'', ''16''), (CHR ''v'', []), (CHR ''s'', '' +64x'')] None of
      None \<Rightarrow> False | Some v \<Rightarrow> atoi v = Some 64)"
  using server_options_last_wins [OF ex_options(1), of "CHR ''s''"] by (simp add: ex_options(2) arg_of_def)

subsection \<open>Coming up and going down\<close>

lemma each_dsp_all:
  "each_dsp call ev ds = Some (0, evs) \<Longrightarrow>
   None \<notin> set ds \<and> evs = map (\<lambda>d. ev (d_j_client (the d))) ds"
proof (induction ds arbitrary: evs)
  case (Cons d ds)
  then show ?case by (cases d) (auto split: if_splits bind_splits)
qed simp

lemma connect_ctrl_events:
  "connect_ctrl connect port ds = Some (st, evs) \<Longrightarrow> Activated j \<notin> set evs"
  by (induction connect port ds arbitrary: st evs rule: connect_ctrl.induct) (auto split: if_splits bind_splits)

lemma connect_chans_events:
  "connect_chans connect k outs ins = Some (st, evs) \<Longrightarrow> Activated j \<notin> set evs"
  by (induction connect k outs ins arbitrary: st evs rule: connect_chans.induct) (auto split: if_splits bind_splits)

lemma connect_dsps_events:
  "connect_dsps connect ins ds = Some (st, evs) \<Longrightarrow> Activated j \<notin> set evs"
  by (induction connect ins ds arbitrary: st evs rule: connect_dsps.induct)
    (auto split: if_splits bind_splits simp: connect_chans_events)

lemma connect_clients_events:
  "manager_connect_clients env mgr = Some (st, evs) \<Longrightarrow> Activated j \<notin> set evs"
  by (auto simp: manager_connect_clients_def Let_def connect_ctrl_events connect_dsps_events split: if_splits bind_splits)

text \<open>The JACK clients of a manager along the signal path, and those that a list of events closes.\<close>

definition clients_of :: "'b manager \<Rightarrow> nat list" where
  "clients_of mgr = x_j_client (mg_mix mgr) # map (\<lambda>d. d_j_client (the d)) (take (mgr_clients mgr) (mg_dsp mgr))
     @ [c_j_client (mg_ctrl mgr)]"

fun closed_by :: "mgr_event list \<Rightarrow> nat list" where
  "closed_by [] = []"
| "closed_by (Closed j # evs) = j # closed_by evs"
| "closed_by (ev # evs) = closed_by evs"

lemma closed_by_append [simp]: "closed_by (xs @ ys) = closed_by xs @ closed_by ys"
  by (induction xs rule: closed_by.induct) simp_all

lemma closed_by_deactivated [simp]: "closed_by (map (\<lambda>d. Deactivated (f d)) ds) = []"
  by (induction ds) simp_all

text \<open>The callbacks and the API clients leave the server's own clients as they are.\<close>

definition same_clients :: "'b manager \<Rightarrow> 'b manager \<Rightarrow> bool" where
  "same_clients mgr mgr' \<longleftrightarrow> mgr_clients mgr' = mgr_clients mgr \<and>
     map (map_option d_j_client) (mg_dsp mgr') = map (map_option d_j_client) (mg_dsp mgr) \<and>
     x_j_client (mg_mix mgr') = x_j_client (mg_mix mgr) \<and> c_j_client (mg_ctrl mgr') = c_j_client (mg_ctrl mgr)"

lemma same_clients_of:
  assumes "same_clients mgr mgr'" and "None \<notin> set (take (mgr_clients mgr) (mg_dsp mgr))"
  shows "None \<notin> set (take (mgr_clients mgr') (mg_dsp mgr'))" "clients_of mgr' = clients_of mgr"
proof -
  let ?ds = "take (mgr_clients mgr) (mg_dsp mgr)" and ?ds' = "take (mgr_clients mgr') (mg_dsp mgr')"
  have m: "map (map_option d_j_client) ?ds' = map (map_option d_j_client) ?ds"
    using assms(1) by (simp add: same_clients_def take_map [symmetric])
  have n: "None \<in> set ds \<longleftrightarrow> None \<in> set (map (map_option d_j_client) ds)" for ds :: "'a dsp_client option list"
    by force
  have j: "map (\<lambda>d. d_j_client (the d)) ds = map the (map (map_option d_j_client) ds)"
    if "None \<notin> set ds" for ds :: "'a dsp_client option list"
    using that by (simp add: option.map_sel [symmetric]) (metis option.map_sel)
  show "None \<notin> set ?ds'" using assms(2) unfolding n m .
  from j [OF this] j [OF assms(2)] show "clients_of mgr' = clients_of mgr"
    using assms(1) by (simp only: clients_of_def m same_clients_def)
qed

text \<open>A manager that was created: all its clients exist and were activated.\<close>

lemma manager_created:
  assumes "manager_create lib b os env setup = Some (Some mgr, status, setup', evs)"
  shows "None \<notin> set (take (mgr_clients mgr) (mg_dsp mgr))" and "status = 0"
    and "Activated j \<in> set evs \<Longrightarrow> j \<in> set (clients_of mgr)"
proof -
  obtain mgr0 evs1 evs2 where a: "manager_activate_clients env mgr0 = Some (0, evs1, mgr)"
    "manager_connect_clients env mgr = Some (0, evs2)" "evs = evs1 @ evs2" "status = 0"
    using assms by (auto simp: manager_create_def split: bind_splits option.splits if_splits)
  have m: "mgr_clients mgr = mgr_clients mgr0" "mg_dsp mgr = mg_dsp mgr0" "mg_mix mgr = mg_mix mgr0"
    "c_j_client (mg_ctrl mgr) = c_j_client (mg_ctrl mgr0)"
    using a(1) by (auto simp: manager_activate_clients_def ctrl_client_activate_def Let_def split: if_splits bind_splits)
  obtain devs where d: "each_dsp (dsp_client_activate (mj_activate env)) Activated (take (mgr_clients mgr0) (mg_dsp mgr0)) = Some (0, devs)"
    "evs1 = Activated (x_j_client (mg_mix mgr0)) # devs @ [Activated (c_j_client (mg_ctrl mgr0))]"
    using a(1) by (auto simp: manager_activate_clients_def ctrl_client_activate_def Let_def split: if_splits bind_splits)
  show "None \<notin> set (take (mgr_clients mgr) (mg_dsp mgr))" using each_dsp_all [OF d(1)] m by simp
  show "status = 0" by fact
  show "j \<in> set (clients_of mgr)" if "Activated j \<in> set evs"
    using that each_dsp_all [OF d(1)] m connect_clients_events [OF a(2)] d(2) a(3)
    by (fastforce simp: clients_of_def)
qed

text \<open>Taking it down: the events of \<open>manager_deactivate_clients\<close> and of \<open>manager_free\<close>.\<close>

lemma manager_deactivate_all:
  assumes "None \<notin> set (take (mgr_clients mgr) (mg_dsp mgr))" and "\<And>j. mj_deactivate env j = 0"
  obtains evs where
    "manager_deactivate_clients env mgr = Some (0, evs, mgr\<lparr>mg_ctrl := (mg_ctrl mgr)\<lparr>c_active := 0\<rparr>\<rparr>)"
    "set evs = Deactivated ` set (clients_of mgr)" "closed_by evs = []"
  using each_dsp_ok [OF assms(1), of "dsp_client_deactivate (mj_deactivate env)" Deactivated] assms(2) that
  by (auto simp: manager_deactivate_clients_def mix_client_deactivate_def ctrl_client_deactivate_def
      dsp_client_deactivate_def Let_def clients_of_def)

lemma free_dsps_closes: "None \<notin> set ds \<Longrightarrow> closed_by (free_dsps ds) = map (\<lambda>d. d_j_client (the d)) ds"
  by (induction ds rule: free_dsps.induct) (simp_all add: dsp_client_free_def)

lemma manager_free_all:
  assumes "None \<notin> set (take (mgr_clients mgr) (mg_dsp mgr))" and "\<And>j. mj_deactivate env j = 0"
  obtains evs where "manager_free env mgr = Some (evs @ [Unlinked])" "closed_by evs = clients_of mgr"
proof -
  obtain evs0 mgr1 where "manager_deactivate_clients env mgr = Some (0, evs0, mgr1)" "closed_by evs0 = []"
    using manager_deactivate_all [OF assms] by metis
  then show thesis
    using that [of "evs0 @ mix_client_free (mg_mix mgr) @ free_dsps (take (mgr_clients mgr) (mg_dsp mgr))
        @ ctrl_client_free (mg_ctrl mgr)"]
      free_dsps_closes [OF assms(1)]
    by (simp add: manager_free_def mix_client_free_def ctrl_client_free_def clients_of_def)
qed

text \<open>
  C26: the server goes down cleanly: once the manager was created, the program ends with exit code
  zero when the final \<open>sleep\<close> returns, and one on a signal; on the way every JACK client that was
  activated is deactivated, each client of the manager is closed exactly once, mix client first,
  and the shared segment is unlinked last. (The callbacks leave the clients as they are; with
  statistics the counters must be fit to be printed.)
\<close>

theorem server_goes_down_cleanly:
  assumes "argp_parse parse_opt opts default_arguments = Some (Some args)"
    and "setup_of_arguments pw args = Some (Some setup)"
    and "manager_create lib b os env setup = Some (Some mgr, status, setup', up)"
    and "\<forall>j. mj_deactivate env j = 0" and "same_clients mgr (life mgr)"
    and "statistics_enable b \<longrightarrow> dump_statistics (Some (mg_shmem (life mgr))) \<noteq> None"
  shows "\<exists>down. server_main lib b os env pw opts life sig
      = Some (Exited (if sig = None then 0 else 1), up @ down @ [Unlinked]) \<and>
    (\<forall>j. Activated j \<in> set up \<longrightarrow> Deactivated j \<in> set down) \<and>
    closed_by (down @ [Unlinked]) = clients_of mgr"
proof -
  note c = manager_created [OF assms(3)]
  note s = same_clients_of [OF assms(5) c(1)]
  have dz: "mj_deactivate env j = 0" for j using assms(4) by simp
  let ?mgr = "life mgr"
  let ?mgr1 = "?mgr\<lparr>mg_ctrl := (mg_ctrl ?mgr)\<lparr>c_active := 0\<rparr>\<rparr>"
  obtain evs where d: "manager_deactivate_clients env ?mgr = Some (0, evs, ?mgr1)"
    "set evs = Deactivated ` set (clients_of ?mgr)" "closed_by evs = []"
    by (rule manager_deactivate_all [OF s(1) dz])
  have "clients_of ?mgr1 = clients_of mgr" using s(2) by (simp add: clients_of_def)
  then obtain evs' where f: "manager_free env ?mgr1 = Some (evs' @ [Unlinked])" "closed_by evs' = clients_of mgr"
    using manager_free_all [of ?mgr1 env] s(1) dz by auto
  have e: "exit_handler env b st (Some ?mgr) = Some (Exited (if st \<noteq> 0 then 1 else 0), evs @ evs' @ [Unlinked])" for st
    using d(1) f(1) assms(6) by (auto simp: exit_handler_def)
  have t: "termination_handler env b tstp (Some ?mgr) = exit_handler env b 1 (Some ?mgr)" for tstp
    using assms(6) by (auto simp: termination_handler_def dump_statistics_def Let_def split: bind_splits)
  have "server_main lib b os env pw opts life sig
      = Some (Exited (if sig = None then 0 else 1), up @ (evs @ evs') @ [Unlinked])"
    using assms(1-3) e t by (auto simp: server_main_def split: option.splits)
  then show ?thesis using d(2,3) f(2) c(3) s(2) by (intro exI [of _ "evs @ evs'"]) auto
qed

text \<open>A segment or a manager that cannot be made always leaves an error status, so the exit code is one.\<close>

lemma statistics_init_segment: "statistics_init (Some shmem) \<noteq> Some None"
  by (auto simp: statistics_init_def split: bind_splits)

lemma manager_create_failure:
  "manager_create lib b os env setup = Some (None, status, setup', evs) \<Longrightarrow> status \<noteq> 0"
  by (auto simp: manager_create_def shmem_create_def Let_def statistics_init_segment
      split: bind_splits option.splits if_splits)

lemma server_reports_failure:
  assumes "argp_parse parse_opt opts default_arguments = Some (Some args)"
    and "setup_of_arguments pw args = Some (Some setup)"
    and "manager_create lib b os env setup = Some (None, status, setup', up)"
  shows "server_main lib b os env pw opts life sig = Some (Exited 1, up)"
  using assms manager_create_failure [OF assms(3)] by (simp add: server_main_def exit_handler_def)

text \<open>With the defaults the program comes up, when JACK answers.\<close>

lemma ex_default_setup:
  obtains conf where "setup_of_arguments None default_arguments = Some (Some conf)" "server_setup ex_lib ex_env conf"
proof -
  let ?s = "\<lparr>s_clock_source = 1, s_mode = 1, s_fofs_trace_level = 0, s_n_clients = 1, s_n_preallocate_fofs = 10240,
     s_n_max_fofs = 1024, s_n_slots = 32, s_sample_rate = 48000, s_max_buffer_size = 1024, s_xrun_limit = 0,
     s_verbose = 0\<rparr> :: setup_t"
  have "(32 :: c_int) = 2 ^ 5" by simp
  then have w: "\<exists>k<31. (32 :: c_int) = 2 ^ k" by (intro exI [of _ 5]) simp
  have "setup_of_arguments None default_arguments = Some (Some ?s)"
    by (simp add: setup_of_arguments_def default_arguments_def Let_def)
  moreover have "server_setup ex_lib ex_env ?s"
    using w by (simp add: server_setup_def wf_setup_def jack_setup_of_def ex_env_def ex_client_def ex_lib_def)
  ultimately show thesis by (rule that)
qed

text \<open>The segment at the end is another one than at the beginning, and its counters are printed.\<close>

theorem server_goes_down_cleanly_witness:
  "\<exists>mgr up down. server_main ex_lib ex_build ex_os ex_env None [] (\<lambda>m. m\<lparr>mg_shmem := ex_shmem\<rparr>) (Some True)
      = Some (Exited 1, up @ down @ [Unlinked]) \<and>
    (\<forall>j. Activated j \<in> set up \<longrightarrow> Deactivated j \<in> set down) \<and>
    closed_by (down @ [Unlinked]) = clients_of (mgr :: event list manager)"
proof -
  obtain conf where s: "setup_of_arguments None default_arguments = Some (Some conf)" "server_setup ex_lib ex_env conf"
    by (rule ex_default_setup)
  have o: "os_shm_open ex_os" "os_ftruncate ex_os" "os_mmap ex_os = Some (the (os_mmap ex_os))" by (simp_all add: ex_os_def)
  have b: "wf_build ex_build" by (simp add: wf_build_def ex_build_def)
  obtain mgr up where m: "manager_create ex_lib ex_build ex_os ex_env conf = Some (Some mgr, 0, jack_setup_of ex_env conf, up)"
    by (rule manager_create_ok [OF o b ex_server(1) s(2)])
  have p: "argp_parse parse_opt [] default_arguments = Some (Some default_arguments)" by simp
  have "dump_statistics (Some ex_shmem) \<noteq> None" using dump_total [OF ex_wf_counters] by (metis option.distinct(1))
  then show ?thesis
    using server_goes_down_cleanly [OF p s(1) m, of "\<lambda>m. m\<lparr>mg_shmem := ex_shmem\<rparr>" "Some True"]
    by (auto simp: ex_env_def same_clients_def)
qed

end
