(* ===== verification/Manager_Dummy.thy ===== *)
theory Manager_Dummy
  imports Fof_Queue
begin

text \<open>
  The stand-in for the server of \<^verbatim>\<open>manager_dummy.c\<close>, which is not built any more: a thread that
  takes one fof after the other from a mailbox in shared memory and keeps the last ones in a
  ring. The type of the mailbox and \<open>manager_setup_ipc\<close> are not in the sources; of the first only
  the members the file uses are modelled, the result of the second is an argument.
\<close>

abbreviation MDUMMY_MAX_FOFS :: nat where "MDUMMY_MAX_FOFS \<equiv> 64"

text \<open>The mailbox: three semaphores and one fof.\<close>

record mailbox =
  mb_sem :: nat
  mb_sem1 :: nat
  mb_sem2 :: nat
  mb_fof :: fof

record manager_dummy =
  md_tid :: nat
  md_count :: c_int
  md_fof :: "fof list"

subsection \<open>The operations\<close>

text \<open>
  The constructor, over the results of the two allocations and of \<open>manager_setup_ipc\<close>; \<open>raw\<close> is
  what the allocated memory holds, which is not cleared. Then the value of \<open>*status\<close> and the
  memory still held.
\<close>

definition manager_dummy_new ::
  "c_int \<Rightarrow> c_int \<Rightarrow> c_int \<Rightarrow> manager_dummy \<Rightarrow> manager_dummy option \<times> c_int \<times> string list" where
  "manager_dummy_new memalign1 memalign2 setup_ipc raw =
     (if memalign1 \<noteq> 0 then (None, memalign1, [])
      else if memalign2 \<noteq> 0 then (None, memalign2, [])
      else if setup_ipc \<noteq> status_code JFOFS_SUCCESS then (None, setup_ipc, [])
      else (Some raw, setup_ipc, [''dmgr'', ''mgr'']))"

text \<open>What is left of the memory held.\<close>

definition manager_dummy_free :: "string list \<Rightarrow> string list" where
  "manager_dummy_free held = removeAll ''dmgr'' held"

text \<open>The semaphore \<open>sem\<close> is taken and given back; \<^const>\<open>None\<close>: the call blocks.\<close>

definition manager_dummy_get_count :: "mailbox \<Rightarrow> manager_dummy \<Rightarrow> c_int option" where
  "manager_dummy_get_count shm dmgr = (if mb_sem shm = 0 then None else Some (md_count dmgr))"

definition manager_dummy_get_fof :: "mailbox \<Rightarrow> manager_dummy \<Rightarrow> c_int \<Rightarrow> fof option" where
  "manager_dummy_get_fof shm dmgr idx =
     (if mb_sem shm = 0 \<or> md_fof dmgr = [] then None else Some (md_fof dmgr ! 0))"

definition manager_dummy_start :: "nat \<Rightarrow> manager_dummy \<Rightarrow> nat \<times> manager_dummy" where
  "manager_dummy_start tid dmgr = (tid, dmgr\<lparr>md_tid := tid\<rparr>)"

text \<open>One round of the thread; \<^const>\<open>None\<close>: it waits for \<open>sem1\<close>, or writes outside of the ring.\<close>

definition ipc_round :: "mailbox \<Rightarrow> manager_dummy \<Rightarrow> (mailbox \<times> manager_dummy) option" where
  "ipc_round shm dmgr =
     (let count = md_count dmgr in
      if mb_sem1 shm = 0 \<or> sint count < 0 \<or> length (md_fof dmgr) \<le> nat (sint count) then None
      else Some (shm\<lparr>mb_sem1 := mb_sem1 shm - 1, mb_sem2 := mb_sem2 shm + 1\<rparr>,
                 dmgr\<lparr>md_fof := (md_fof dmgr)[nat (sint count) := mb_fof shm],
                      md_count := (if int MDUMMY_MAX_FOFS \<le> sint (count + 1) then 0 else count + 1)\<rparr>))"

text \<open>A run of the thread: a client puts a fof in the mailbox and posts \<open>sem1\<close> before each round.\<close>

fun manager_dummy_ipc_loop :: "fof list \<Rightarrow> mailbox \<Rightarrow> manager_dummy \<Rightarrow> (mailbox \<times> manager_dummy) option" where
  "manager_dummy_ipc_loop [] shm dmgr = Some (shm, dmgr)"
| "manager_dummy_ipc_loop (m # ms) shm dmgr =
     do { (shm1, dmgr1) \<leftarrow> ipc_round (shm\<lparr>mb_fof := m, mb_sem1 := mb_sem1 shm + 1\<rparr>) dmgr;
          manager_dummy_ipc_loop ms shm1 dmgr1 }"

subsection \<open>The ring\<close>

definition wf_dummy :: "manager_dummy \<Rightarrow> bool" where
  "wf_dummy dmgr \<longleftrightarrow> length (md_fof dmgr) = MDUMMY_MAX_FOFS \<and> unat (md_count dmgr) < MDUMMY_MAX_FOFS"

lemma ipc_round_eq:
  assumes "wf_dummy dmgr" and "mb_sem1 shm \<noteq> 0"
  obtains dmgr' where "ipc_round shm dmgr = Some (shm\<lparr>mb_sem1 := mb_sem1 shm - 1, mb_sem2 := mb_sem2 shm + 1\<rparr>, dmgr')"
    "wf_dummy dmgr'" "unat (md_count dmgr') = Suc (unat (md_count dmgr)) mod MDUMMY_MAX_FOFS"
    "md_fof dmgr' = (md_fof dmgr)[unat (md_count dmgr) := mb_fof shm]"
proof -
  let ?c = "md_count dmgr"
  have c: "unat ?c < 64" and l: "length (md_fof dmgr) = 64" using assms(1) by (simp_all add: wf_dummy_def)
  then have s: "sint ?c = int (unat ?c)" by (intro sint_small) simp
  have "unat ?c + unat (1 :: c_int) < 2 ^ LENGTH(32)" using c by simp
  then have u: "unat (?c + 1) = Suc (unat ?c)" by (simp add: unat_add_lem [THEN iffD1])
  then have s1: "sint (?c + 1) = int (Suc (unat ?c))" using c by (subst sint_small) simp_all
  let ?d = "dmgr\<lparr>md_fof := (md_fof dmgr)[unat ?c := mb_fof shm],
    md_count := (if int MDUMMY_MAX_FOFS \<le> sint (?c + 1) then 0 else ?c + 1)\<rparr>"
  show thesis
  proof (rule that [of ?d])
    show "ipc_round shm dmgr = Some (shm\<lparr>mb_sem1 := mb_sem1 shm - 1, mb_sem2 := mb_sem2 shm + 1\<rparr>, ?d)"
      using assms(2) c l s by (simp add: ipc_round_def Let_def)
    show "unat (md_count ?d) = Suc (unat ?c) mod MDUMMY_MAX_FOFS"
    proof (cases "Suc (unat ?c) = 64")
      case True
      then show ?thesis by (simp add: s1)
    next
      case False
      then have "\<not> int MDUMMY_MAX_FOFS \<le> sint (?c + 1)" unfolding s1 using c by linarith
      then show ?thesis using c u False by (simp only: manager_dummy.simps if_False) simp
    qed
    then show "wf_dummy ?d" using l by (simp add: wf_dummy_def)
  qed simp
qed

text \<open>
  The thread never waits for a client that has posted, and keeps the last 64 fofs: the \<open>j\<close>-th of a
  run lies at its place in the ring as long as it has not been overtaken. What \<open>get_fof\<close> returns is
  the fof at place zero whatever index it is given.
\<close>

definition kept :: "fof list \<Rightarrow> manager_dummy \<Rightarrow> manager_dummy \<Rightarrow> bool" where
  "kept ms dmgr dmgr' \<longleftrightarrow> wf_dummy dmgr' \<and>
     unat (md_count dmgr') = (unat (md_count dmgr) + length ms) mod MDUMMY_MAX_FOFS \<and>
     (\<forall>j<length ms. length ms \<le> j + MDUMMY_MAX_FOFS \<longrightarrow>
       md_fof dmgr' ! ((unat (md_count dmgr) + j) mod MDUMMY_MAX_FOFS) = ms ! j) \<and>
     (\<forall>k<MDUMMY_MAX_FOFS. (\<forall>j<length ms. (unat (md_count dmgr) + j) mod MDUMMY_MAX_FOFS \<noteq> k) \<longrightarrow>
       md_fof dmgr' ! k = md_fof dmgr ! k)"

lemma kept_Cons:
  assumes "wf_dummy dmgr" and "kept ms d1 dmgr'"
    and c1: "unat (md_count d1) = Suc (unat (md_count dmgr)) mod MDUMMY_MAX_FOFS"
    and f1: "md_fof d1 = (md_fof dmgr)[unat (md_count dmgr) := m]"
  shows "kept (m # ms) dmgr dmgr'"
proof -
  let ?n = MDUMMY_MAX_FOFS and ?c = "unat (md_count dmgr)"
  have r: "(unat (md_count d1) + j) mod ?n = (?c + Suc j) mod ?n" for j unfolding c1 by (simp add: mod_add_left_eq)
  have c: "?c < ?n" "?c < length (md_fof dmgr)" using assms(1) by (simp_all add: wf_dummy_def)
  note k = assms(2) [unfolded kept_def r]
  have "md_fof dmgr' ! ((?c + j) mod ?n) = (m # ms) ! j" if j: "j < length (m # ms)" "length (m # ms) \<le> j + ?n" for j
  proof (cases j)
    case 0
    have "(?c + Suc i) mod ?n \<noteq> (?c + 0) mod ?n" if "i < length ms" for i
      using mod_shift_inj [of "Suc i" ?n 0 ?c] that j(2) 0 by auto
    then have "md_fof dmgr' ! ?c = md_fof d1 ! ?c" using k c(1) by simp
    then show ?thesis using 0 f1 c by simp
  next
    case (Suc i)
    then show ?thesis using k j by simp
  qed
  moreover have "md_fof dmgr' ! i = md_fof dmgr ! i"
    if i: "i < ?n" "\<forall>j<length (m # ms). (?c + j) mod ?n \<noteq> i" for i
  proof -
    have "i \<noteq> ?c" using c(1) i(2) by (auto dest: spec [of _ 0])
    moreover have "\<forall>j<length ms. (?c + Suc j) mod ?n \<noteq> i" using i(2) by auto
    ultimately show ?thesis using k i(1) f1 by simp
  qed
  ultimately show ?thesis using k by (simp add: kept_def)
qed

lemma ipc_loop_keeps_last:
  assumes "wf_dummy dmgr"
  obtains shm' dmgr' where "manager_dummy_ipc_loop ms shm dmgr = Some (shm', dmgr')" "kept ms dmgr dmgr'"
    "mb_sem1 shm' = mb_sem1 shm" "mb_sem2 shm' = mb_sem2 shm + length ms"
  using assms
proof (induction ms arbitrary: shm dmgr thesis)
  case Nil
  then show ?case by (simp add: wf_dummy_def kept_def)
next
  case (Cons m ms)
  let ?shm = "shm\<lparr>mb_fof := m, mb_sem1 := mb_sem1 shm + 1\<rparr>"
  let ?shm1 = "?shm\<lparr>mb_sem1 := mb_sem1 ?shm - 1, mb_sem2 := mb_sem2 ?shm + 1\<rparr>"
  obtain d1 where r: "ipc_round ?shm dmgr = Some (?shm1, d1)" "wf_dummy d1"
    "unat (md_count d1) = Suc (unat (md_count dmgr)) mod MDUMMY_MAX_FOFS"
    "md_fof d1 = (md_fof dmgr)[unat (md_count dmgr) := mb_fof ?shm]"
    by (rule ipc_round_eq [OF Cons.prems(2), of ?shm]) simp_all
  obtain shm' d' where l: "manager_dummy_ipc_loop ms ?shm1 d1 = Some (shm', d')" "kept ms d1 d'"
    "mb_sem1 shm' = mb_sem1 ?shm1" "mb_sem2 shm' = mb_sem2 ?shm1 + length ms"
    by (rule Cons.IH [OF _ r(2)])
  have "kept (m # ms) dmgr d'" using kept_Cons [OF Cons.prems(2) l(2) r(3)] r(4) by simp
  then show ?case using Cons.prems(1) [of shm' d'] r(1) l(1,3,4) by simp
qed

text \<open>Whatever the index, the fof returned is the one at place zero.\<close>

lemma get_fof_ignores_index: "manager_dummy_get_fof shm dmgr i = manager_dummy_get_fof shm dmgr j"
  by (simp add: manager_dummy_get_fof_def)

end
