(* ===== verification/Unit_Tests.thy ===== *)
theory Unit_Tests
  imports Api Queue_Pool
begin

text \<open>
  The checks of \<^verbatim>\<open>test_fof_queue.c\<close> and \<^verbatim>\<open>test_statistics.c\<close>, which need no running JACK server, made on
  the model with the setups of the tests: what the tests assert of the code holds of the
  definitions. The tests run at full size, on the abstract scheduler that the queue refines.
\<close>

subsection \<open>The setups\<close>

text \<open>\<open>mode\<close> is a constant of libfofs.\<close>

definition test_setup :: "c_int \<Rightarrow> c_int \<Rightarrow> c_int \<Rightarrow> c_int \<Rightarrow> setup_t" where
  "test_setup mode n_pre n_max slots =
     \<lparr>s_clock_source = clock_code JFOFS_CLOCK_JACK_FRAME_TIME, s_mode = mode, s_fofs_trace_level = 0, s_n_clients = 1,
      s_n_preallocate_fofs = n_pre, s_n_max_fofs = n_max, s_n_slots = slots, s_sample_rate = 48000,
      s_max_buffer_size = 256, s_xrun_limit = 0, s_verbose = 0\<rparr>"

lemma test_setup_wf: "wf_setup (test_setup mode 1024 1024 32)" "wf_setup (test_setup mode 128 128 8)"
  by (simp add: wf_setup_def test_setup_def exI [of _ 5]) (simp add: wf_setup_def test_setup_def exI [of _ 3])

subsection \<open>\<open>test_fof_queue_init\<close>\<close>

lemma test_aligning:
  "shmem_aligning_ptr 0x7f61667f3000 64 = Some 0x7f61667f3000"
  "shmem_aligning_ptr 0x7f61667f3017 64 = Some 0x7f61667f3040"
  by (simp_all add: shmem_aligning_ptr_def)

lemma test_fof_queue_init:
  assumes "raw_queue q (test_setup mode 1024 1024 32)"
  obtains q0 where "fof_queue_init q (test_setup mode 1024 1024 32) = Some q0" "wf_queue q0"
    "q_next_frame q0 = 0" "q_n_slots q0 = 32" "q_sample_rate q0 = 48000" "q_buffer_size q0 = 256"
    "q_slot q0 = replicate 32 None" "q_excess q0 = None" "q_free_fofs q0 = Some 0"
    "free_list q0 = [0..<1024]" "nexts q0 1023 = None"
    "abs_queue q0 = \<lparr>now = 0, stride = 256, rate = 48000, ring = replicate 32 [], overflow = [], pool = 1024\<rparr>"
proof -
  obtain q0 where r: "fof_queue_init q (test_setup mode 1024 1024 32) = Some q0" "wf_queue q0"
    "initialised (test_setup mode 1024 1024 32) q0"
    "owns q0 [0..<nat (sint (s_n_max_fofs (test_setup mode 1024 1024 32)))]
      (replicate (nat (sint (s_n_slots (test_setup mode 1024 1024 32)))) []) [] []"
    by (rule init_owns [OF assms test_setup_wf(1)])
  have o: "owns q0 [0..<1024] (replicate 32 []) [] []" using r(4) by (simp add: test_setup_def)
  have i: "q_next_frame q0 = 0" "q_n_slots q0 = 32" "q_sample_rate q0 = 48000" "q_buffer_size q0 = 256"
    using r(3) by (simp_all add: initialised_def test_setup_def)
  have c: "chain (nexts q0) (q_free_fofs q0) [0..<1024]" "list_all2 (chain (nexts q0)) (q_slot q0) (replicate 32 [])"
    "q_excess q0 = None"
    using o by (simp_all add: owns_def)
  have "[0..<1024] = 0 # [1..<1024::nat]" by (subst upt_conv_Cons) simp_all
  then have f: "q_free_fofs q0 = Some 0" using c(1) by simp
  have "[0..<1024] = [0..<1023] @ [1023::nat]" by (subst upt_Suc_append [symmetric]) simp_all
  then have n: "nexts q0 1023 = None" using chain_suffix [of "nexts q0" "q_free_fofs q0" "[0..<1023]" 1023 "[]"] c(1)
    by (cases "nexts q0 1023") simp_all
  have "length (q_slot q0) = 32" using c(2) by (auto dest: list_all2_lengthD)
  then have s: "q_slot q0 = replicate 32 None"
    using c(2) by (intro nth_equalityI) (auto simp: list_all2_conv_all_nth)
  have "abs_queue q0 = \<lparr>now = 0, stride = 256, rate = 48000, ring = replicate 32 [], overflow = [], pool = 1024\<rparr>"
    using owns_lists [OF o] i by (simp add: abs_queue_def)
  with r(1,2) i s c(3) f owns_lists(1) [OF o] n show thesis by (rule that)
qed

subsection \<open>\<open>test_fof_queue_add\<close>\<close>

text \<open>A call, with what the abstract scheduler says of it.\<close>

lemma add_as_specified:
  assumes "wf_queue q" and "spec_add (abs_queue q) (t, args) = (st, s')"
  obtains evs q' where "fof_queue_add q t args = Some (st, evs, q')" "wf_queue q'" "abs_queue q' = s'"
proof -
  obtain st' q' where "fof_queue_add q t args = Some (st', add_events (abs_queue q) (t, args) st', q')"
    "wf_queue q'" "spec_add (abs_queue q) (t, args) = (st', abs_queue q')"
    by (rule add_refines [OF assms(1), of t args])
  moreover from this(3) assms(2) have "st' = st" "abs_queue q' = s'" by simp_all
  ultimately show thesis by (intro that) simp_all
qed

lemma abs_next_frame:
  "wf_queue (q\<lparr>q_next_frame := n\<rparr>) = wf_queue q" "abs_queue (q\<lparr>q_next_frame := n\<rparr>) = (abs_queue q)\<lparr>now := unat n\<rparr>"
proof -
  let ?q = "q\<lparr>q_next_frame := n\<rparr>"
  have c: "wf_queue ?q = wf_queue q" "free_list ?q = free_list q" "slot_lists ?q = slot_lists q"
    "excess_list ?q = excess_list q" "event_at ?q = event_at q"
    by (rule wf_queue_cong; simp)+
  show "wf_queue ?q = wf_queue q" by (rule c(1))
  show "abs_queue ?q = (abs_queue q)\<lparr>now := unat n\<rparr>" unfolding abs_queue_def c by simp
qed

text \<open>
  Two fofs at time zero go to slot 0, the second in front; after the clock moved by a buffer a third
  one is late; one for frame 75 of the third buffer goes to slot 2, one four buffers past the
  ring is an excess fof.
\<close>

lemma test_fof_queue_add:
  assumes "raw_queue q (test_setup mode 1024 1024 32)"
  shows "\<exists>q0 q1 q2 q3 q4 q5 e1 e2 e3 e4 e5 t4 t5.
    fof_queue_init q (test_setup mode 1024 1024 32) = Some q0 \<and>
    fof_queue_add q0 0 args = Some (JFOFS_SUCCESS, e1, q1) \<and> ring (abs_queue q1) ! 0 = [(0, args)] \<and>
    fof_queue_add q1 0 args = Some (JFOFS_SUCCESS, e2, q2) \<and> ring (abs_queue q2) ! 0 = [(0, args), (0, args)] \<and>
    fof_queue_add (q2\<lparr>q_next_frame := q_next_frame q2 + 256\<rparr>) 0 args = Some (JFOFS_FOF_LATE_WARNING, e3, q3) \<and>
    jfofs_nframes_to_time (2 * 256 + 75) 48000 = Some t4 \<and>
    fof_queue_add q3 t4 args = Some (JFOFS_SUCCESS, e4, q4) \<and> ring (abs_queue q4) ! 2 = [(t4, args)] \<and>
    jfofs_nframes_to_time (36 * 256 + 75) 48000 = Some t5 \<and>
    fof_queue_add q4 t5 args = Some (JFOFS_FOF_EXCESS_INFO, e5, q5)"
proof -
  obtain q0 where q0: "fof_queue_init q (test_setup mode 1024 1024 32) = Some q0" "wf_queue q0"
    "abs_queue q0 = \<lparr>now = 0, stride = 256, rate = 48000, ring = replicate 32 [], overflow = [], pool = 1024\<rparr>"
    by (rule test_fof_queue_init [OF assms])
  let ?e = "(0, args) :: event" and ?s = "\<lambda>n r p. \<lparr>now = n, stride = 256, rate = 48000, ring = r, overflow = [], pool = p\<rparr> :: sched"
  let ?r1 = "(replicate 32 [])[0 := [?e]]" and ?r2 = "(replicate 32 [])[0 := [?e, ?e]]"
  let ?e4 = "(12229, args) :: event" and ?e5 = "(193562, args) :: event"
  have t: "jfofs_nframes_to_time (2 * 256 + 75) 48000 = Some 12229" "jfofs_nframes_to_time (36 * 256 + 75) 48000 = Some 193562"
    by (simp_all add: jfofs_nframes_to_time_def)
  have s1: "spec_add (?s 0 (replicate 32 []) 1024) ?e = (JFOFS_SUCCESS, ?s 0 ?r1 1023)"
    and s2: "spec_add (?s 0 ?r1 1023) ?e = (JFOFS_SUCCESS, ?s 0 ?r2 1022)"
    and s3: "spec_add (?s 256 ?r2 1022) ?e = (JFOFS_FOF_LATE_WARNING, ?s 256 ?r2 1022)"
    and s4: "spec_add (?s 256 ?r2 1022) ?e4 = (JFOFS_SUCCESS, ?s 256 (?r2[Suc (Suc 0) := [?e4]]) 1021)"
    and s5: "fst (spec_add (?s 256 (?r2[Suc (Suc 0) := [?e4]]) 1021) ?e5) = JFOFS_FOF_EXCESS_INFO"
    by (simp_all add: spec_add_def spec_start_def slot_of_def Let_def)
  obtain e1 q1 where q1: "fof_queue_add q0 0 args = Some (JFOFS_SUCCESS, e1, q1)" "wf_queue q1" "abs_queue q1 = ?s 0 ?r1 1023"
    by (rule add_as_specified [OF q0(2), of 0 args]) (use s1 q0(3) in simp)
  obtain e2 q2 where q2: "fof_queue_add q1 0 args = Some (JFOFS_SUCCESS, e2, q2)" "wf_queue q2" "abs_queue q2 = ?s 0 ?r2 1022"
    by (rule add_as_specified [OF q1(2), of 0 args]) (use s2 q1(3) in simp)
  have n: "q_next_frame q2 = 0" using arg_cong [OF q2(3), of now] by (simp add: unat_eq_0)
  have w: "wf_queue (q2\<lparr>q_next_frame := q_next_frame q2 + 256\<rparr>)" "abs_queue (q2\<lparr>q_next_frame := q_next_frame q2 + 256\<rparr>) = ?s 256 ?r2 1022"
    unfolding abs_next_frame using q2 by (simp_all add: n)
  obtain e3 q3 where q3: "fof_queue_add (q2\<lparr>q_next_frame := q_next_frame q2 + 256\<rparr>) 0 args = Some (JFOFS_FOF_LATE_WARNING, e3, q3)"
    "wf_queue q3" "abs_queue q3 = ?s 256 ?r2 1022"
    by (rule add_as_specified [OF w(1), of 0 args]) (use s3 w(2) in simp)
  obtain e4 q4 where q4: "fof_queue_add q3 12229 args = Some (JFOFS_SUCCESS, e4, q4)" "wf_queue q4"
    "abs_queue q4 = ?s 256 (?r2[Suc (Suc 0) := [?e4]]) 1021"
    by (rule add_as_specified [OF q3(2), of 12229 args]) (use s4 q3(3) in simp)
  obtain s' where "spec_add (abs_queue q4) ?e5 = (JFOFS_FOF_EXCESS_INFO, s')" using s5 q4(3) by (metis prod.collapse)
  from add_as_specified [OF q4(2) this]
  obtain e5 q5 where q5: "fof_queue_add q4 193562 args = Some (JFOFS_FOF_EXCESS_INFO, e5, q5)" by blast
  have "ring (abs_queue q1) ! 0 = [?e]" "ring (abs_queue q2) ! 0 = [?e, ?e]" "ring (abs_queue q4) ! 2 = [?e4]"
    by (simp_all only: q1(3) q2(3) q4(3) sched.simps) (simp_all add: numeral_2_eq_2)
  then show ?thesis using q0(1) q1(1) q2(1) q3(1) q4(1) q5 t by blast
qed

subsection \<open>\<open>test_fof_queue_free_list\<close>\<close>

text \<open>The queue hands out its 128 cells in order, then none, and takes the whole list back at once.\<close>

lemma test_fof_queue_free_list:
  assumes "raw_queue q (test_setup mode 1024 128 32)"
  shows "\<exists>q0 q1 q2. fof_queue_init q (test_setup mode 1024 128 32) = Some q0 \<and>
    take_cells pool_get 128 q0 = Some ([0..<128], q1) \<and>
    fof_queue_allocate_fof q1 = Some (None, JFOFS_MEMORY_ERROR, q1) \<and>
    fof_queue_free_fof q1 (Some 5) = Some q2 \<and> free_list q2 = [5]"
proof -
  let ?s = "test_setup mode 1024 128 32"
  have wf: "wf_setup ?s" by (simp add: wf_setup_def test_setup_def exI [of _ 5])
  obtain q0 where i: "fof_queue_init q ?s = Some q0" and
    o: "owns q0 [0..<nat (sint (s_n_max_fofs ?s))] (replicate (nat (sint (s_n_slots ?s))) []) [] []"
    by (rule init_owns [OF assms wf])
  have f: "free_list q0 = [0..<128]" using owns_lists(1) [OF o] by (simp add: test_setup_def)
  obtain q1 where t: "take_cells pool_get 128 q0 = Some ([0..<128], q1)" "pool_ok q1"
    "pool_get q1 = Some (None, q1)" "held q1 = held q0 \<union> {0..<128}"
    using fof_pool.get_all [OF owns_held(2) [OF o]] by (auto simp: f)
  have e: "free_list q1 = []"
    using fof_pool.get_cell [OF t(2)] t(3) by (cases "free_list q1") auto
  then have "fof_queue_allocate_fof q1 = Some (None, JFOFS_MEMORY_ERROR, q1)"
    using pool_okD [OF t(2)] by (simp add: allocate_empty owns_def)
  moreover obtain q2 where "fof_queue_free_fof q1 (Some 5) = Some q2" "free_list q2 = 5 # free_list q1"
    by (rule free_pool [OF t(2), of 5]) (use t(4) in auto)
  ultimately show ?thesis using i t(1) e by auto
qed

subsection \<open>\<open>test_statistics\<close>\<close>

text \<open>Two fofs in slot 0, one in slot 3, one late and one excess.\<close>

lemma test_statistics:
  assumes "m_statistics shmem = zero_statistics 8"
  shows "\<exists>g st. do { g1 \<leftarrow> incr_slot_cnt 0 (Some shmem); g2 \<leftarrow> incr_slot_cnt 0 g1; incr_slot_cnt 3 g2 } = Some g \<and>
    map_option m_statistics (incr_excess_cnt (incr_late_cnt g)) = Some st \<and>
    st_slot_cnt st ! 0 = 2 \<and> st_slot_cnt st ! 3 = 1 \<and> st_late_cnt st = 1 \<and> st_excess_cnt st = 1"
  using assms
  by (simp add: incr_slot_cnt_def incr_late_cnt_def incr_excess_cnt_def zero_statistics_def Let_def)

end
