(* ===== verification/Cache_Race.thy ===== *)
theory Cache_Race
  imports Cycle
begin

text \<open>
  The slot cache of \<^verbatim>\<open>fof_queue.c\<close> under several API clients. \<open>current_slot\<close> and \<open>next_frame_check\<close> lie in
  shared memory and are written one after the other, without a lock and without atomic operations.
  Here the way of \<open>fof_queue_add\<close> from the load of \<open>next_frame\<close> to the compare-and-swap on a slot is cut
  into its loads and stores; clients and the audio thread, which moves or sets \<open>next_frame\<close> and whose
  \<open>fof_queue_flush\<close> resets the cache by two stores, are interleaved by an explicit schedule. \<open>Slot_Race\<close> is about what happens to the cells from there on.
\<close>

subsection \<open>Clients and their steps\<close>

text \<open>
  Where a client is, with its \<open>start_frame\<close>, its copy of \<open>next_frame\<close> and the slot it has computed:
  before the load of \<open>next_frame\<close>; at \<open>recalculate\<close>; before the store to \<open>current_slot\<close>, the store to
  \<open>next_frame_check\<close>, the load of \<open>current_slot\<close>; before \<open>next_frame\<close> is loaded again; before the
  compare-and-swap on its slot.
\<close>

datatype cache_pc =
  Unused
| Entered u64
| Recalculate u64 u64
| Store_Slot u64 u64
| Store_Check u64 u64
| Load_Slot u64 u64
| Confirm u64 u64 c_int
| Swapping u64 u64 c_int

abbreviation slot_distance :: "fof_queue \<Rightarrow> u64 \<Rightarrow> u64 \<Rightarrow> c_int" where
  "slot_distance q sf nf \<equiv>
     int_of_u64 ((sf - nf) div u64_of_int (q_buffer_size q))"

fun cache_continue :: "cache_pc \<Rightarrow> fof_queue \<Rightarrow> (cache_pc \<times> fof_queue) option" where
  "cache_continue Unused q = None"
| "cache_continue (Entered sf) q = Some (Recalculate sf (q_next_frame q), q)"
| "cache_continue (Recalculate sf nf) q =
     (if sf < nf then Some (Unused, q)
      else if u64_of_int (q_buffer_size q) = 0 then None
      else if sint (q_n_slots q) \<le> sint (slot_distance q sf nf) then Some (Unused, q)
      else if nf \<noteq> q_next_frame_check q then Some (Store_Slot sf nf, q)
      else Some (Load_Slot sf nf, q))"
| "cache_continue (Store_Slot sf nf) q =
     Some (Store_Check sf nf,
           q\<lparr>q_current_slot := (nf div u64_of_int (q_buffer_size q)) AND u64_of_int (q_n_slots q - 1)\<rparr>)"
| "cache_continue (Store_Check sf nf) q =
     Some (Load_Slot sf nf, q\<lparr>q_next_frame_check := nf\<rparr>)"
| "cache_continue (Load_Slot sf nf) q =
     Some (Confirm sf nf
             (int_of_u64 ((u64_of_int (slot_distance q sf nf) + q_current_slot q)
                          AND u64_of_int (q_n_slots q - 1))), q)"
| "cache_continue (Confirm sf nf slot) q =
     Some (if q_next_frame q = nf then Swapping sf nf slot
           else if nf + u64_of_int (q_buffer_size q) < sf
           then Recalculate sf (q_next_frame q)
           else Unused, q)"
| "cache_continue (Swapping sf nf slot) q = None"

text \<open>The audio thread at the end of a flush: before the store to \<open>current_slot\<close>, to \<open>next_frame_check\<close>.\<close>

datatype flush_pc = No_Flush | Clear_Slot | Clear_Check

fun flush_continue :: "flush_pc \<Rightarrow> fof_queue \<Rightarrow> (flush_pc \<times> fof_queue) option" where
  "flush_continue No_Flush q = None"
| "flush_continue Clear_Slot q = Some (Clear_Check, q\<lparr>q_current_slot := 0\<rparr>)"
| "flush_continue Clear_Check q = Some (No_Flush, q\<lparr>q_next_frame_check := 0\<rparr>)"

record cache_race =
  k_queue :: fof_queue
  k_pcs :: "cache_pc list"
  k_flush :: flush_pc

text \<open>
  A client that is not in a call, or whose compare-and-swap succeeds, may call \<open>fof_queue_add\<close> (again);
  when its compare-and-swap fails in the fast lane it loads \<open>next_frame\<close> again, with the same slot. The
  audio thread begins a cycle, which moves \<open>next_frame\<close> on by a block (frame clock) or sets it to any
  frame (transport), or comes to the end of a flush.
\<close>

datatype cache_op =
  Call nat u64 | Proceed nat | Swap_Failed nat | Cycle_Begins | Frame_Set u64 | Flush_Begins | Flush_Proceeds

fun not_adding :: "cache_pc \<Rightarrow> bool" where
  "not_adding Unused = True"
| "not_adding (Swapping sf nf slot) = True"
| "not_adding _ = False"

fun cache_step :: "cache_op \<Rightarrow> cache_race \<Rightarrow> cache_race option" where
  "cache_step (Call c t) s =
     (if c < length (k_pcs s) \<and> not_adding (k_pcs s ! c)
      then Some (s\<lparr>k_pcs := (k_pcs s)[c :=
                   Entered (ucast (jfofs_time_to_nframes t (q_sample_rate (k_queue s))))]\<rparr>)
      else None)"
| "cache_step (Proceed c) s =
     (if c < length (k_pcs s)
      then do { (pc, q) \<leftarrow> cache_continue (k_pcs s ! c) (k_queue s);
                Some (s\<lparr>k_queue := q, k_pcs := (k_pcs s)[c := pc]\<rparr>) }
      else None)"
| "cache_step (Swap_Failed c) s =
     (if c < length (k_pcs s)
      then case k_pcs s ! c of
             Swapping sf nf slot \<Rightarrow>
               if nf + u64_of_int (q_buffer_size (k_queue s)) < sf
               then Some (s\<lparr>k_pcs := (k_pcs s)[c := Confirm sf nf slot]\<rparr>)
               else Some (s\<lparr>k_pcs := (k_pcs s)[c := Unused]\<rparr>)
           | _ \<Rightarrow> None
      else None)"
| "cache_step Cycle_Begins s =
     (if k_flush s = No_Flush
      then Some (s\<lparr>k_queue := (k_queue s)\<lparr>q_next_frame := q_next_frame (k_queue s)
                                          + u64_of_int (q_buffer_size (k_queue s))\<rparr>\<rparr>)
      else None)"
| "cache_step (Frame_Set f) s =
     (if k_flush s = No_Flush then Some (s\<lparr>k_queue := (k_queue s)\<lparr>q_next_frame := f\<rparr>\<rparr>) else None)"
| "cache_step Flush_Begins s =
     (if k_flush s = No_Flush then Some (s\<lparr>k_flush := Clear_Slot\<rparr>) else None)"
| "cache_step Flush_Proceeds s =
     do { (pc, q) \<leftarrow> flush_continue (k_flush s) (k_queue s);
          Some (s\<lparr>k_queue := q, k_flush := pc\<rparr>) }"

fun cache_run :: "cache_op list \<Rightarrow> cache_race \<Rightarrow> cache_race option" where
  "cache_run [] s = Some s"
| "cache_run (x # xs) s = do { s' \<leftarrow> cache_step x s; cache_run xs s' }"

definition cache_clients :: "nat \<Rightarrow> fof_queue \<Rightarrow> cache_race" where
  "cache_clients m q = \<lparr>k_queue = q, k_pcs = replicate m Unused, k_flush = No_Flush\<rparr>"

subsection \<open>One client alone\<close>

text \<open>Without interruption the steps are \<open>cache_current_slot\<close> and the index of \<open>add_recalculate\<close>.\<close>

lemma alone_computes_slot:
  fixes q :: fof_queue and t :: u64
  defines "sf \<equiv> ucast (jfofs_time_to_nframes t (q_sample_rate q)) :: u64" and "nf \<equiv> q_next_frame q"
  defines "q1 \<equiv> cache_current_slot nf q"
  assumes "\<not> sf < nf" and "u64_of_int (q_buffer_size q) \<noteq> 0"
    and "\<not> sint (q_n_slots q) \<le> sint (slot_distance q sf nf)"
  obtains xs where "cache_run (Call 0 t # xs) (cache_clients 1 q) = Some \<lparr>k_queue = q1, k_pcs =
    [Swapping sf nf (int_of_u64 ((u64_of_int (slot_distance q sf nf) + q_current_slot q1)
                                 AND u64_of_int (q_n_slots q - 1)))], k_flush = No_Flush\<rparr>"
proof (cases "nf = q_next_frame_check q")
  case True
  with assms(4-6) show thesis
    by (intro that [of "[Proceed 0, Proceed 0, Proceed 0, Proceed 0]"])
      (simp add: cache_clients_def q1_def nf_def sf_def cache_current_slot_def)
next
  case False
  with assms(4-6) show thesis
    by (intro that [of "[Proceed 0, Proceed 0, Proceed 0, Proceed 0, Proceed 0, Proceed 0]"])
      (simp add: cache_clients_def q1_def nf_def sf_def cache_current_slot_def)
qed

subsection \<open>Clients that agree on the frame\<close>

text \<open>The frame for which a client is between its test of the cache and its load of the slot.\<close>

fun updating :: "cache_pc \<Rightarrow> u64 option" where
  "updating (Store_Slot sf nf) = Some nf"
| "updating (Store_Check sf nf) = Some nf"
| "updating (Load_Slot sf nf) = Some nf"
| "updating _ = None"

definition agreed :: "cache_pc list \<Rightarrow> bool" where
  "agreed pcs \<longleftrightarrow> (\<forall>x\<in>set pcs. \<forall>y\<in>set pcs. updating x = None \<or> updating y = None \<or> updating x = updating y)"

text \<open>A flush sets the cache to slot 0 for frame 0, so it counts as an update for frame 0.\<close>

definition flush_agreed :: "cache_race \<Rightarrow> bool" where
  "flush_agreed s \<longleftrightarrow> k_flush s = No_Flush \<or> (\<forall>x\<in>set (k_pcs s). updating x = None \<or> updating x = Some 0)"

definition in_agreement :: "cache_race \<Rightarrow> bool" where
  "in_agreement s \<longleftrightarrow> agreed (k_pcs s) \<and> flush_agreed s"

text \<open>A run in which no two threads are there for different frames.\<close>

fun agreed_run :: "cache_op list \<Rightarrow> cache_race \<Rightarrow> bool" where
  "agreed_run [] s = in_agreement s"
| "agreed_run (x # xs) s =
     (in_agreement s \<and> (case cache_step x s of None \<Rightarrow> False | Some s' \<Rightarrow> agreed_run xs s'))"

lemma agreedD: "agreed pcs \<Longrightarrow> x \<in> set pcs \<Longrightarrow> y \<in> set pcs \<Longrightarrow> updating x = Some n \<Longrightarrow>
    updating y = Some n' \<Longrightarrow> n = n'"
  by (fastforce simp: agreed_def)

lemma flush_agreedD: "flush_agreed s \<Longrightarrow> k_flush s \<noteq> No_Flush \<Longrightarrow> x \<in> set (k_pcs s) \<Longrightarrow> updating x = Some n \<Longrightarrow> n = 0"
  by (fastforce simp: flush_agreed_def)

lemma agreed_one: "length pcs \<le> 1 \<Longrightarrow> agreed pcs"
  by (cases pcs) (auto simp: agreed_def)

lemma cache_step_clients:
  assumes "cache_step x s = Some s'"
  shows "length (k_pcs s') = length (k_pcs s)" "k_flush s = No_Flush \<Longrightarrow> x \<noteq> Flush_Begins \<Longrightarrow> k_flush s' = No_Flush"
  using assms by (cases x; auto split: if_splits cache_pc.splits bind_splits)+

lemma agreed_run_one:
  "cache_run xs s = Some s' \<Longrightarrow> length (k_pcs s) \<le> 1 \<Longrightarrow> k_flush s = No_Flush \<Longrightarrow> Flush_Begins \<notin> set xs \<Longrightarrow>
   agreed_run xs s"
proof (induction xs arbitrary: s)
  case (Cons x xs)
  obtain s1 where s1: "cache_step x s = Some s1" "cache_run xs s1 = Some s'"
    using Cons.prems(1) by (auto split: bind_splits)
  have "agreed_run xs s1" using Cons.IH [OF s1(2)] cache_step_clients [OF s1(1)] Cons.prems(2-4) by auto
  then show ?case using Cons.prems(2,3) s1(1) by (simp add: in_agreement_def flush_agreed_def agreed_one)
qed (simp add: in_agreement_def flush_agreed_def agreed_one)

subsection \<open>What holds at each place\<close>

text \<open>\<open>current_slot\<close> is the slot of a frame; the cache may still name another one.\<close>

definition slot_cached :: "fof_queue \<Rightarrow> u64 \<Rightarrow> bool" where
  "slot_cached q nf \<longleftrightarrow> unat (q_current_slot q) = unat nf div buf_size q mod n_slots q"

definition right_slot :: "fof_queue \<Rightarrow> u64 \<Rightarrow> u64 \<Rightarrow> c_int \<Rightarrow> bool" where
  "right_slot q sf nf slot \<longleftrightarrow> sint slot = int (slot_of (n_slots q) (buf_size q) (unat nf) (unat sf))"

fun pc_ok :: "fof_queue \<Rightarrow> cache_pc \<Rightarrow> bool" where
  "pc_ok q Unused = True"
| "pc_ok q (Entered sf) = (unat sf < 2 ^ 32)"
| "pc_ok q (Recalculate sf nf) = (unat sf < 2 ^ 32)"
| "pc_ok q (Store_Slot sf nf) = (unat sf < 2 ^ 32 \<and> nf \<le> sf)"
| "pc_ok q (Store_Check sf nf) = (unat sf < 2 ^ 32 \<and> nf \<le> sf \<and> slot_cached q nf)"
| "pc_ok q (Load_Slot sf nf) = (unat sf < 2 ^ 32 \<and> nf \<le> sf \<and> slot_cached q nf)"
| "pc_ok q (Confirm sf nf slot) = (unat sf < 2 ^ 32 \<and> right_slot q sf nf slot)"
| "pc_ok q (Swapping sf nf slot) = (unat sf < 2 ^ 32 \<and> right_slot q sf nf slot)"

fun between_stores :: "cache_pc \<Rightarrow> bool" where
  "between_stores (Store_Check sf nf) = True"
| "between_stores _ = False"

definition cache_inv :: "cache_race \<Rightarrow> bool" where
  "cache_inv s \<longleftrightarrow> wf_config (k_queue s) \<and> (\<forall>pc\<in>set (k_pcs s). pc_ok (k_queue s) pc) \<and>
     (cache_ok (k_queue s) \<or> k_flush s = Clear_Check \<or> (\<exists>pc\<in>set (k_pcs s). between_stores pc)) \<and>
     (k_flush s = Clear_Check \<longrightarrow> slot_cached (k_queue s) 0)"

lemma slot_cached_mask:
  assumes "wf_config q"
  shows "slot_cached (q\<lparr>q_current_slot := (nf div u64_of_int (q_buffer_size q)) AND u64_of_int (q_n_slots q - 1)\<rparr>) nf"
proof -
  from assms obtain k where k: "n_slots q = 2 ^ k" "u64_of_int (q_n_slots q - 1) = 2 ^ k - 1"
    "unat (u64_of_int (q_buffer_size q)) = buf_size q"
    by (rule wf_configE)
  then show ?thesis by (simp add: slot_cached_def k(2) unat_and_mask unat_div k(1,3))
qed

lemma slot_cached_value:
  assumes "wf_config q" and "slot_cached q nf" and "nf \<le> sf" and "unat sf < 2 ^ 32"
  shows "right_slot q sf nf (int_of_u64 ((u64_of_int (slot_distance q sf nf) + q_current_slot q)
                                         AND u64_of_int (q_n_slots q - 1)))"
proof -
  have "unat (q_current_slot q) < n_slots q"
    using assms(2) wf_config_pos(1) [OF assms(1)] by (simp add: slot_cached_def)
  from slot_value_at [OF assms(1,3,4) this] assms(2) show ?thesis
    by (simp add: right_slot_def slot_cached_def slot_of_def mod_add_right_eq)
qed

text \<open>Only a store to \<open>current_slot\<close> can disturb the others, and then they are there for the same frame.\<close>

lemma pc_ok_others:
  assumes "pc_ok q pc" and "q_buffer_size q' = q_buffer_size q" and "q_n_slots q' = q_n_slots q"
    and "q_current_slot q' = q_current_slot q \<or> (\<forall>n. updating pc = Some n \<longrightarrow> slot_cached q' n)"
  shows "pc_ok q' pc"
  using assms by (cases pc) (auto simp: slot_cached_def right_slot_def)

lemma cache_continue_frame:
  assumes "cache_continue pc q = Some (pc', q')"
  shows "q_buffer_size q' = q_buffer_size q" "q_n_slots q' = q_n_slots q" "wf_config q' = wf_config q"
    "q_slot q' = q_slot q" "q_mem q' = q_mem q" "q_next_frame q' = q_next_frame q"
  using assms by (cases pc; auto simp: wf_config_def split: if_splits)+

lemma own_step:
  assumes step: "cache_continue pc q = Some (pc', q')" and wf: "wf_config q" and ok: "pc_ok q pc"
    and cached: "updating pc = None \<Longrightarrow> updating pc' = Some (q_next_frame_check q) \<Longrightarrow>
      slot_cached q (q_next_frame_check q)"
  shows "pc_ok q' pc'" and "q_current_slot q' = q_current_slot q \<or> (\<exists>n. updating pc = Some n \<and> slot_cached q' n)"
proof -
  show "q_current_slot q' = q_current_slot q \<or> (\<exists>n. updating pc = Some n \<and> slot_cached q' n)"
    using step slot_cached_mask [OF wf] by (cases pc) (auto split: if_splits)
  show "pc_ok q' pc'"
  proof (cases pc)
    case (Recalculate sf nf)
    then show ?thesis using step ok cached by (auto split: if_splits)
  next
    case (Store_Slot sf nf)
    then show ?thesis using step ok slot_cached_mask [OF wf, of nf] by auto
  next
    case (Store_Check sf nf)
    then show ?thesis using step ok by (auto simp: slot_cached_def)
  next
    case (Load_Slot sf nf)
    then show ?thesis using step ok slot_cached_value [OF wf, of nf sf] by auto
  qed (use step ok in \<open>auto split: if_splits\<close>)
qed

lemma own_step_cache:
  assumes "cache_continue pc q = Some (pc', q')" and "pc_ok q pc"
  shows "cache_ok q' \<or> between_stores pc' \<or> \<not> between_stores pc \<and> cache_ok q' = cache_ok q"
  using assms by (cases pc) (auto simp: slot_cached_def cache_ok_def split: if_splits)

lemma others_stay: "x \<in> set xs \<Longrightarrow> x \<noteq> xs ! c \<Longrightarrow> x \<in> set (xs[c := y])"
  by (metis in_set_conv_nth length_list_update nth_list_update_neq)

lemma cache_inv_proceed:
  assumes inv: "cache_inv s" and agreed: "in_agreement s" "in_agreement s'"
    and step: "cache_step (Proceed c) s = Some s'"
  shows "cache_inv s'"
proof -
  let ?q = "k_queue s" and ?pcs = "k_pcs s"
  obtain pc' q' where c: "c < length ?pcs" "cache_continue (?pcs ! c) ?q = Some (pc', q')"
    "s' = s\<lparr>k_queue := q', k_pcs := ?pcs[c := pc']\<rparr>"
    using step by (auto split: if_splits bind_splits)
  let ?pc = "?pcs ! c"
  note f = cache_continue_frame [OF c(2)] and a = agreed [unfolded in_agreement_def]
  have wf: "wf_config ?q" and ok: "pc_ok ?q pc" if "pc \<in> set ?pcs" for pc
    using inv that by (auto simp: cache_inv_def)
  have pc: "?pc \<in> set ?pcs" using c(1) by simp
  have new: "pc' \<in> set (k_pcs s')" using c(1,3) by (simp add: set_update_memI)
  have other: "x \<in> set (k_pcs s')" if "x \<in> set ?pcs" "x \<noteq> ?pc" for x
    using others_stay [OF that] c(3) by simp
  have cached: "slot_cached ?q (q_next_frame_check ?q)"
    if u: "updating ?pc = None" "updating pc' = Some (q_next_frame_check ?q)"
    using inv [unfolded cache_inv_def]
  proof (elim conjE disjE)
    assume "cache_ok ?q"
    then show ?thesis by (simp add: slot_cached_def cache_ok_def)
  next
    assume "k_flush s = Clear_Check" "k_flush s = Clear_Check \<longrightarrow> slot_cached ?q 0"
    moreover from this have "q_next_frame_check ?q = 0"
      using flush_agreedD [of s' pc'] a(2) new u(2) c(3) by simp
    ultimately show ?thesis by simp
  next
    assume "\<exists>x\<in>set ?pcs. between_stores x"
    then obtain x where x: "x \<in> set ?pcs" "between_stores x" by blast
    obtain sf nf where sc: "x = Store_Check sf nf" using x(2) by (cases x) auto
    then have "x \<noteq> ?pc" using u(1) by (metis option.distinct(1) updating.simps(2))
    then have "nf = q_next_frame_check ?q"
      using agreedD [OF conjunct1 [OF a(2)] other [OF x(1)] new, of nf] u(2) sc by simp
    then show ?thesis using ok [OF x(1)] sc by simp
  qed
  note own = own_step [OF c(2) wf [OF pc] ok [OF pc] cached]
  have "pc_ok q' x" if "x \<in> set ?pcs" for x
  proof (rule pc_ok_others [OF ok [OF that] f(1,2)])
    show "q_current_slot q' = q_current_slot ?q \<or> (\<forall>n. updating x = Some n \<longrightarrow> slot_cached q' n)"
      using own(2) agreedD [OF conjunct1 [OF a(1)] pc that] by blast
  qed
  then have "\<forall>x\<in>set (k_pcs s'). pc_ok q' x"
    using own(1) set_update_subset_insert [of ?pcs c pc'] c(3) by auto
  moreover have "cache_ok q' \<or> k_flush s = Clear_Check \<or> (\<exists>x\<in>set (k_pcs s'). between_stores x)"
    using own_step_cache [OF c(2) ok [OF pc]] inv other new by (fastforce simp: cache_inv_def)
  moreover have "slot_cached q' 0" if k: "k_flush s = Clear_Check"
  proof -
    have "slot_cached ?q 0" using inv k by (simp add: cache_inv_def)
    moreover have "n = 0" if "updating ?pc = Some n" for n
      using flush_agreedD [OF conjunct2 [OF a(1)] _ pc that] k by simp
    ultimately show ?thesis using own(2) f(1,2) by (auto simp: slot_cached_def)
  qed
  ultimately show ?thesis using wf [OF pc] f(3) c(3) by (simp add: cache_inv_def)
qed

lemma cache_inv_replace:
  assumes "cache_inv s" and "c < length (k_pcs s)" and "\<not> between_stores (k_pcs s ! c)" and "pc_ok (k_queue s) pc"
  shows "cache_inv (s\<lparr>k_pcs := (k_pcs s)[c := pc]\<rparr>)"
proof -
  have "\<exists>x\<in>set ((k_pcs s)[c := pc]). between_stores x" if "x \<in> set (k_pcs s)" "between_stores x" for x
    using that assms(3) others_stay [OF that(1), of c] by blast
  moreover have "\<forall>x\<in>set ((k_pcs s)[c := pc]). pc_ok (k_queue s) x"
    using assms(1,4) set_update_subset_insert [of "k_pcs s" c pc] by (auto simp: cache_inv_def)
  ultimately show ?thesis using assms(1) by (auto simp: cache_inv_def)
qed

text \<open>The audio thread: its clock is not part of the cache, its two stores go with frame 0.\<close>

lemma cache_inv_frame:
  assumes "cache_inv s"
  shows "cache_inv (s\<lparr>k_queue := (k_queue s)\<lparr>q_next_frame := f\<rparr>\<rparr>)"
proof -
  let ?q = "(k_queue s)\<lparr>q_next_frame := f\<rparr>"
  have "pc_ok ?q pc = pc_ok (k_queue s) pc" for pc by (cases pc) (simp_all add: slot_cached_def right_slot_def)
  moreover have "wf_config ?q = wf_config (k_queue s)" "cache_ok ?q = cache_ok (k_queue s)"
    "slot_cached ?q 0 = slot_cached (k_queue s) 0"
    by (simp_all add: wf_config_def cache_ok_def slot_cached_def)
  ultimately show ?thesis using assms by (auto simp: cache_inv_def)
qed

lemma cache_inv_flush:
  assumes inv: "cache_inv s" and agreed: "flush_agreed s" and step: "cache_step Flush_Proceeds s = Some s'"
  shows "cache_inv s'"
proof (cases "k_flush s")
  case No_Flush
  then show ?thesis using step by simp
next
  case Clear_Slot
  let ?q = "(k_queue s)\<lparr>q_current_slot := 0\<rparr>"
  have s: "s' = s\<lparr>k_queue := ?q, k_flush := Clear_Check\<rparr>" using step Clear_Slot by simp
  have z: "slot_cached ?q 0" by (simp add: slot_cached_def)
  have "pc_ok ?q x" if x: "x \<in> set (k_pcs s)" for x
  proof (rule pc_ok_others)
    show "pc_ok (k_queue s) x" using inv x by (simp add: cache_inv_def)
    have "slot_cached ?q n" if "updating x = Some n" for n
      using flush_agreedD [OF agreed _ x that] Clear_Slot z by simp
    then show "q_current_slot ?q = q_current_slot (k_queue s) \<or> (\<forall>n. updating x = Some n \<longrightarrow> slot_cached ?q n)" by blast
  qed simp_all
  moreover have "wf_config ?q" using inv by (simp add: cache_inv_def wf_config_def)
  ultimately show ?thesis using z by (simp add: s cache_inv_def)
next
  case Clear_Check
  let ?q = "(k_queue s)\<lparr>q_next_frame_check := 0\<rparr>"
  have s: "s' = s\<lparr>k_queue := ?q, k_flush := No_Flush\<rparr>" using step Clear_Check by simp
  have "slot_cached (k_queue s) 0" using inv Clear_Check by (simp add: cache_inv_def)
  then have "cache_ok ?q" by (simp add: slot_cached_def cache_ok_def)
  moreover have "pc_ok ?q x" if "x \<in> set (k_pcs s)" for x
    by (rule pc_ok_others [of "k_queue s"]) (use inv that in \<open>simp_all add: cache_inv_def\<close>)
  moreover have "wf_config ?q" using inv by (simp add: cache_inv_def wf_config_def)
  ultimately show ?thesis by (simp add: s cache_inv_def)
qed

lemma cache_inv_step:
  assumes inv: "cache_inv s" and agreed: "in_agreement s" "in_agreement s'"
    and step: "cache_step x s = Some s'"
  shows "cache_inv s'"
proof (cases x)
  case (Call c t)
  have c: "c < length (k_pcs s)" "not_adding (k_pcs s ! c)" using step Call by (auto split: if_splits)
  let ?pc = "Entered (ucast (jfofs_time_to_nframes t (q_sample_rate (k_queue s))))"
  have "\<not> between_stores (k_pcs s ! c)" using c(2) by (cases "k_pcs s ! c") auto
  moreover have "pc_ok (k_queue s) ?pc" using start_frame_less by (simp add: unat_start_frame)
  ultimately show ?thesis using cache_inv_replace [OF inv c(1), of ?pc] step c Call by simp
next
  case (Proceed c)
  with cache_inv_proceed [OF inv agreed] step show ?thesis by blast
next
  case (Swap_Failed c)
  obtain sf nf slot where c: "c < length (k_pcs s)" "k_pcs s ! c = Swapping sf nf slot"
    using step Swap_Failed by (auto split: if_splits cache_pc.splits)
  then have "pc_ok (k_queue s) (Swapping sf nf slot)" using inv by (auto simp: cache_inv_def dest!: bspec nth_mem)
  then show ?thesis using cache_inv_replace [OF inv c(1)] step c Swap_Failed by (auto split: if_splits)
next
  case Cycle_Begins
  then show ?thesis using cache_inv_frame [OF inv] step by (auto split: if_splits)
next
  case (Frame_Set f)
  then show ?thesis using cache_inv_frame [OF inv] step by (auto split: if_splits)
next
  case Flush_Begins
  then show ?thesis using inv step by (auto simp: cache_inv_def split: if_splits)
next
  case Flush_Proceeds
  then show ?thesis using cache_inv_flush [OF inv] agreed(1) step by (simp add: in_agreement_def)
qed

lemma cache_inv_run:
  assumes "cache_inv s" and "agreed_run xs s" and "cache_run xs s = Some s'"
  shows "cache_inv s'"
  using assms
proof (induction xs arbitrary: s)
  case (Cons x xs)
  obtain s1 where s1: "cache_step x s = Some s1" "cache_run xs s1 = Some s'"
    using Cons.prems(3) by (auto split: bind_splits)
  have a: "in_agreement s" "agreed_run xs s1" using Cons.prems(2) s1(1) by simp_all
  then have "in_agreement s1" by (cases xs) auto
  then show ?case using Cons.IH [OF cache_inv_step [OF Cons.prems(1) a(1) _ s1(1)] a(2) s1(2)] by blast
qed simp

text \<open>
  C13: every slot that \<open>fof_queue_add\<close> computes is the right one for the frame it works with, however
  the audio thread moves or sets the clock, if there is one client and no flush, or if no two threads are
  ever in an update of the slot cache for different frames, where a flush of the audio thread is an update
  for frame 0; and between two updates the cache is right. (A flush in the middle of an addition does put it
  into a wrong slot: \<open>flush_misleads_client\<close>.)
\<close>

theorem agreeing_clients_find_the_slot:
  assumes "wf_queue q" and "cache_run ops (cache_clients m q) = Some s"
    and "m \<le> 1 \<and> Flush_Begins \<notin> set ops \<or> agreed_run ops (cache_clients m q)"
  shows "(\<forall>sf nf slot. Swapping sf nf slot \<in> set (k_pcs s) \<longrightarrow>
       sint slot = int (slot_of (n_slots (k_queue s)) (buf_size (k_queue s)) (unat nf) (unat sf))) \<and>
    (filter between_stores (k_pcs s) = [] \<and> k_flush s = No_Flush \<longrightarrow> cache_ok (k_queue s))"
proof -
  have "agreed_run ops (cache_clients m q)"
    using assms(2,3) agreed_run_one [OF assms(2)] by (auto simp: cache_clients_def)
  moreover have "cache_inv (cache_clients m q)"
    using wf_queueD(1,2) [OF assms(1)] by (auto simp: cache_inv_def cache_clients_def)
  ultimately have inv: "cache_inv s" using cache_inv_run assms(2) by blast
  have "right_slot (k_queue s) sf nf slot" if "Swapping sf nf slot \<in> set (k_pcs s)" for sf nf slot
    using inv that by (auto simp: cache_inv_def dest: bspec)
  then show ?thesis using inv by (auto simp: right_slot_def cache_inv_def filter_empty_conv)
qed

subsection \<open>A cache that is behind\<close>

text \<open>The cache names the frame of the clock, but holds the slot before its slot.\<close>

definition stale_cache :: "fof_queue \<Rightarrow> bool" where
  "stale_cache q \<longleftrightarrow> q_next_frame_check q = q_next_frame q \<and>
     unat (q_current_slot q) = (unat (q_next_frame q) div buf_size q + (n_slots q - 1)) mod n_slots q"

text \<open>
  C15: on such a cache every addition inside the window succeeds, but its fof goes one slot back: to
  the slot \<open>d + n_slots - 1\<close> cycles ahead, \<open>d\<close> the distance of its start frame in buffers. A fof for the
  next cycle is put in the slot that was played last and comes nearly a round of the ring too
  late. The cache stays as it is.
\<close>

theorem stale_cache_misplaces_fofs:
  assumes "wf_config q" and "owns q (a # fs) ss ex []" and "stale_cache q"
    and w: "in_window q (start_frame q t)"
  shows "\<exists>idx q'. fof_queue_add q t args = Some (JFOFS_SUCCESS, [Incr_Slot idx], q') \<and>
    (let i = (unat (q_next_frame q) div buf_size q
                + ((start_frame q t - unat (q_next_frame q)) div buf_size q + n_slots q - 1)) mod n_slots q in
      owns q' fs (ss[i := a # ss ! i]) ex [] \<and> Suc i mod n_slots q = target_slot q (start_frame q t)) \<and>
    event_at q' a = (t, args) \<and> q_frame q' = q_frame q \<and> stale_cache q'"
proof -
  let ?nf = "q_next_frame q" and ?sf = "ucast (jfofs_time_to_nframes t (q_sample_rate q)) :: u64" and ?n = "n_slots q"
  let ?b = "unat ?nf div buf_size q" and ?d = "(start_frame q t - unat ?nf) div buf_size q"
  let ?q2 = "set_event a t args (set_next a None (q\<lparr>q_free_fofs := nexts q a, q_free_cnt := q_free_cnt q - 1\<rparr>))"
  let ?i = "(?b + (?d + ?n - 1)) mod ?n"
  note e = add_prefix_eq(1-3) [OF assms(2), where t = t and args = args] and a = add_prefix_eq(4) [OF assms(2)]
  have n: "0 < ?n" by (rule wf_config_pos(1) [OF assms(1)])
  have c: "unat (q_current_slot q) < ?n" using assms(3) n by (simp add: stale_cache_def)
  have le: "?nf \<le> ?sf" using w by (simp add: word_le_nat_alt unat_start_frame in_window_def)
  have lt: "unat ?sf < 2 ^ 32" using start_frame_less [of q t] by (simp only: unat_start_frame)
  have q1: "cache_current_slot ?nf ?q2 = ?q2" using assms(3) by (simp add: cache_current_slot_def stale_cache_def)
  have "?d + (?b + (?n - 1)) = ?b + (?d + ?n - 1)" using n by linarith
  then have "(?d + unat (q_current_slot q)) mod ?n = ?i"
    using assms(3) by (simp only: stale_cache_def mod_add_right_eq)
  then have s: "sint (int_of_u64 ((u64_of_int (slot_distance q ?sf ?nf) + q_current_slot q) AND u64_of_int (q_n_slots q - 1)))
      = int ?i"
    using slot_value_at [OF assms(1) le lt c] by (simp only: unat_start_frame)
  have h: "wf_config ?q2" "?i < length (q_slot ?q2)" "a < length (q_mem ?q2)" "unat ?sf < unat ?nf + ?n * buf_size q"
    using assms(1) n a w by (simp_all add: wf_config_def in_window_def unat_start_frame)
  let ?q3 = "(set_next a (q_slot ?q2 ! ?i) ?q2)\<lparr>q_slot := (q_slot ?q2)[?i := Some a]\<rparr>"
  have add: "fof_queue_add q t args = Some (JFOFS_SUCCESS, [Incr_Slot (slot_distance q ?sf ?nf)], ?q3)"
    unfolding e(1) using add_recalculate_at [OF h(1) le lt h(3) _ _ _ h(2), unfolded q1] s h(4) by simp
  moreover have "owns ?q3 fs (ss[?i := a # ss ! ?i]) ex []" by (rule owns_push_slot [OF e(2) h(2)])
  moreover have "Suc ?i mod ?n = (?b + ?d) mod ?n"
  proof -
    have "Suc (?b + (?d + ?n - 1)) = (?b + ?d) + ?n" using n by linarith
    then have "Suc (?b + (?d + ?n - 1)) mod ?n = (?b + ?d) mod ?n" by (simp only: mod_add_self2)
    then show ?thesis by (simp only: mod_Suc_eq)
  qed
  then have "Suc ?i mod ?n = target_slot q (start_frame q t)"
    by (simp add: target_slot_def slot_of_def add.commute)
  moreover have "event_at ?q3 a = (t, args)" using e(3) by simp
  moreover have "q_frame ?q3 = q_frame q" "stale_cache ?q3"
    using assms(3) by (simp_all add: q_frame_def stale_cache_def)
  ultimately show ?thesis by (auto simp: Let_def)
qed

subsection \<open>Two clients on either side of a cycle\<close>

text \<open>
  One client stands before its stores to the cache when a cycle begins; another one, which works with
  the new frame, has its store to \<open>current_slot\<close> overwritten, and then stores \<open>next_frame_check\<close> last.
\<close>

definition crossing :: "u64 \<Rightarrow> u64 \<Rightarrow> cache_op list" where
  "crossing t0 t1 = [Call 1 t1, Proceed 1, Proceed 1, Cycle_Begins, Call 0 t0, Proceed 0, Proceed 0,
     Proceed 0, Proceed 1, Proceed 1, Proceed 0, Proceed 0, Proceed 0]"

lemma crossing_run:
  fixes q :: fof_queue and t0 t1 :: u64
  defines "nf \<equiv> q_next_frame q" and "b \<equiv> u64_of_int (q_buffer_size q)"
    and "sf0 \<equiv> ucast (jfofs_time_to_nframes t0 (q_sample_rate q)) :: u64"
    and "sf1 \<equiv> ucast (jfofs_time_to_nframes t1 (q_sample_rate q)) :: u64"
  defines "c \<equiv> (nf div b) AND u64_of_int (q_n_slots q - 1)"
  assumes "nf \<le> sf1" and "nf + b \<le> sf0" and "b \<noteq> 0"
    and "\<not> sint (q_n_slots q) \<le> sint (slot_distance q sf1 nf)"
    and "\<not> sint (q_n_slots q) \<le> sint (slot_distance q sf0 (nf + b))"
    and "q_next_frame_check q \<noteq> nf" and "q_next_frame_check q \<noteq> nf + b"
  shows "cache_run (crossing t0 t1) (cache_clients 2 q) = Some
    \<lparr>k_queue = q\<lparr>q_next_frame := nf + b, q_current_slot := c, q_next_frame_check := nf + b\<rparr>,
     k_pcs = [Swapping sf0 (nf + b) (int_of_u64 ((u64_of_int (slot_distance q sf0 (nf + b)) + c)
                                                 AND u64_of_int (q_n_slots q - 1))),
              Load_Slot sf1 nf], k_flush = No_Flush\<rparr>"
proof -
  have "\<not> sf1 < nf" "\<not> sf0 < nf + b" using assms(6,7) by simp_all
  then show ?thesis
    using assms(8-12) unfolding crossing_def cache_clients_def numeral_2_eq_2 replicate.simps
    by (simp add: assms(1-5))
qed

lemma slot_behind:
  fixes n b x :: nat
  assumes "0 < b" and "0 < n"
  shows "((x + b) div b + (n - 1)) mod n = x div b mod n"
proof -
  have "(x + b) div b = Suc (x div b)" using assms(1) by (simp add: div_add_self2)
  then have "(x + b) div b + (n - 1) = x div b + n" using assms(2) by linarith
  then show ?thesis by (simp only: mod_add_self2)
qed

text \<open>
  C14: two clients whose calls lie on either side of the beginning of a cycle can leave a cache that is
  behind: the client that works with the new frame computes a wrong slot although it finds
  \<open>next_frame\<close> unchanged afterwards, and so does every addition until the clock moves on.
\<close>

theorem crossing_clients_corrupt_cache:
  assumes "wf_queue q" and "2 \<le> n_slots q" and "q_next_frame_check q \<noteq> q_next_frame q"
    and "q_next_frame_check q \<noteq> q_next_frame q + u64_of_int (q_buffer_size q)"
    and "in_window q (start_frame q t1)"
    and "unat (q_next_frame q) + buf_size q \<le> start_frame q t0"
    and "start_frame q t0 < unat (q_next_frame q) + buf_size q + n_slots q * buf_size q"
  shows "\<exists>s sf slot. cache_run (crossing t0 t1) (cache_clients 2 q) = Some s \<and>
    k_pcs s ! 0 = Swapping sf (q_next_frame (k_queue s)) slot \<and> unat sf = start_frame q t0 \<and>
    unat (q_next_frame (k_queue s)) = unat (q_next_frame q) + buf_size q \<and>
    sint slot \<noteq> int (slot_of (n_slots q) (buf_size q) (unat (q_next_frame (k_queue s))) (start_frame q t0)) \<and>
    stale_cache (k_queue s) \<and> wf_config (k_queue s) \<and>
    owns (k_queue s) (free_list q) (slot_lists q) (excess_list q) []"
proof -
  note w = wf_queueD [OF assms(1)]
  let ?nf = "q_next_frame q" and ?b = "u64_of_int (q_buffer_size q)" and ?bs = "buf_size q" and ?n = "n_slots q"
  let ?sf0 = "ucast (jfofs_time_to_nframes t0 (q_sample_rate q)) :: u64"
  let ?sf1 = "ucast (jfofs_time_to_nframes t1 (q_sample_rate q)) :: u64"
  let ?c = "(?nf div ?b) AND u64_of_int (q_n_slots q - 1)"
  let ?slot = "int_of_u64 ((u64_of_int (slot_distance q ?sf0 (?nf + ?b)) + ?c) AND u64_of_int (q_n_slots q - 1))"
  let ?q = "q\<lparr>q_next_frame := ?nf + ?b, q_current_slot := ?c, q_next_frame_check := ?nf + ?b\<rparr>"
  have pos: "0 < ?n" "0 < ?bs" using wf_config_pos [OF w(1)] by simp_all
  have b: "unat ?b = ?bs" "?b \<noteq> 0" using wf_config_buffer [OF w(1)] w(1) by (auto elim: wf_configE)
  have lt: "unat ?sf0 < 2 ^ 32" "unat ?sf1 < 2 ^ 32" using start_frame_less by (simp_all only: unat_start_frame)
  have "unat ?nf + unat ?b < 2 ^ LENGTH(64)"
    using assms(6) start_frame_less [of q t0] by (simp add: b)
  then have nb: "unat (?nf + ?b) = unat ?nf + ?bs" using b(1) by (simp only: unat_add_lem [THEN iffD1])
  have le: "?nf \<le> ?sf1" "?nf + ?b \<le> ?sf0"
    using assms(5,6) by (simp_all add: word_le_nat_alt unat_start_frame in_window_def nb)
  have far: "\<not> sint (q_n_slots q) \<le> sint (slot_distance q ?sf1 ?nf)"
    "\<not> sint (q_n_slots q) \<le> sint (slot_distance q ?sf0 (?nf + ?b))"
    using excess_iff [OF w(1) le(1) lt(2)] excess_iff [OF w(1) le(2) lt(1)] assms(5,7)
    by (simp_all add: in_window_def unat_start_frame nb)
  note run = crossing_run [OF le b(2) far assms(3,4)]
  have c: "unat ?c = unat ?nf div ?bs mod ?n"
    using slot_cached_mask [OF w(1), of ?nf] by (simp add: slot_cached_def)
  then have "unat ?c < ?n" using pos(1) by simp
  from slot_value_at [OF w(1) le(2) lt(1) this]
  have "sint ?slot = int (((start_frame q t0 - (unat ?nf + ?bs)) div ?bs + unat ?nf div ?bs) mod ?n)"
    by (simp only: nb unat_start_frame c mod_add_right_eq)
  moreover have "((start_frame q t0 - (unat ?nf + ?bs)) div ?bs + unat ?nf div ?bs) mod ?n
      \<noteq> slot_of ?n ?bs (unat ?nf + ?bs) (start_frame q t0)"
    using next_slot_differs [OF assms(2), THEN not_sym] pos(2)
    by (simp only: slot_of_def div_add_self2 add_Suc_right Suc_eq_plus1 [symmetric]) auto
  ultimately have wrong: "sint ?slot \<noteq> int (slot_of ?n ?bs (unat (?nf + ?b)) (start_frame q t0))"
    by (simp add: nb)
  have "stale_cache ?q" using slot_behind [OF pos(2,1), of "unat ?nf"] by (simp add: stale_cache_def c nb)
  moreover have "wf_config ?q" "owns ?q (free_list q) (slot_lists q) (excess_list q) []"
    using w(1,3) by (simp_all add: wf_config_def owns_cong [of ?q q])
  ultimately show ?thesis using run wrong nb by (auto simp: unat_start_frame)
qed

subsection \<open>Examples\<close>

definition ex_moved :: fof_queue where
  "ex_moved = ex_queue\<lparr>q_next_frame := 8\<rparr>"

text \<open>
  A flush between a client's test of the cache and its load of \<open>current_slot\<close>: the client computes slot 0 where
  slot 1 is the one of its frame, and finds \<open>next_frame\<close> unchanged, since the audio thread stores it after
  the flush.
\<close>

theorem flush_misleads_client:
  "map_option k_pcs (cache_run ([Call 0 9] @ replicate 4 (Proceed 0) @ [Flush_Begins, Flush_Proceeds, Flush_Proceeds,
       Proceed 0, Proceed 0]) (cache_clients 1 ex_moved)) = Some [Swapping 9 8 0] \<and>
   slot_of (n_slots ex_moved) (buf_size ex_moved) 8 9 = 1"
  by code_simp

definition ex_stale :: fof_queue where
  "ex_stale = ex_queue\<lparr>q_next_frame := 16, q_next_frame_check := 16, q_current_slot := 1\<rparr>"

lemma ex_moved_values: "wf_queue ex_moved" "n_slots ex_moved = 4" "buf_size ex_moved = 8"
  "q_next_frame ex_moved = 8" "q_next_frame_check ex_moved = 0" "u64_of_int (q_buffer_size ex_moved) = 8"
  "start_frame ex_moved 9 = 9" "start_frame ex_moved 20 = 20"
proof -
  show "wf_queue ex_moved" using ex_wf_queue by (subst wf_queue_cong(1) [of _ ex_queue]) (simp_all add: ex_moved_def)
qed (code_simp)+

lemma ex_stale_values: "wf_config ex_stale" "owns ex_stale [0, 1, 2] (replicate 4 []) [] []" "stale_cache ex_stale"
  "in_window ex_stale (start_frame ex_stale 17)"
proof -
  note w = wf_queueD [OF ex_wf_queue]
  show "wf_config ex_stale" using w(1) by (simp add: wf_config_def ex_stale_def)
  have "free_list ex_queue = [0, 1, 2]" "slot_lists ex_queue = replicate 4 []" "excess_list ex_queue = []" by code_simp+
  then show "owns ex_stale [0, 1, 2] (replicate 4 []) [] []"
    using w(3) by (simp add: ex_stale_def owns_cong [of "ex_queue\<lparr>q_next_frame := 16, q_next_frame_check := 16, q_current_slot := 1\<rparr>" ex_queue])
qed (code_simp)+

text \<open>Two clients, the second of which enters after a cycle has begun and the first is done.\<close>

definition ex_calls :: "cache_op list" where
  "ex_calls = [Cycle_Begins, Call 0 17, Call 1 30, Proceed 0, Proceed 1, Proceed 0, Proceed 1, Proceed 0, Proceed 1,
     Proceed 0, Proceed 0, Proceed 0]"

theorem agreeing_clients_find_the_slot_witness:
  "\<exists>s. cache_run ex_calls (cache_clients 2 ex_queue) = Some s \<and> Swapping 17 8 2 \<in> set (k_pcs s) \<and>
    sint (2 :: c_int) = int (slot_of (n_slots (k_queue s)) (buf_size (k_queue s)) (unat (8 :: u64)) (unat (17 :: u64)))"
proof -
  have a: "agreed_run ex_calls (cache_clients 2 ex_queue)" by code_simp
  have "map_option (\<lambda>s. k_pcs s ! 0) (cache_run ex_calls (cache_clients 2 ex_queue)) = Some (Swapping 17 8 2)"
    "map_option (\<lambda>s. length (k_pcs s)) (cache_run ex_calls (cache_clients 2 ex_queue)) = Some 2" by code_simp+
  then obtain s where s: "cache_run ex_calls (cache_clients 2 ex_queue) = Some s" "k_pcs s ! 0 = Swapping 17 8 2"
    "length (k_pcs s) = 2" by auto
  then have "Swapping 17 8 2 \<in> set (k_pcs s)" by (metis nth_mem zero_less_numeral)
  then show ?thesis using agreeing_clients_find_the_slot [OF ex_wf_queue s(1)] a s(1) by blast
qed

theorem stale_cache_misplaces_fofs_witness:
  "\<exists>idx q'. fof_queue_add ex_stale 17 [] = Some (JFOFS_SUCCESS, [Incr_Slot idx], q') \<and>
    (let i = (unat (q_next_frame ex_stale) div buf_size ex_stale
                + ((start_frame ex_stale 17 - unat (q_next_frame ex_stale)) div buf_size ex_stale + n_slots ex_stale - 1))
             mod n_slots ex_stale in
      owns q' [1, 2] ((replicate 4 [])[i := 0 # replicate 4 [] ! i]) [] [] \<and>
      Suc i mod n_slots ex_stale = target_slot ex_stale (start_frame ex_stale 17)) \<and>
    event_at q' 0 = (17, []) \<and> q_frame q' = q_frame ex_stale \<and> stale_cache q'"
  by (rule stale_cache_misplaces_fofs [OF ex_stale_values])

theorem crossing_clients_corrupt_cache_witness:
  "\<exists>s sf slot. cache_run (crossing 20 9) (cache_clients 2 ex_moved) = Some s \<and>
    k_pcs s ! 0 = Swapping sf (q_next_frame (k_queue s)) slot \<and> unat sf = start_frame ex_moved 20 \<and>
    unat (q_next_frame (k_queue s)) = unat (q_next_frame ex_moved) + buf_size ex_moved \<and>
    sint slot \<noteq> int (slot_of (n_slots ex_moved) (buf_size ex_moved) (unat (q_next_frame (k_queue s))) (start_frame ex_moved 20)) \<and>
    stale_cache (k_queue s) \<and> wf_config (k_queue s) \<and>
    owns (k_queue s) (free_list ex_moved) (slot_lists ex_moved) (excess_list ex_moved) []"
  by (rule crossing_clients_corrupt_cache) (simp_all add: ex_moved_values in_window_def)

end
