(* ===== verification/Slot_Count.thy ===== *)
theory Slot_Count
  imports Cycle
begin

unbundle bit_operations_syntax

text \<open>
  Why the number of slots has to be a power of two. Additions and the audio thread reduce block
  numbers with the mask \<open>n_slots - 1\<close>; an addition adds the distance of its fof to the reduced number of
  the current block and reduces again. \<^verbatim>\<open>main.c\<close> takes any number from the command line.
\<close>

subsection \<open>The two computations\<close>

definition added_slot :: "fof_queue \<Rightarrow> u64 \<Rightarrow> c_int \<Rightarrow> c_int" where
  "added_slot q nf slot_idx =
     int_of_u64 ((u64_of_int slot_idx + q_current_slot (cache_current_slot nf q)) AND u64_of_int (q_n_slots q - 1))"

definition played_slot :: "fof_queue \<Rightarrow> u64 \<Rightarrow> c_int" where
  "played_slot q n = int_of_u64 ((n div u64_of_int (q_buffer_size q)) AND u64_of_int (q_n_slots q - 1))"

text \<open>The cache as \<open>cache_current_slot\<close> leaves it.\<close>

definition cache_filled :: "fof_queue \<Rightarrow> bool" where
  "cache_filled q \<longleftrightarrow> q_current_slot q
     = (q_next_frame_check q div u64_of_int (q_buffer_size q)) AND u64_of_int (q_n_slots q - 1)"

lemma cache_filled_current:
  "cache_filled q \<Longrightarrow> q_current_slot (cache_current_slot nf q)
     = (nf div u64_of_int (q_buffer_size q)) AND u64_of_int (q_n_slots q - 1)"
  by (simp add: cache_filled_def cache_current_slot_def)

lemma slot_mask:
  assumes "0 < sint (q_n_slots q)"
  shows "unat (u64_of_int (q_n_slots q - 1)) = n_slots q - 1" "n_slots q - 1 < 2 ^ 31"
proof -
  have lt: "sint (q_n_slots q) < 2 ^ 31" using sint_lt [of "q_n_slots q"] by simp
  have s: "sint (q_n_slots q - 1) = sint (q_n_slots q) - 1"
    using assms lt by (subst sint_word_ariths(2)) (simp add: signed_take_bit_int_eq_self)
  then show "unat (u64_of_int (q_n_slots q - 1)) = n_slots q - 1"
    using assms by (subst unat_u64_of_int) (simp_all add: nat_diff_distrib)
  show "n_slots q - 1 < 2 ^ 31" using assms lt by simp
qed

lemma and_mask_le: "unat (x AND u64_of_int (q_n_slots q - 1)) \<le> n_slots q - 1" if "0 < sint (q_n_slots q)"
  using word_and_le1 [of x "u64_of_int (q_n_slots q - 1)"] slot_mask(1) [OF that] by (simp add: word_le_nat_alt)

lemma masked_value:
  assumes "0 < sint (q_n_slots q)"
  shows "sint (int_of_u64 (x AND u64_of_int (q_n_slots q - 1))) = int (unat x AND (n_slots q - 1))"
proof -
  have "unat (x AND u64_of_int (q_n_slots q - 1)) < 2 ^ 31"
    using and_mask_le [OF assms, of x] slot_mask(2) [OF assms] by (rule le_less_trans)
  from sint_int_of_u64 [OF this] show ?thesis
    by (simp only: unsigned_and_eq slot_mask(1) [OF assms])
qed

lemma added_value:
  assumes "0 < sint (q_n_slots q)" and "0 < sint (q_buffer_size q)" and "cache_filled q" and "0 \<le> sint idx"
  shows "sint (added_slot q nf idx)
    = int ((nat (sint idx) + ((unat nf div buf_size q) AND (n_slots q - 1))) AND (n_slots q - 1))"
proof -
  let ?c = "(nf div u64_of_int (q_buffer_size q)) AND u64_of_int (q_n_slots q - 1)"
  have c: "unat ?c = (unat nf div buf_size q) AND (n_slots q - 1)"
    using assms(2) slot_mask(1) [OF assms(1)] by (simp add: unsigned_and_eq unat_div unat_u64_of_int)
  have "sint idx < 2 ^ 31" using sint_lt [of idx] by simp
  moreover have "unat ?c < 2 ^ 31" using and_mask_le [OF assms(1)] slot_mask(2) [OF assms(1)] by (rule le_less_trans)
  ultimately have "unat (u64_of_int idx) + unat ?c < 2 ^ LENGTH(64)"
    using assms(4) by (simp add: unat_u64_of_int)
  then have "unat (u64_of_int idx + ?c) = nat (sint idx) + unat ?c"
    using assms(4) by (simp only: unat_add_lem [THEN iffD1] unat_u64_of_int)
  then show ?thesis
    using masked_value [OF assms(1)] assms(3) by (simp add: added_slot_def cache_filled_current c)
qed

lemma played_value:
  assumes "0 < sint (q_n_slots q)" and "0 < sint (q_buffer_size q)"
  shows "sint (played_slot q n) = int ((unat n div buf_size q) AND (n_slots q - 1))"
  using masked_value [OF assms(1)] assms(2) by (simp add: played_slot_def unat_div unat_u64_of_int)

subsection \<open>Masks\<close>

lemma unset_below_set:
  fixes m :: nat
  assumes "\<forall>k. Suc m \<noteq> 2 ^ k"
  obtains j where "\<not> bit m j" "bit m (Suc j)"
  using assms
proof (induction m arbitrary: thesis rule: less_induct)
  case (less m)
  show ?case
  proof (cases "even m")
    case True
    have "m \<noteq> 0" using less.prems(2) by (metis One_nat_def power_0)
    show ?thesis
    proof (cases "even (m div 2)")
      case even: True
      have "Suc (m div 2) \<noteq> 2 ^ k" for k
      proof (cases k)
        case 0
        then show ?thesis using \<open>m \<noteq> 0\<close> True by auto
      next
        case (Suc l)
        then show ?thesis using even by (metis even_Suc even_mult_iff even_numeral power_Suc)
      qed
      then obtain j where "\<not> bit (m div 2) j" "bit (m div 2) (Suc j)"
        using less.IH [of "m div 2"] \<open>m \<noteq> 0\<close> by auto
      then show ?thesis using less.prems(1) [of "Suc j"] by (simp add: bit_Suc)
    next
      case False
      then show ?thesis using less.prems(1) [of 0] True by (simp add: bit_Suc bit_0)
    qed
  next
    case False
    then obtain n where n: "m = Suc (2 * n)" by (metis oddE Suc_eq_plus1)
    have "Suc n \<noteq> 2 ^ k" for k using less.prems(2) [rule_format, of "Suc k"] n by auto
    then obtain j where "\<not> bit n j" "bit n (Suc j)" using less.IH [of n] n by auto
    then show ?thesis using less.prems(1) [of "Suc j"] n by (simp add: bit_Suc)
  qed
qed

lemma bit_le: "bit m j \<Longrightarrow> 2 ^ j \<le> m" for m :: nat
  by (metis bit_iff_odd div_less even_zero not_le)

lemma exp_and_nat: "2 ^ j AND m = (if bit m j then 2 ^ j else 0)" for m :: nat
  by (rule bit_eqI) (auto simp: bit_and_iff bit_exp_iff)

lemma mask_adds: "(i + (b AND (2 ^ k - 1))) AND (2 ^ k - 1) = (b + i) AND (2 ^ k - 1)" for b i :: nat
  by (simp only: mask_eq_exp_minus_1 [symmetric] take_bit_eq_mask [symmetric] take_bit_eq_mod mod_add_right_eq
      add.commute)

subsection \<open>The number of slots\<close>

text \<open>A clear bit below a set one: two blocks of which the sum carries are mapped wrongly.\<close>

lemma mask_gap_disagrees:
  assumes "0 < sint (q_n_slots q)" and "0 < sint (q_buffer_size q)" and "cache_filled q"
    and "\<not> bit (n_slots q - 1) j" and "bit (n_slots q - 1) (Suc j)"
  shows "\<exists>nf idx n. sint idx \<in> {0..<sint (q_n_slots q)} \<and> unat n = unat nf + nat (sint idx) * buf_size q \<and>
    added_slot q nf idx \<noteq> played_slot q n"
proof -
  let ?m = "n_slots q - 1"
  have le: "2 ^ Suc j \<le> ?m" by (rule bit_le [OF assms(5)])
  then have lt: "(2 :: nat) ^ Suc j < 2 ^ 31" using slot_mask(2) [OF assms(1)] by (rule le_less_trans)
  have bs: "buf_size q < 2 ^ 31" "0 < buf_size q" using sint_lt [of "q_buffer_size q"] assms(2) by simp_all
  have "2 ^ Suc j * buf_size q < 2 ^ 31 * 2 ^ 31" by (rule mult_strict_mono' [OF lt bs(1)]) simp_all
  then have big: "2 ^ Suc j * buf_size q < 18446744073709551616" by simp
  have word: "\<exists>w :: u64. unat w = x" if "x < 18446744073709551616" for x
    using that by (intro exI [of _ "of_nat x"]) (simp add: unat_of_nat take_bit_nat_eq_self)
  have "2 ^ j * buf_size q \<le> 2 ^ Suc j * buf_size q" by simp
  then obtain nf n :: u64 where n: "unat nf = 2 ^ j * buf_size q" "unat n = 2 ^ Suc j * buf_size q"
    using word [OF le_less_trans [OF _ big]] word [OF big] by blast
  obtain idx :: c_int where idx: "sint idx = int (2 ^ j)" using lt sint_of_nat [of "2 ^ j"] by force
  have "sint (added_slot q nf idx) = int ((2 ^ j + (2 ^ j AND ?m)) AND ?m)"
    using added_value [OF assms(1-3), of idx nf] bs(2) by (simp add: idx n nat_power_eq)
  also have "\<dots> = 0" using assms(4) by (simp only: exp_and_nat if_False add_0_right of_nat_0)
  finally have a: "sint (added_slot q nf idx) = 0" .
  have "sint (played_slot q n) = int (2 ^ Suc j AND ?m)"
    using played_value [OF assms(1,2), of n] bs(2) by (simp add: n del: power_Suc)
  then have "sint (played_slot q n) = int (2 ^ Suc j)" using assms(5) by (simp only: exp_and_nat if_True)
  then have "added_slot q nf idx \<noteq> played_slot q n" using a by auto
  moreover have "(2 :: nat) ^ j < 2 ^ Suc j" by simp
  then have "2 ^ j < n_slots q" using le by linarith
  then have "int (2 ^ j) < sint (q_n_slots q)" by (simp only: zless_nat_eq_int_zless)
  then have "sint idx \<in> {0..<sint (q_n_slots q)}" using idx by simp
  moreover have "unat n = unat nf + nat (sint idx) * buf_size q" by (simp add: idx n nat_power_eq)
  ultimately show ?thesis by blast
qed

text \<open>
  C20: additions and the audio thread agree on the slot of every frame in the window of the ring if and
  only if the number of slots is a power of two.
\<close>

theorem slots_agree_iff_power_of_two:
  assumes "0 < sint (q_n_slots q)" and "0 < sint (q_buffer_size q)" and "cache_filled q"
  shows "(\<forall>nf idx n. sint idx \<in> {0..<sint (q_n_slots q)} \<and> unat n = unat nf + nat (sint idx) * buf_size q
       \<longrightarrow> added_slot q nf idx = played_slot q n) \<longleftrightarrow> (\<exists>k. n_slots q = 2 ^ k)"
proof
  assume "\<exists>k. n_slots q = 2 ^ k"
  then obtain k where k: "n_slots q = 2 ^ k" ..
  have "added_slot q nf idx = played_slot q n"
    if "sint idx \<in> {0..<sint (q_n_slots q)}" "unat n = unat nf + nat (sint idx) * buf_size q" for nf idx n
  proof -
    have "0 < buf_size q" using assms(2) by simp
    then have "unat n div buf_size q = unat nf div buf_size q + nat (sint idx)" using that(2) by simp
    then have "sint (added_slot q nf idx) = sint (played_slot q n)"
      using added_value [OF assms, of idx nf] played_value [OF assms(1,2), of n] that(1) mask_adds
      by (simp only: k atLeastLessThan_iff)
    then show ?thesis by (simp add: signed_word_eqI)
  qed
  then show "\<forall>nf idx n. sint idx \<in> {0..<sint (q_n_slots q)} \<and> unat n = unat nf + nat (sint idx) * buf_size q
       \<longrightarrow> added_slot q nf idx = played_slot q n" by blast
next
  assume agree: "\<forall>nf idx n. sint idx \<in> {0..<sint (q_n_slots q)} \<and> unat n = unat nf + nat (sint idx) * buf_size q
       \<longrightarrow> added_slot q nf idx = played_slot q n"
  show "\<exists>k. n_slots q = 2 ^ k"
  proof (rule ccontr)
    assume "\<nexists>k. n_slots q = 2 ^ k"
    moreover have "Suc (n_slots q - 1) = n_slots q" using assms(1) by simp
    ultimately obtain j where "\<not> bit (n_slots q - 1) j" "bit (n_slots q - 1) (Suc j)"
      using unset_below_set [of "n_slots q - 1"] by metis
    from mask_gap_disagrees [OF assms this] agree show False by blast
  qed
qed

text \<open>The computations are those of the code; with three slots an accepted fof is in the wrong one.\<close>

lemma played_slot_due: "wf_config q \<Longrightarrow> sint (played_slot q n) = int (due_slot q n)"
  unfolding played_slot_def by (rule due_slot_word)

lemma added_slot_word:
  "wf_config q \<Longrightarrow> cache_ok q \<Longrightarrow> nf \<le> sf \<Longrightarrow> unat sf < 2 ^ 32 \<Longrightarrow>
   sint (added_slot q nf (int_of_u64 ((sf - nf) div u64_of_int (q_buffer_size q))))
     = int (slot_of (n_slots q) (buf_size q) (unat nf) (unat sf))"
  unfolding added_slot_def by (rule slot_value)

definition ex_three_slots :: fof_queue where
  "ex_three_slots = ex_queue\<lparr>q_n_slots := 3, q_slot := [None, None, None], q_next_frame := 8\<rparr>"

lemma ex_three_slots_misplaced:
  "map_option (\<lambda>(st, evs, q). (st, q_slot q)) (fof_queue_add ex_three_slots 17 [])
     = Some (JFOFS_SUCCESS, [Some 0, None, None])"
  "played_slot ex_three_slots 16 = 2"
  by code_simp+

theorem slots_agree_iff_power_of_two_witness:
  "\<exists>nf idx n. sint idx \<in> {0..<sint (q_n_slots ex_three_slots)} \<and>
    unat n = unat nf + nat (sint idx) * buf_size ex_three_slots \<and>
    added_slot ex_three_slots nf idx \<noteq> played_slot ex_three_slots n"
proof -
  have v: "0 < sint (q_n_slots ex_three_slots)" "0 < sint (q_buffer_size ex_three_slots)"
    "n_slots ex_three_slots = 3" "cache_filled ex_three_slots" by code_simp+
  have "(3 :: nat) \<noteq> 2 ^ k" for k by (cases k) (simp_all, presburger)
  then show ?thesis using slots_agree_iff_power_of_two [OF v(1,2,4)] unfolding v(3) by blast
qed

end
