(* ===== verification/Signal_Path.thy ===== *)
theory Signal_Path
  imports Delivery Fair_Deal
begin

text \<open>
  One block of the server: JACK runs the control client first and then the dsp clients that are
  connected behind it, so in each block the banks are given the fofs that are due and then
  rendered. Each bank counts frames on its own; the control client sets the count only when it is
  not synchronised. Here it is shown that the counts stay at \<open>next_frame\<close> all the same, so that an
  accepted fof is added to a bank which has not rendered its start frame yet and does so in that block.
\<close>

subsection \<open>A block\<close>

text \<open>
  What is assumed of the library: adding a fof leaves the frame counter of a bank, setting it sets
  it, rendering a block moves it on by the block.
\<close>

definition bank_keeps_time :: "'b fofs_lib \<Rightarrow> bool" where
  "bank_keeps_time lib \<longleftrightarrow>
     (\<forall>b t a. fof_timeI lib (fst (fof_add_v lib b t a)) = fof_timeI lib b) \<and>
     (\<forall>b n. fof_timeI lib (fof_set_timeI lib b n) = n) \<and>
     (\<forall>b n buf. fof_timeI lib (fst (fof_next_block lib b n buf)) = fof_timeI lib b + ucast n)"

definition rendered :: "'b fofs_lib \<Rightarrow> (nat \<Rightarrow> c_float list option) \<Rightarrow> u32 \<Rightarrow> 'b dsp_client \<Rightarrow> 'b dsp_client" where
  "rendered lib bufs nframes d = (case dsp_client_process lib bufs nframes d of (r, d', out) \<Rightarrow> d')"

definition block :: "'b fofs_lib \<Rightarrow> (nat \<Rightarrow> c_float list option) \<Rightarrow> jack_clock \<Rightarrow> 'b engine \<Rightarrow> 'b engine option" where
  "block lib bufs clk s =
     do { (ctrl, q, dsps) \<leftarrow> audio_cycle lib clk s;
          Some (ctrl, q, map (rendered lib bufs (q_buffer_size q)) dsps) }"

text \<open>JACK has a buffer for every port of a dsp client.\<close>

definition has_buffers :: "(nat \<Rightarrow> c_float list option) \<Rightarrow> 'b dsp_client \<Rightarrow> bool" where
  "has_buffers bufs d \<longleftrightarrow> get_buffers bufs (take (nat (sint (d_n_chans d))) (d_out_port d)) \<noteq> None"

subsection \<open>The frame counters\<close>

abbreviation counter :: "'b fofs_lib \<Rightarrow> 'b dsp_client \<Rightarrow> u64" where
  "counter lib d \<equiv> dsp_get_next_frame lib d"

lemma counter_give: "bank_keeps_time lib \<Longrightarrow> counter lib (give lib e d) = counter lib d"
  by (simp add: bank_keeps_time_def dsp_get_next_frame_def give_def)

lemma counter_set: "bank_keeps_time lib \<Longrightarrow> counter lib (dsp_set_next_frame lib d n) = n"
  by (simp add: bank_keeps_time_def dsp_get_next_frame_def dsp_set_next_frame_def)

lemma counter_rendered:
  "bank_keeps_time lib \<Longrightarrow> has_buffers bufs d \<Longrightarrow>
   counter lib (rendered lib bufs nframes d) = counter lib d + ucast nframes"
  by (auto simp: bank_keeps_time_def dsp_get_next_frame_def rendered_def dsp_client_process_def has_buffers_def
      split: option.split prod.split) (metis fst_conv)

lemma has_buffers_kept [simp]:
  "has_buffers bufs (give lib e d) = has_buffers bufs d"
  "has_buffers bufs (dsp_set_next_frame lib d n) = has_buffers bufs d"
  "has_buffers bufs (rendered lib bufs' nframes d) = has_buffers bufs d"
  by (simp_all add: has_buffers_def give_def dsp_set_next_frame_def rendered_def dsp_client_process_def
      split: option.split prod.split)

lemma counter_deal:
  assumes "bank_keeps_time lib"
  shows "j < length dsps \<Longrightarrow> counter lib (deal lib n i es dsps ! j) = counter lib (dsps ! j)"
    and "list_all (has_buffers bufs) dsps \<Longrightarrow> list_all (has_buffers bufs) (deal lib n i es dsps)"
proof -
  show "j < length dsps \<Longrightarrow> counter lib (deal lib n i es dsps ! j) = counter lib (dsps ! j)"
  proof (induction es arbitrary: i dsps)
    case (Cons e es)
    then show ?case by (cases "i = j") (simp_all add: counter_give [OF assms])
  qed simp
  show "list_all (has_buffers bufs) dsps \<Longrightarrow> list_all (has_buffers bufs) (deal lib n i es dsps)"
  proof (induction es arbitrary: i dsps)
    case (Cons e es)
    have "has_buffers bufs (dsps[i := give lib e (dsps ! i)] ! j)" if "j < length dsps" for j
      using Cons.prems that by (cases "i = j") (simp_all add: list_all_length)
    then have "list_all (has_buffers bufs) (dsps[i := give lib e (dsps ! i)])" by (simp add: list_all_length)
    from Cons.IH [OF this] show ?case by simp
  qed simp
qed

lemma list_all_sync: "list_all (has_buffers bufs) dsps \<Longrightarrow> list_all (has_buffers bufs) (cycle_dsps lib ctrl n dsps)"
  by (auto simp: cycle_dsps_def sync_all_def list_all_iff dest: in_set_takeD in_set_dropD)

subsection \<open>Blocks as a frame scheduler\<close>

text \<open>The counters are at \<open>next_frame\<close>, or will be set to it.\<close>

definition counted :: "'b fofs_lib \<Rightarrow> 'b engine \<Rightarrow> bool" where
  "counted lib s = (case s of (ctrl, q, dsps) \<Rightarrow>
     c_syncronized ctrl \<noteq> 0 \<longrightarrow> (\<forall>i<n_clients ctrl. counter lib (dsps ! i) = q_next_frame q))"

definition block_inv :: "'b fofs_lib \<Rightarrow> (nat \<Rightarrow> c_float list option) \<Rightarrow> 'b engine \<Rightarrow> bool" where
  "block_inv lib bufs s \<longleftrightarrow> bank_keeps_time lib \<and> engine_inv s \<and> counted lib s \<and>
     (case s of (ctrl, q, dsps) \<Rightarrow> list_all (has_buffers bufs) dsps)"

definition block_hear ::
  "'b fofs_lib \<Rightarrow> (nat \<Rightarrow> c_float list option) \<Rightarrow> 'b engine \<Rightarrow> event list \<Rightarrow> 'b dsp_client list" where
  "block_hear lib bufs s evs = (case s of (ctrl, q, dsps) \<Rightarrow>
     map (rendered lib bufs (q_buffer_size q)) (engine_hear lib s evs))"

text \<open>The counters when the fofs of a cycle have been dealt.\<close>

lemma counters_in_cycle:
  assumes "block_inv lib bufs (ctrl, q, dsps)" and "i < n_clients ctrl"
  shows "counter lib (cycle_dsps lib ctrl (q_next_frame q) dsps ! i) = q_next_frame q"
    and "counter lib (engine_hear lib (ctrl, q, dsps) evs ! i) = q_next_frame q"
proof -
  have lib: "bank_keeps_time lib" and c: "counted lib (ctrl, q, dsps)" and w: "wf_ctrl ctrl dsps" "in_step ctrl q dsps"
    using assms(1) by (simp_all add: block_inv_def engine_inv_def in_step_def)
  have i: "i < length dsps" using wf_ctrlD(3) [OF w(1)] assms(2) by simp
  show d: "counter lib (cycle_dsps lib ctrl (q_next_frame q) dsps ! i) = q_next_frame q"
  proof (cases "c_syncronized ctrl = 0")
    case True
    then show ?thesis using i assms(2) by (simp add: cycle_dsps_def sync_all_def nth_append counter_set [OF lib])
  next
    case False
    then show ?thesis using c assms(2) in_step_clock [OF w(2)] by (simp add: cycle_dsps_def counted_def)
  qed
  show "counter lib (engine_hear lib (ctrl, q, dsps) evs ! i) = q_next_frame q"
    using counter_deal(1) [OF lib, of i "cycle_dsps lib ctrl (q_next_frame q) dsps"] i d
    by (simp add: engine_hear_def)
qed

lemma block_add_law:
  assumes "block_inv lib bufs s"
  shows "\<exists>st s'. engine_add s e = Some (st, s') \<and> block_inv lib bufs s' \<and> engine_clock s' = engine_clock s \<and>
    engine_period s' = engine_period s \<and> engine_cycles_left s' = engine_cycles_left s \<and>
    (st = JFOFS_SUCCESS \<longrightarrow> engine_clock s \<le> engine_start s e) \<and>
    engine_pending s' = (let k = (engine_start s e - engine_clock s) div engine_period s in
      if st = JFOFS_SUCCESS then (engine_pending s)(k := e # engine_pending s k) else engine_pending s)"
proof -
  have "engine_inv s" using assms by (simp add: block_inv_def)
  from engine_add_law [OF this, of e] obtain st s' where r: "engine_add s e = Some (st, s')" "engine_inv s'"
    "engine_clock s' = engine_clock s" "engine_period s' = engine_period s" "engine_cycles_left s' = engine_cycles_left s"
    "st = JFOFS_SUCCESS \<longrightarrow> engine_clock s \<le> engine_start s e"
    "engine_pending s' = (let k = (engine_start s e - engine_clock s) div engine_period s in
      if st = JFOFS_SUCCESS then (engine_pending s)(k := e # engine_pending s k) else engine_pending s)" by blast
  obtain ctrl q dsps where s: "s = (ctrl, q, dsps)" by (cases s)
  then obtain q' where s': "s' = (ctrl, q', dsps)" using r(1) by (auto simp: engine_add_def)
  have "q_next_frame q' = q_next_frame q" using r(3) by (simp add: s s' engine_clock_def word_unat_eq_iff)
  then have "block_inv lib bufs s'" using assms r(2) by (simp add: block_inv_def counted_def s s')
  with r show ?thesis by blast
qed

lemma block_cycle_law:
  assumes "block_inv lib bufs s" and "0 < engine_cycles_left s"
  shows "\<exists>s'. block lib bufs clk s = Some s' \<and> block_inv lib bufs s' \<and>
    engine_clock s' = engine_clock s + engine_period s \<and> engine_period s' = engine_period s \<and>
    engine_cycles_left s' = engine_cycles_left s - 1 \<and>
    (\<forall>k. engine_pending s' k = engine_pending s (Suc k)) \<and>
    engine_sound s' = block_hear lib bufs s (engine_pending s 0)"
proof -
  obtain ctrl q dsps where s: "s = (ctrl, q, dsps)" by (cases s)
  have inv: "bank_keeps_time lib" "engine_inv s" "list_all (has_buffers bufs) dsps"
    and w: "wf_queue q" "in_step ctrl q dsps"
    using assms(1) by (simp_all add: block_inv_def engine_inv_def s)
  let ?dsps = "engine_hear lib s (engine_pending s 0)"
  obtain s1 where r: "audio_cycle lib clk s = Some s1" "engine_inv s1" "engine_clock s1 = engine_clock s + engine_period s"
    "engine_period s1 = engine_period s" "engine_cycles_left s1 = engine_cycles_left s - 1"
    "\<forall>k. engine_pending s1 k = engine_pending s (Suc k)" "engine_sound s1 = ?dsps"
    using engine_cycle_law [OF inv(2) assms(2), of lib clk] by blast
  let ?k = "length (map (event_at q) (slot_lists q ! due_slot q (q_next_frame q)))"
  obtain q' d where "audio_cycle lib clk (ctrl, q, dsps) = Some (stepped clk ctrl ?k, q', d)"
    and f: "q_next_frame q' = q_next_frame q + ucast (q_buffer_size q)" "q_buffer_size q' = q_buffer_size q"
    by (rule in_step_cycle [OF w, of lib clk]) (auto simp: cycled_def)
  with r(1,7) have s1: "s1 = (stepped clk ctrl ?k, q', ?dsps)" by (auto simp: s engine_sound_def)
  let ?s' = "(stepped clk ctrl ?k, q', map (rendered lib bufs (q_buffer_size q)) ?dsps)"
  have n: "n_clients (stepped clk ctrl k) = n_clients ctrl" for k by (simp add: stepped_def split: prod.split)
  have b: "list_all (has_buffers bufs) ?dsps"
    using counter_deal(2) [OF inv(1) list_all_sync [OF inv(3)]] by (simp add: s engine_hear_def)
  have l: "n_clients ctrl \<le> length ?dsps"
    using w(2) wf_ctrlD(3) by (auto simp: s engine_hear_def in_step_def)
  have "counter lib (rendered lib bufs (q_buffer_size q) (?dsps ! i)) = q_next_frame q'" if "i < n_clients ctrl" for i
    using counter_rendered [OF inv(1), of bufs "?dsps ! i"] b l that f(1)
      counters_in_cycle(2) [OF assms(1) [unfolded s] that] by (simp add: list_all_length s)
  then have "counted lib ?s'" using l by (simp add: counted_def n)
  moreover have "engine_inv ?s'"
    using r(2) wf_ctrl_length [of "map (rendered lib bufs (q_buffer_size q)) ?dsps" ?dsps]
    by (simp add: engine_inv_def in_step_def s1)
  ultimately have "block_inv lib bufs ?s'" using inv(1) b by (simp add: block_inv_def list_all_length)
  moreover have "block lib bufs clk s = Some ?s'" using r(1) f(2) by (simp add: block_def s1)
  ultimately show ?thesis
    using r(3-6) by (auto simp: s s1 engine_view engine_cycles_left_def block_hear_def)
qed

interpretation blocks: frame_scheduler "block_inv lib bufs" engine_add "block lib bufs" engine_clock
  engine_period engine_cycles_left engine_start engine_pending engine_sound "block_hear lib bufs"
  for lib :: "'b fofs_lib" and bufs
proof
  show "0 < engine_period s" if "block_inv lib bufs s" for s
    using that jack_frames.period_pos [of s] by (simp add: block_inv_def)
qed (fact block_add_law block_cycle_law)+

subsection \<open>Runs\<close>

definition synced :: "'b engine \<Rightarrow> bool" where
  "synced s = (case s of (ctrl, q, dsps) \<Rightarrow> c_syncronized ctrl \<noteq> 0)"

lemma block_synced:
  assumes "block_inv lib bufs s" and "block lib bufs clk s = Some s'"
  shows "synced s'"
proof -
  obtain ctrl q dsps where s: "s = (ctrl, q, dsps)" by (cases s)
  have w: "wf_queue q" "in_step ctrl q dsps" using assms(1) by (simp_all add: block_inv_def engine_inv_def s)
  have "c_syncronized (stepped clk ctrl k) \<noteq> 0" for k by (simp add: stepped_def split: prod.split)
  moreover obtain k q' d where "audio_cycle lib clk (ctrl, q, dsps) = Some (stepped clk ctrl k, q', d)"
    by (rule in_step_cycle [OF w, of lib clk])
  ultimately show ?thesis using assms(2) by (auto simp: s block_def synced_def)
qed

lemma run_synced:
  assumes "block_inv lib bufs s" and "n_cycles ops \<le> engine_cycles_left s" and "0 < n_cycles ops \<or> synced s"
    and "run_ops engine_add (block lib bufs) ops s = Some s'"
  shows "synced s'"
  using assms
proof (induction ops arbitrary: s rule: n_cycles.induct)
  case (2 e ops)
  obtain st s1 where r: "engine_add s e = Some (st, s1)" "block_inv lib bufs s1"
    "engine_cycles_left s1 = engine_cycles_left s"
    using block_add_law [OF 2(2), of e] by blast
  have "synced s1 = synced s" using r(1) by (cases s) (auto simp: engine_add_def synced_def)
  then show ?case using 2(1) [OF r(2)] 2(3-5) r(1,3) by simp
next
  case (3 clk ops)
  have "0 < engine_cycles_left s" using 3(3) by simp
  then obtain s1 where r: "block lib bufs clk s = Some s1" "block_inv lib bufs s1"
    "engine_cycles_left s1 = engine_cycles_left s - 1"
    using block_cycle_law [OF 3(2), of clk] by blast
  then show ?case using 3(1) [OF r(2)] 3(3-5) block_synced [OF 3(2) r(1)] by simp
qed simp

text \<open>
  C11: the clocks of the dsp clients and the clock of the queue never drift apart: after any additions
  and at least one block, every bank counts exactly \<open>next_frame\<close>, which has moved by one buffer for each
  block. (JACK's frame time, a buffer for every port, a library that counts the frames it renders.)
\<close>

theorem dsp_clocks_follow_queue:
  assumes "bank_keeps_time lib" and "engine_inv (ctrl, q, dsps)" and "list_all (has_buffers bufs) dsps"
    and "c_syncronized ctrl \<noteq> 0 \<longrightarrow> (\<forall>i<n_clients ctrl. dsp_get_next_frame lib (dsps ! i) = q_next_frame q)"
    and "0 < n_cycles ops" and "n_cycles ops \<le> engine_cycles_left (ctrl, q, dsps)"
  shows "\<exists>ctrl' q' dsps'. run_ops engine_add (block lib bufs) ops (ctrl, q, dsps) = Some (ctrl', q', dsps') \<and>
    unat (q_next_frame q') = unat (q_next_frame q) + n_cycles ops * buf_size q \<and>
    (\<forall>i<n_clients ctrl'. dsp_get_next_frame lib (dsps' ! i) = q_next_frame q')"
proof -
  let ?s = "(ctrl, q, dsps)"
  have inv: "block_inv lib bufs ?s" using assms(1-4) by (simp add: block_inv_def counted_def)
  obtain s' where r: "run_ops engine_add (block lib bufs) ops ?s = Some s'" "block_inv lib bufs s'"
    "engine_clock s' = engine_clock ?s + n_cycles ops * engine_period ?s"
    using blocks.run_pending [OF inv assms(6)] by blast
  moreover obtain ctrl' q' dsps' where s': "s' = (ctrl', q', dsps')" by (cases s')
  moreover have "synced s'" using run_synced [OF inv assms(6) _ r(1)] assms(5) by blast
  ultimately show ?thesis by (simp add: engine_view block_inv_def counted_def synced_def)
qed

lemma shared_with:
  assumes "i < n" and "e \<in> set es"
  obtains d where "d < n" "e \<in> set (share n i d es)"
proof -
  have "e \<in># (\<Sum>d<n. mset (share n i d es))" using assms by (simp add: shares_partition)
  then have "\<exists>d<n. e \<in># mset (share n i d es)" by (auto simp: set_mset_sum)
  then show thesis using that by auto
qed

text \<open>What is pending for the next block is given to a bank whose counter is the first frame of the block.\<close>

lemma due_event_is_given:
  assumes "block_inv lib bufs s" and "e \<in> set (engine_pending s 0)" and "0 < engine_cycles_left s"
  obtains ctrl q dsps ctrl2 q2 dsps2 i bank before after where "s = (ctrl, q, dsps)"
    "ctrl_client_process_cb lib clk (q_buffer_size q) ctrl q dsps = Some (ctrl2, q2, dsps2)" "i < n_clients ctrl"
    "dsps2 ! i = fold (give lib) (before @ e # after) bank" "dsp_get_next_frame lib bank = q_next_frame q"
proof -
  obtain ctrl q dsps where s: "s = (ctrl, q, dsps)" by (cases s)
  have inv: "engine_inv s" and w: "wf_ctrl ctrl dsps"
    using assms(1) by (simp_all add: block_inv_def engine_inv_def in_step_def s)
  obtain s2 where "audio_cycle lib clk s = Some s2" "engine_sound s2 = engine_hear lib s (engine_pending s 0)"
    using engine_cycle_law [OF inv assms(3), of lib clk] by blast
  then obtain ctrl2 q2 where cb: "ctrl_client_process_cb lib clk (q_buffer_size q) ctrl q dsps
      = Some (ctrl2, q2, engine_hear lib s (engine_pending s 0))"
    by (cases s2) (auto simp: s audio_cycle_def engine_sound_def)
  let ?banks = "cycle_dsps lib ctrl (q_next_frame q) dsps"
  have n: "last_dsp ctrl < n_clients ctrl" "n_clients ctrl \<le> length ?banks"
    using wf_ctrlD(3,6) [OF w] by simp_all
  obtain i where i: "i < n_clients ctrl" "e \<in> set (share (n_clients ctrl) (last_dsp ctrl) i (engine_pending s 0))"
    by (rule shared_with [OF n(1) assms(2)])
  then obtain before after where "share (n_clients ctrl) (last_dsp ctrl) i (engine_pending s 0) = before @ e # after"
    by (auto dest: split_list)
  then have "engine_hear lib s (engine_pending s 0) ! i = fold (give lib) (before @ e # after) (?banks ! i)"
    using deal_share [OF n i(1), of lib "engine_pending s 0"] by (simp add: s engine_hear_def)
  then show thesis
    by (rule that [OF s cb i(1) _ counters_in_cycle(1) [OF assms(1) [unfolded s] i(1)]])
qed

text \<open>
  C2: a fof whose addition was answered with success is added to a bank in time: \<open>k\<close> blocks later, \<open>k\<close>
  the distance of its start frame in buffers, the control client gives it to one of the dsp clients,
  whose frame counter then is the first frame of that block, and the start frame lies in the block.
\<close>

theorem accepted_fof_reaches_bank_in_time:
  assumes "bank_keeps_time lib" and "engine_inv (ctrl, q, dsps)" and "list_all (has_buffers bufs) dsps"
    and "c_syncronized ctrl \<noteq> 0 \<longrightarrow> (\<forall>i<n_clients ctrl. dsp_get_next_frame lib (dsps ! i) = q_next_frame q)"
    and "fof_queue_add q t args = Some (JFOFS_SUCCESS, evs, q0)"
    and "n_cycles ops = (start_frame q t - unat (q_next_frame q)) div buf_size q"
    and "n_cycles ops < engine_cycles_left (ctrl, q, dsps)"
  shows "\<exists>ctrl1 q1 dsps1 ctrl2 q2 dsps2 i bank before after.
    run_ops engine_add (block lib bufs) ops (ctrl, q0, dsps) = Some (ctrl1, q1, dsps1) \<and>
    unat (q_next_frame q1) \<le> start_frame q t \<and> start_frame q t < unat (q_next_frame q1) + buf_size q1 \<and>
    ctrl_client_process_cb lib clk (q_buffer_size q1) ctrl1 q1 dsps1 = Some (ctrl2, q2, dsps2) \<and>
    i < n_clients ctrl1 \<and> dsps2 ! i = fold (give lib) (before @ (t, args) # after) bank \<and>
    dsp_get_next_frame lib bank = q_next_frame q1"
proof -
  let ?s = "(ctrl, q, dsps)" and ?e = "(t, args)"
  have inv: "block_inv lib bufs ?s" using assms(1-4) by (simp add: block_inv_def counted_def)
  have add: "engine_add ?s ?e = Some (JFOFS_SUCCESS, (ctrl, q0, dsps))" using assms(5) by (simp add: engine_add_def)
  have lag: "n_cycles ops = (engine_start ?s ?e - engine_clock ?s) div engine_period ?s"
    using assms(6) by (simp add: engine_view)
  obtain st s0 where s0: "engine_add ?s ?e = Some (st, s0)" "block_inv lib bufs s0"
    "engine_cycles_left s0 = engine_cycles_left ?s"
    "engine_pending s0 = (let k = (engine_start ?s ?e - engine_clock ?s) div engine_period ?s in
      if st = JFOFS_SUCCESS then (engine_pending ?s)(k := ?e # engine_pending ?s k) else engine_pending ?s)"
    using block_add_law [OF inv, of ?e] by blast
  obtain s1 s2 xs ys where r: "run_ops engine_add (block lib bufs) ops (ctrl, q0, dsps) = Some s1"
    "block lib bufs clk s1 = Some s2" "engine_clock s1 \<le> engine_start ?s ?e"
    "engine_start ?s ?e < engine_clock s1 + engine_period s1"
    using blocks.accepted_is_played [OF inv add lag assms(7) [unfolded lag], of clk] by blast
  have left: "n_cycles ops < engine_cycles_left s0" using assms(7) s0(3) by simp
  have "s0 = (ctrl, q0, dsps)" using s0(1) add by simp
  then obtain p where p: "block_inv lib bufs s1" "engine_pending s1 0 = p @ engine_pending s0 (n_cycles ops)"
    "engine_cycles_left s1 = engine_cycles_left s0 - n_cycles ops"
    using blocks.run_pending [OF s0(2) less_imp_le [OF left]] r(1) by auto
  have "?e \<in> set (engine_pending s1 0)" using s0(4) add s0(1) lag p(2) by (simp add: Let_def)
  moreover have "0 < engine_cycles_left s1" using p(3) left by simp
  ultimately obtain ctrl1 q1 dsps1 ctrl2 q2 dsps2 i bank before after where d: "s1 = (ctrl1, q1, dsps1)"
    "ctrl_client_process_cb lib clk (q_buffer_size q1) ctrl1 q1 dsps1 = Some (ctrl2, q2, dsps2)" "i < n_clients ctrl1"
    "dsps2 ! i = fold (give lib) (before @ ?e # after) bank" "dsp_get_next_frame lib bank = q_next_frame q1"
    by (rule due_event_is_given [OF p(1), where clk = clk])
  have "unat (q_next_frame q1) \<le> start_frame q t" "start_frame q t < unat (q_next_frame q1) + buf_size q1"
    using r(3,4) by (simp_all add: d(1) engine_view)
  with r(1) [unfolded d(1)] d(2-5) show ?thesis by blast
qed

subsection \<open>Examples\<close>

text \<open>A bank that counts its frames and records the fofs it is given.\<close>

definition ex_timed_lib :: "(u64 \<times> event list) fofs_lib" where
  "ex_timed_lib = \<lparr>fof_add_v = (\<lambda>b t a. ((fst b, snd b @ [(t, a)]), 0)), fof_set_timeI = (\<lambda>b n. (n, snd b)),
     fof_timeI = fst, fof_next_block = (\<lambda>b n buf. ((fst b + ucast n, snd b), buf)),
     fof_newBank = (\<lambda>r m p s. Some (0, [])), fof_ModeToChannels = (\<lambda>m. m)\<rparr>"

definition ex_timed_dsps :: "(u64 \<times> event list) dsp_client list" where
  "ex_timed_dsps = [ex_dsp (0, []), ex_dsp (0, [])]"

lemma ex_timed: "bank_keeps_time ex_timed_lib" "list_all (has_buffers (\<lambda>p. Some [])) ex_timed_dsps"
  "engine_inv (ex_ctrl, ex_queue, ex_timed_dsps)" "2 < engine_cycles_left (ex_ctrl, ex_queue, ex_timed_dsps)"
  "c_syncronized ex_ctrl \<noteq> 0 \<longrightarrow>
     (\<forall>i<n_clients ex_ctrl. dsp_get_next_frame ex_timed_lib (ex_timed_dsps ! i) = q_next_frame ex_queue)"
proof -
  show "bank_keeps_time ex_timed_lib" by (simp add: bank_keeps_time_def ex_timed_lib_def)
  show "list_all (has_buffers (\<lambda>p. Some [])) ex_timed_dsps"
    by (simp add: has_buffers_def ex_timed_dsps_def ex_dsp_def)
  have "wf_ctrl ex_ctrl ex_timed_dsps" using ex_wf_ctrl by (simp add: wf_ctrl_def ex_dsps_def ex_timed_dsps_def)
  then show "engine_inv (ex_ctrl, ex_queue, ex_timed_dsps)"
    using ex_engine by (simp add: engine_inv_def in_step_def)
  show "2 < engine_cycles_left (ex_ctrl, ex_queue, ex_timed_dsps)"
    by (simp add: engine_cycles_left_def engine_clock_def engine_period_def ex_defs)
qed (simp add: ex_ctrl_def)

definition ex_blocks :: "(event, jack_clock) sched_op list" where
  "ex_blocks = [Cycle_Op ex_clock, Add_Op (40, []), Cycle_Op ex_clock]"

theorem dsp_clocks_follow_queue_witness:
  "\<exists>ctrl' q' dsps'. run_ops engine_add (block ex_timed_lib (\<lambda>p. Some [])) ex_blocks (ex_ctrl, ex_queue, ex_timed_dsps)
      = Some (ctrl', q', dsps') \<and>
    unat (q_next_frame q') = unat (q_next_frame ex_queue) + n_cycles ex_blocks * buf_size ex_queue \<and>
    (\<forall>i<n_clients ctrl'. dsp_get_next_frame ex_timed_lib (dsps' ! i) = q_next_frame q')"
  by (rule dsp_clocks_follow_queue [OF ex_timed(1,3,2,5)]) (use ex_timed(4) in \<open>simp_all add: ex_blocks_def\<close>)

theorem accepted_fof_reaches_bank_in_time_witness:
  "\<exists>ctrl1 q1 dsps1 ctrl2 q2 dsps2 i bank before after.
    run_ops engine_add (block ex_timed_lib (\<lambda>p. Some [])) ex_blocks (ex_ctrl, ex_queue1, ex_timed_dsps)
      = Some (ctrl1, q1, dsps1) \<and>
    unat (q_next_frame q1) \<le> start_frame ex_queue 17 \<and> start_frame ex_queue 17 < unat (q_next_frame q1) + buf_size q1 \<and>
    ctrl_client_process_cb ex_timed_lib ex_clock (q_buffer_size q1) ctrl1 q1 dsps1 = Some (ctrl2, q2, dsps2) \<and>
    i < n_clients ctrl1 \<and> dsps2 ! i = fold (give ex_timed_lib) (before @ (17, [1, 2]) # after) bank \<and>
    dsp_get_next_frame ex_timed_lib bank = q_next_frame q1"
proof (rule accepted_fof_reaches_bank_in_time [OF ex_timed(1,3,2,5) ex_add])
  have "(start_frame ex_queue 17 - unat (q_next_frame ex_queue)) div buf_size ex_queue = 2" by code_simp
  then show "n_cycles ex_blocks = (start_frame ex_queue 17 - unat (q_next_frame ex_queue)) div buf_size ex_queue"
    by (simp add: ex_blocks_def)
  show "n_cycles ex_blocks < engine_cycles_left (ex_ctrl, ex_queue, ex_timed_dsps)"
    using ex_timed(4) by (simp add: ex_blocks_def)
qed

end
