(* ===== verification/Spec2Isabelle.thy ===== *)
theory Spec2Isabelle
  imports
    Delivery Queue_Pool Queue_Limits System Mix_Client
    Free_List_Race Single_Allocator Tagged_Stack Slot_Race Add_Race_Runs Fair_Deal
    Client_Clock Offline Signal_Tester Sin_Gen Debug Stress Server_Main
    Manager_Dummy Unit_Tests Cache_Race Slot_Count Signal_Path
begin

text \<open>
  \<^bold>\<open>jackfofs\<close> schedules fof events (short formant grains) for synthesis under JACK. API clients
  write events with a start time into a ring of slots in shared memory; once per audio block the
  control client of the server takes the slot that is due and deals its events to the dsp
  clients, which synthesise them; the mix client passes the sum on. This development models the
  C sources under \<^verbatim>\<open>src/src\<close>. \<open>C<n>\<close> in a theory is the number of a property in the manifest.

  \<^bold>\<open>Conventions.\<close> A C struct is a record, a pointer to a cell is its index in the array it points into
  (\<^const>\<open>None\<close> is \<open>NULL\<close>), integers are words of their width read with \<^const>\<open>sint\<close> or
  \<^const>\<open>unat\<close>, a \<open>float\<close> is its bit pattern. Every operation that can go wrong returns an
  option: \<^const>\<open>None\<close> is undefined behaviour (an access out of bounds, a null pointer, a division by
  zero), an \<open>abort\<close>, or a loop that does not return (\<^theory_text>\<open>partial_function\<close>). A status the code
  returns is a value of \<open>jfofs_status\<close> or its code. So a theorem of the form \<open>f x = Some y\<close> says that
  the call returns and is defined; nothing is stated only under the condition that it returns.
  No fuel is used: loops over lists recurse on the list, loops over an index on the number of
  rounds that are left, the others are partial functions shown to return.

  \<^bold>\<open>Theories.\<close>

  \<^item> \<open>Prelude\<close>: word types, linked lists in an array (\<open>chain\<close>), arithmetic lemmas. \<open>Clock\<close>:
    \<^verbatim>\<open>jfofs_types.h\<close>, \<^verbatim>\<open>setup.h\<close>, \<^verbatim>\<open>jfofs_private.h\<close>. \<open>External\<close>: libfofs and JACK as parameters.
    \<open>Interfaces\<close>: the locales \<open>cell_pool\<close> (what the queue asks of a free list) and
    \<open>frame_scheduler\<close> (what an API client relies on), interpreted in \<open>Queue_Pool\<close>, \<open>Stack\<close>, \<open>Delivery\<close> and \<open>Signal_Path\<close>.

  \<^item> \<open>Fof_Queue\<close> is \<^verbatim>\<open>fof_queue.c\<close>, one definition per function and loop. \<open>Queue_Memory\<close> says who
    owns each cell (free list, slots, excess list), \<open>Queue_Ops\<close> proves what adding and taking a slot do,
    \<open>Queue_Life\<close> initialisation, freeing and flushing, \<open>Queue_Limits\<close> the window and the limits of the
    clock, \<open>Slot_Count\<close> why the number of slots has to be a power of two. \<open>Schedule\<close> is the abstract specification: the ring as a list of event lists, with
    \<open>spec_add\<close>; the code refines it.

  \<^item> \<open>Ctrl_Client\<close> is \<^verbatim>\<open>ctrl_client.c\<close>, \<open>Ctrl_Process\<close> what its process callback does; \<open>Dsp_Client\<close> and
    \<open>Mix_Client\<close> are \<^verbatim>\<open>dsp_client.c\<close> and \<^verbatim>\<open>mix_client.c\<close>. \<open>Cycle\<close> states one audio cycle over the
    abstract specification, \<open>Fair_Deal\<close> how events are shared out among the dsp clients,
    \<open>Delivery\<close> that an accepted event is played in its cycle and nothing else is. \<open>Signal_Path\<close> adds the
    rendering by the dsp clients, whose own frame counters are shown to follow the queue, so that an
    accepted event reaches a bank in time; it is a second interpretation of \<open>frame_scheduler\<close>.

  \<^item> \<open>Shmem\<close> is \<^verbatim>\<open>shmem.c\<close> and \<^verbatim>\<open>statistics.c\<close>, \<open>Api\<close> is \<^verbatim>\<open>api.c\<close>, \<open>Manager\<close> is \<^verbatim>\<open>manager.c\<close>. \<open>System\<close>
    composes them: the states that a server and its clients reach after its creation by additions with
    their counting, cycles, clock changes, flushes, clients that come and go, one whole operation after
    the other, with rule induction over that relation.

  \<^item> \<open>Options\<close>, \<open>Pipewire_Query\<close> and \<open>Server_Main\<close> are \<^verbatim>\<open>main.c\<close> and \<^verbatim>\<open>pipewire_query.c\<close>: the setup that a
    command line gives, and every exit path. \<open>Offline\<close> is \<^verbatim>\<open>offline.c\<close> with all its error paths and
    the resources they give back. \<open>Stress\<close> is \<^verbatim>\<open>stress_main.c\<close> with \<^verbatim>\<open>test_util.c\<close>, an API client run against
    the model of the API. \<open>Signal_Tester\<close> and \<open>Sin_Gen\<close> are the two JACK clients of the tests, over
    arbitrary float operations; \<open>Debug\<close> is \<^verbatim>\<open>debug.c\<close>; \<open>Manager_Dummy\<close> is \<^verbatim>\<open>manager_dummy.c\<close>, an older
    stand-in for the server. \<open>Examples\<close> holds the states of the witnesses, \<open>Unit_Tests\<close> makes the
    checks of \<^verbatim>\<open>test_fof_queue.c\<close> and \<^verbatim>\<open>test_statistics.c\<close> on the model.

  \<^bold>\<open>Threads.\<close> \<open>Fof_Queue\<close> is what one thread executes. The places where threads meet are modelled
  with explicit interleavings. \<open>Slot_Race\<close> lets API threads and the audio thread work on
  the free list and the slots: with one API thread, or several whose allocations do not overlap, no cell is
  lost or in two lists, although no compare-and-swap can see that a head
  has gone and come back; the excess list, changed without atomic operations, does lose cells. \<open>Cache_Race\<close>
  cuts the way to the slot into its accesses to the slot cache: a single client always finds the right
  slot as long as nothing is flushed, and so do threads that never update the cache for different frames; two
  clients that do so on either
  side of a cycle leave a cache that puts every later addition into a wrong slot until the clock
  moves, and a flush in the middle of an addition puts that one into a wrong slot. \<open>Free_List_Race\<close> cuts allocation and release of a cell into their
  atomic steps: two allocating threads can be given the same cell; \<open>Single_Allocator\<close> shows that one
  allocating thread among any number of releasing ones is safe. \<open>Stack\<close> and \<open>Tagged_Stack\<close> are
  \<^verbatim>\<open>stack.c\<close>, the stack whose head carries a tag, which is safe for any number of threads (until a
  tag has wrapped). \<open>Add_Race\<close> cuts an addition before its compare-and-swap and \<open>Add_Race_Runs\<close> runs any
  number of audio cycles there: until the slot is played they do no harm; afterwards the event is
  refused without a trace when the slot held something, and comes a round of the ring too late
  when it was empty. While a call waits it holds a cell (\<open>wf_held\<close>), and the lemmas about cycles
  allow for such cells. \<open>Client_Clock\<close> shows how the clock that clients read follows the cycles, what a
  read torn by a cycle gives, and that scheduling ahead of it works. Memory is sequentially
  consistent in these models.

  \<^bold>\<open>Parameters.\<close> libfofs (a bank with its operations), what JACK and the operating system return,
  \<open>argp\<close> (a list of options in the order of the command line), libsndfile, pipewire, the
  machine's float operations, and the sizes of the structs. Where a property needs a law of such
  code it is an assumption of the property: for instance that rendering a block keeps the
  shape of the buffers it is given (\<open>keeps_shape\<close>), that a bank counts the frames it renders
  (\<open>bank_keeps_time\<close>), or that the callbacks leave the server's own
  clients in place (\<open>same_clients\<close>).

  \<^bold>\<open>Bounds.\<close> A setup is well formed (\<open>wf_setup\<close>) when the number of slots is a power of two that
  fits an \<open>int\<close> and the blocks have at least two frames. Times and frames of the delivery
  properties stay below the limits at which \<open>jfofs_time_to_nframes\<close> cuts a frame to 32 bits; what
  happens beyond is a property of its own (\<open>nothing_accepted_past_32_bits\<close>). The statistics
  properties, and those of \<open>System\<close> in a build that counts, require at most \<open>MAX_SLOTS\<close> slots, which the code
  does not check.

  \<^bold>\<open>Not modelled.\<close> Output on the terminal (except the numbers \<open>dump_statistics\<close> prints) and the
  functions that only print; registration of callbacks and \<open>free\<close> of memory where nothing
  depends on it; \<open>time_handling\<close> of \<^verbatim>\<open>manager.c\<close> (compiled out); the builds with \<open>TRACE\<close>,
  \<open>JFOFS_USE_NEXTI\<close> and \<open>DEBUG_ENABLE\<close> (but for \<open>Debug\<close> itself); weaker memory orders than
  sequential consistency; the cells of an addition and its slot cache in one model of interleavings
  (\<open>Slot_Race\<close> leaves the slot open, \<open>Cache_Race\<close> ends where the slot is known); \<^verbatim>\<open>api_new.c\<close>, which does
  not compile, and \<^verbatim>\<open>main_shmem.c\<close>, which only prints the addresses of a mapping; the unit tests that
  need a JACK server, a rendering library or the file system.
\<close>

end
